(* ===== verification/Prelude.thy ===== *)
theory Prelude
  imports Main "HOL-Library.Word" "HOL-Library.Multiset" "HOL-Library.Monad_Syntax"
begin

unbundle bit_operations_syntax

text \<open>
  Shared vocabulary of the development.

  \<^item> C arrays are HOL lists that are read and written through \<open>aget\<close> and \<open>aset\<close>; an access
    outside the array has no defined result in C and is the value \<open>None\<close> here, so a theorem
    that an operation returns \<open>Some\<close> also says that it stays inside its buffers.
  \<^item> Comparison callbacks of C (negative, zero, positive) are integer-valued functions; what a
    caller of such a callback relies on is the locale \<open>comparator\<close>.
  \<^item> The collections \<open>arr_simps\<close> and \<open>cmp_simps\<close> carry the rewrite rules that the component
    proofs share.
\<close>

named_theorems arr_simps \<open>reads and writes of C arrays\<close>
named_theorems cmp_simps \<open>three-way comparison results\<close>

type_synonym uchar = "8 word"
type_synonym uint16 = "16 word"
type_synonym uint32 = "32 word"
type_synonym ulonglong = "64 word"

subsection \<open>Arrays\<close>

definition aget :: "'a list \<Rightarrow> nat \<Rightarrow> 'a option" where
  "aget xs i = (if i < length xs then Some (xs ! i) else None)"

definition aset :: "'a list \<Rightarrow> nat \<Rightarrow> 'a \<Rightarrow> 'a list option" where
  "aset xs i v = (if i < length xs then Some (xs[i := v]) else None)"

lemma aget_Some [arr_simps, simp]: "i < length xs \<Longrightarrow> aget xs i = Some (xs ! i)"
  by (simp add: aget_def)

lemma aget_None [arr_simps]: "\<not> i < length xs \<Longrightarrow> aget xs i = None"
  by (simp add: aget_def)

lemma aset_Some [arr_simps, simp]: "i < length xs \<Longrightarrow> aset xs i v = Some (xs[i := v])"
  by (simp add: aset_def)

lemma aset_None [arr_simps]: "\<not> i < length xs \<Longrightarrow> aset xs i v = None"
  by (simp add: aset_def)

lemma aget_eq_Some [arr_simps]: "aget xs i = Some v \<longleftrightarrow> i < length xs \<and> v = xs ! i"
  by (auto simp: aget_def)

lemma aset_eq_Some [arr_simps]: "aset xs i v = Some ys \<longleftrightarrow> i < length xs \<and> ys = xs[i := v]"
  by (auto simp: aset_def)

text \<open>The arr_slice of an array between two indices, and what an update does to it.\<close>

definition arr_slice :: "nat \<Rightarrow> nat \<Rightarrow> 'a list \<Rightarrow> 'a list" where
  "arr_slice i n xs = take n (drop i xs)"

lemma length_slice: "length (arr_slice i n xs) = min n (length xs - i)"
  by (simp add: arr_slice_def min.commute)

lemma nth_slice: "k < n \<Longrightarrow> i + k < length xs \<Longrightarrow> arr_slice i n xs ! k = xs ! (i + k)"
  by (simp add: arr_slice_def)

lemma arr_slice_update_outside: "j < i \<or> i + n \<le> j \<Longrightarrow> arr_slice i n (xs[j := v]) = arr_slice i n xs"
  by (auto simp: arr_slice_def drop_update_swap)

lemma arr_slice_update_inside:
  "i \<le> j \<Longrightarrow> j < i + n \<Longrightarrow> arr_slice i n (xs[j := v]) = (arr_slice i n xs)[j - i := v]"
  by (simp add: arr_slice_def drop_update_swap take_update_swap)

lemma set_slice: "i + n \<le> length xs \<Longrightarrow> set (arr_slice i n xs) = {xs ! k | k. i \<le> k \<and> k < i + n}"
proof -
  assume le: "i + n \<le> length xs"
  have "set (arr_slice i n xs) = {arr_slice i n xs ! k | k. k < n}"
    using le by (auto simp: set_conv_nth length_slice)
  also have "\<dots> = {xs ! (i + k) | k. k < n}"
    using le by (force simp: nth_slice)
  also have "\<dots> = {xs ! k | k. i \<le> k \<and> k < i + n}"
  proof safe
    fix k assume "k < n"
    then show "\<exists>ka. xs ! (i + k) = xs ! ka \<and> i \<le> ka \<and> ka < i + n" by (intro exI[of _ "i + k"]) auto
  next
    fix k assume "i \<le> k" "k < i + n"
    then show "\<exists>ka. xs ! k = xs ! (i + ka) \<and> ka < n" by (intro exI[of _ "k - i"]) auto
  qed
  finally show ?thesis .
qed

text \<open>Exchanging two cells leaves the multiset of a arr_slice that holds both unchanged.\<close>

lemma mset_slice_swap:
  assumes "i \<le> a" "a < i + n" "i \<le> b" "b < i + n" "i + n \<le> length xs"
  shows "mset (arr_slice i n (xs[a := xs ! b, b := xs ! a])) = mset (arr_slice i n xs)"
proof -
  let ?s = "arr_slice i n xs"
  have len: "length ?s = n" using assms by (simp add: length_slice)
  have na: "?s ! (a - i) = xs ! a" and nb: "?s ! (b - i) = xs ! b"
    using assms by (simp_all add: nth_slice)
  have "arr_slice i n (xs[a := xs ! b, b := xs ! a]) = ?s[a - i := ?s ! (b - i), b - i := ?s ! (a - i)]"
    using assms by (simp add: arr_slice_update_inside na nb)
  also have "mset \<dots> = mset ?s"
    by (rule mset_swap) (use assms len in auto)
  finally show ?thesis .
qed

subsection \<open>Searching lists\<close>

lemma find_app: "find P (xs @ ys) = (case find P xs of None \<Rightarrow> find P ys | Some x \<Rightarrow> Some x)"
  by (induction xs) auto

lemma find_upt_extend:
  assumes "a \<le> b" "b \<le> c" "\<And>i. b \<le> i \<Longrightarrow> i < c \<Longrightarrow> \<not> P i"
  shows "find P [a..<c] = find P [a..<b]"
proof -
  have "find P [b..<c] = None" using assms(3) by (auto simp: find_None_iff)
  moreover have "[a..<c] = [a..<b] @ [b..<c]" using upt_add_eq_append[OF assms(1), of "c - b"] assms(2) by simp
  ultimately show ?thesis by (simp add: find_app split: option.splits)
qed

lemma find_cong_list: "(\<And>x. x \<in> set xs \<Longrightarrow> P x = Q x) \<Longrightarrow> find P xs = find Q xs"
  by (rule find_cong) auto

subsection \<open>Counters\<close>

text \<open>\<open>uint\<close> values kept as natural numbers: the decrement of zero wraps.\<close>

definition uint_dec :: "nat \<Rightarrow> nat" where
  "uint_dec n = (n + (2 ^ 32 - 1)) mod 2 ^ 32"

lemma uint_dec_pos: "0 < n \<Longrightarrow> n < 2 ^ 32 \<Longrightarrow> uint_dec n = n - 1"
proof -
  assume "0 < n" "n < 2 ^ 32"
  then have "n + (2 ^ 32 - 1) = (n - 1) + 2 ^ 32" by simp
  then show ?thesis using \<open>n < 2 ^ 32\<close> by (simp only: uint_dec_def mod_add_self2) simp
qed

text \<open>Rounding a size up to a multiple of a power of two.\<close>

definition MY_ALIGN :: "ulonglong \<Rightarrow> ulonglong \<Rightarrow> ulonglong" where
  "MY_ALIGN a l = ((a + l - 1) AND NOT (l - 1))"

subsection \<open>Comparison callbacks\<close>

locale comparator =
  fixes cmp :: "'k \<Rightarrow> 'k \<Rightarrow> int"
  assumes cmp_refl: "cmp x x = 0"
    and cmp_anti: "sgn (cmp y x) = - sgn (cmp x y)"
    and cmp_trans: "cmp x y \<le> 0 \<Longrightarrow> cmp y z \<le> 0 \<Longrightarrow> cmp x z \<le> 0"
begin

lemma cmp_neg_iff: "cmp y x < 0 \<longleftrightarrow> 0 < cmp x y"
  using cmp_anti[of y x] by (auto simp: sgn_if split: if_splits)

lemma cmp_zero_iff: "cmp y x = 0 \<longleftrightarrow> cmp x y = 0"
  using cmp_anti[of y x] by (auto simp: sgn_if split: if_splits)

lemma cmp_le_iff: "cmp y x \<le> 0 \<longleftrightarrow> 0 \<le> cmp x y"
  using cmp_neg_iff[of y x] cmp_neg_iff[of x y] cmp_zero_iff[of y x] by linarith

lemma cmp_ge_trans: "0 \<le> cmp x y \<Longrightarrow> 0 \<le> cmp y z \<Longrightarrow> 0 \<le> cmp x z"
  using cmp_trans[of z y x] by (simp add: cmp_le_iff)

lemma cmp_less_le_trans: "cmp x y < 0 \<Longrightarrow> cmp y z \<le> 0 \<Longrightarrow> cmp x z < 0"
  by (metis cmp_le_iff cmp_neg_iff cmp_trans linorder_not_le)

lemma cmp_le_less_trans: "cmp x y \<le> 0 \<Longrightarrow> cmp y z < 0 \<Longrightarrow> cmp x z < 0"
  by (metis cmp_le_iff cmp_neg_iff cmp_trans linorder_not_le)

lemma cmp_eq_left: "cmp x y = 0 \<Longrightarrow> sgn (cmp x z) = sgn (cmp y z)"
  using cmp_trans[of x y z] cmp_trans[of y x z] cmp_ge_trans[of x y z] cmp_ge_trans[of y x z]
    cmp_zero_iff[of y x]
  by (cases "cmp y z = 0") (auto simp: sgn_if not_less)

end

end
