(* ===== verification/Queue.thy ===== *)
theory Queue
  imports Prelude
begin

unbundle bit_operations_syntax

text \<open>
  Priority queues, \<open>mysys/queues.c\<close> and \<open>include/queues.h\<close>.

  The queue is a binary heap in \<open>root[1..elements]\<close>; \<open>root[0]\<close> is the sentinel of the
  sift-up loop. Elements are pointers to records whose key starts \<open>offset_to_key\<close> bytes
  in, and the order is a callback. Addresses and the \<open>uint\<close> counters are natural numbers;
  \<open>elements--\<close> wraps at zero (\<open>uint_dec\<close>), and \<open>queue_wf\<close> bounds the size by \<open>2 ^ 31\<close>, below
  which \<open>idx + idx\<close> and \<open>++elements\<close> do not wrap.
  \<open>None\<close> is an access outside \<open>root\<close> or a loop that does not end.
  The flag \<open>max_at_top\<close> is \<open>0\<close> or \<open>-1 ^ 1 = -2\<close> and is combined with the comparison result
  by exclusive or, which is modelled on two's-complement integers.
\<close>

record 'c QUEUE =
  root :: "nat list option"
  first_cmp_arg :: 'c
  elements :: nat
  max_elements :: nat
  offset_to_key :: nat
  max_at_top :: int
  compare :: "'c \<Rightarrow> nat \<Rightarrow> nat \<Rightarrow> int"

text \<open>The comparison of two elements as every operation calls it.\<close>

definition queue_cmp :: "'c QUEUE \<Rightarrow> nat \<Rightarrow> nat \<Rightarrow> int" where
  "queue_cmp q a b = compare q (first_cmp_arg q) (a + offset_to_key q) (b + offset_to_key q)"

text \<open>\<open>my_malloc\<close> may fail; its memory holds arbitrary values \<open>junk\<close>.\<close>

definition init_queue ::
  "'c QUEUE \<Rightarrow> nat list option \<Rightarrow> nat \<Rightarrow> nat \<Rightarrow> bool \<Rightarrow> ('c \<Rightarrow> nat \<Rightarrow> nat \<Rightarrow> int) \<Rightarrow> 'c \<Rightarrow> 'c QUEUE \<times> int"
where
  "init_queue q malloc mx offs desc cmpf arg =
     (case malloc of
        None \<Rightarrow> (q\<lparr>root := None\<rparr>, 1)
      | Some r \<Rightarrow>
          (q\<lparr>root := Some r, elements := 0, compare := cmpf, first_cmp_arg := arg,
             max_elements := mx, offset_to_key := offs,
             max_at_top := (if desc then (-1) XOR 1 else 0)\<rparr>, 0))"

text \<open>
  \<open>my_realloc\<close> keeps the common prefix of the old block; \<open>junk\<close> fills what is new. The
  parameter \<open>ok\<close> says whether the call succeeds.
\<close>

definition realloc_to :: "nat \<Rightarrow> nat list \<Rightarrow> nat list \<Rightarrow> nat list" where
  "realloc_to n junk r = take n (r @ take (n - length r) (junk @ replicate n 0))"

definition resize_queue :: "bool \<Rightarrow> nat list \<Rightarrow> 'c QUEUE \<Rightarrow> nat \<Rightarrow> 'c QUEUE \<times> int" where
  "resize_queue ok junk q mx =
     (if max_elements q = mx then (q, 0)
      else if \<not> ok then (q, 1)
      else
        (q\<lparr>elements := min (elements q) mx, max_elements := mx,
           root := map_option (realloc_to (mx + 1) junk) (root q)\<rparr>, 0))"

definition reinit_queue ::
  "bool \<Rightarrow> nat list \<Rightarrow> 'c QUEUE \<Rightarrow> nat \<Rightarrow> nat \<Rightarrow> bool \<Rightarrow> ('c \<Rightarrow> nat \<Rightarrow> nat \<Rightarrow> int) \<Rightarrow> 'c \<Rightarrow> 'c QUEUE \<times> int"
where
  "reinit_queue ok junk q mx offs desc cmpf arg =
     (let q1 = q\<lparr>elements := 0, compare := cmpf, first_cmp_arg := arg, offset_to_key := offs,
                 max_at_top := (if desc then (-1) XOR 1 else 0)\<rparr>
      in (fst (resize_queue ok junk q1 mx), 0))"

definition delete_queue :: "'c QUEUE \<Rightarrow> 'c QUEUE" where
  "delete_queue q = (if root q \<noteq> None then q\<lparr>root := None\<rparr> else q)"

definition queue_remove_all :: "'c QUEUE \<Rightarrow> 'c QUEUE" where
  "queue_remove_all q = q\<lparr>elements := 0\<rparr>"

definition is_queue_inited :: "'c QUEUE \<Rightarrow> bool" where
  "is_queue_inited q \<longleftrightarrow> root q \<noteq> None"

definition queue_top :: "'c QUEUE \<Rightarrow> nat option" where
  "queue_top q = do { r \<leftarrow> root q; aget r 1 }"

definition queue_element :: "'c QUEUE \<Rightarrow> nat \<Rightarrow> nat option" where
  "queue_element q i = do { r \<leftarrow> root q; aget r (i + 1) }"

subsection \<open>Insertion\<close>

text \<open>The sift-up loop: it moves parents down until one is not behind the new element.\<close>

partial_function (option) queue_insert_loop ::
  "'c QUEUE \<Rightarrow> nat \<Rightarrow> nat list \<Rightarrow> nat \<Rightarrow> (nat list \<times> nat) option"
where
  "queue_insert_loop q element r idx = do {
     p \<leftarrow> aget r (idx div 2);
     (if queue_cmp q element p \<noteq> 0 \<and> (queue_cmp q element p XOR max_at_top q) < 0
      then do {
        r' \<leftarrow> aset r idx p;
        queue_insert_loop q element r' (idx div 2) }
      else Some (r, idx)) }"

definition queue_insert :: "'c QUEUE \<Rightarrow> nat \<Rightarrow> 'c QUEUE option" where
  "queue_insert q element = do {
     r0 \<leftarrow> root q;
     r1 \<leftarrow> aset r0 0 element;
     (r2, idx) \<leftarrow> queue_insert_loop q element r1 (Suc (elements q));
     r3 \<leftarrow> aset r2 idx element;
     Some (q\<lparr>elements := Suc (elements q), root := Some r3\<rparr>) }"

subsection \<open>Removal and repair\<close>

text \<open>The child that \<open>_downheap\<close> compares with the moved element.\<close>

definition downheap_child :: "'c QUEUE \<Rightarrow> nat list \<Rightarrow> nat \<Rightarrow> nat \<Rightarrow> nat option" where
  "downheap_child q r n idx =
     (let next_index = idx + idx in
      if next_index < n then do {
        a \<leftarrow> aget r next_index;
        b \<leftarrow> aget r (next_index + 1);
        Some (if (queue_cmp q a b XOR max_at_top q) > 0 then next_index + 1 else next_index) }
      else Some next_index)"

partial_function (option) downheap_loop ::
  "'c QUEUE \<Rightarrow> nat \<Rightarrow> nat \<Rightarrow> nat list \<Rightarrow> nat \<Rightarrow> (nat list \<times> nat) option"
where
  "downheap_loop q n element r idx =
     (if idx \<le> n div 2 then do {
        next_index \<leftarrow> downheap_child q r n idx;
        c \<leftarrow> aget r next_index;
        (if queue_cmp q c element = 0 \<or> (queue_cmp q c element XOR max_at_top q) > 0
         then Some (r, idx)
         else do {
           r' \<leftarrow> aset r idx c;
           downheap_loop q n element r' next_index }) }
      else Some (r, idx))"

definition downheap :: "'c QUEUE \<Rightarrow> nat \<Rightarrow> 'c QUEUE option" where
  "downheap q idx = do {
     r \<leftarrow> root q;
     element \<leftarrow> aget r idx;
     (r', idx') \<leftarrow> downheap_loop q (elements q) element r idx;
     r'' \<leftarrow> aset r' idx' element;
     Some (q\<lparr>root := Some r''\<rparr>) }"

definition queue_replaced :: "'c QUEUE \<Rightarrow> 'c QUEUE option" where
  "queue_replaced q = downheap q 1"

definition queue_remove :: "'c QUEUE \<Rightarrow> nat \<Rightarrow> (nat \<times> 'c QUEUE) option" where
  "queue_remove q idx = do {
     r \<leftarrow> root q;
     element \<leftarrow> aget r (idx + 1);
     lst \<leftarrow> aget r (elements q);
     r' \<leftarrow> aset r (idx + 1) lst;
     q' \<leftarrow> downheap (q\<lparr>root := Some r', elements := uint_dec (elements q)\<rparr>) (idx + 1);
     Some (element, q') }"

subsection \<open>Heap order on arrays\<close>

text \<open>
  The heap invariant of an array for a comparison \<open>c\<close>, and its two relaxations while an
  element travels: \<open>up_inv\<close> allows cell \<open>idx\<close>, where \<open>e\<close> belongs now, to precede its parent,
  \<open>down_inv\<close> allows it to follow its children.
\<close>

definition heap_on :: "('k \<Rightarrow> 'k \<Rightarrow> int) \<Rightarrow> nat \<Rightarrow> 'k list \<Rightarrow> bool" where
  "heap_on c n r \<longleftrightarrow> (\<forall>i \<in> {2..n}. c (r ! (i div 2)) (r ! i) \<le> 0)"

definition up_inv :: "('k \<Rightarrow> 'k \<Rightarrow> int) \<Rightarrow> nat \<Rightarrow> 'k list \<Rightarrow> nat \<Rightarrow> bool" where
  "up_inv c n r idx \<longleftrightarrow>
     (\<forall>i \<in> {2..n}. i \<noteq> idx \<longrightarrow> c (r ! (i div 2)) (r ! i) \<le> 0) \<and>
     (\<forall>i \<in> {2..n}. i div 2 = idx \<longrightarrow> 2 \<le> idx \<longrightarrow> c (r ! (idx div 2)) (r ! i) \<le> 0)"

definition down_inv :: "('k \<Rightarrow> 'k \<Rightarrow> int) \<Rightarrow> nat \<Rightarrow> 'k list \<Rightarrow> nat \<Rightarrow> bool" where
  "down_inv c n r idx \<longleftrightarrow>
     (\<forall>i \<in> {2..n}. i div 2 \<noteq> idx \<longrightarrow> c (r ! (i div 2)) (r ! i) \<le> 0) \<and>
     (\<forall>i \<in> {2..n}. i div 2 = idx \<longrightarrow> 2 \<le> idx \<longrightarrow> c (r ! (idx div 2)) (r ! i) \<le> 0)"

lemma up_inv_done: "up_inv c n r idx \<Longrightarrow> idx < 2 \<or> c (r ! (idx div 2)) (r ! idx) \<le> 0 \<Longrightarrow> heap_on c n r"
  by (auto simp: up_inv_def heap_on_def)

lemma down_inv_done:
  "down_inv c n r idx \<Longrightarrow> (\<And>i. i \<in> {2..n} \<Longrightarrow> i div 2 = idx \<Longrightarrow> c (r ! idx) (r ! i) \<le> 0) \<Longrightarrow> heap_on c n r"
  by (auto simp: down_inv_def heap_on_def)

lemma half_lt: "2 \<le> i \<Longrightarrow> i div 2 < (i::nat)" "2 \<le> i \<Longrightarrow> 1 \<le> i div 2"
  by auto

context comparator
begin

text \<open>One step of either loop exchanges \<open>e\<close> with a parent or a child.\<close>

lemma up_inv_step:
  assumes inv: "up_inv cmp n r idx" and idx: "2 \<le> idx" "idx \<le> n" "n < length r"
    and lt: "cmp (r ! idx) (r ! (idx div 2)) < 0"
  shows "up_inv cmp n (r[idx := r ! (idx div 2), idx div 2 := r ! idx]) (idx div 2)"
proof -
  let ?p = "idx div 2"
  let ?r = "r[idx := r ! ?p, ?p := r ! idx]"
  have p: "?p < idx" "1 \<le> ?p" using idx half_lt by auto
  have nth: "?r ! i = (if i = ?p then r ! idx else if i = idx then r ! ?p else r ! i)" if "i \<le> n" for i
    using that idx p by (auto simp: nth_list_update)
  have par: "cmp (r ! (i div 2)) (r ! i) \<le> 0" if "2 \<le> i" "i \<le> n" "i \<noteq> idx" for i
    using inv that by (auto simp: up_inv_def)
  have grand: "cmp (r ! ?p) (r ! i) \<le> 0" if "2 \<le> i" "i \<le> n" "i div 2 = idx" for i
    using inv that idx by (auto simp: up_inv_def)
  have A: "cmp (?r ! (i div 2)) (?r ! i) \<le> 0" if i: "2 \<le> i" "i \<le> n" "i \<noteq> ?p" for i
  proof -
    have half: "i div 2 < i" "i div 2 \<le> n" using i by auto
    consider "i = idx" | "i \<noteq> idx" "i div 2 = ?p" | "i \<noteq> idx" "i div 2 = idx" | "i \<noteq> idx" "i div 2 \<noteq> ?p" "i div 2 \<noteq> idx"
      by blast
    then show ?thesis
    proof cases
      case 1 then show ?thesis using lt i p idx by (simp add: nth)
    next
      case 2
      have "cmp (r ! ?p) (r ! i) \<le> 0" using par[of i] 2 i by simp
      then show ?thesis using cmp_trans[of "r ! idx" "r ! ?p" "r ! i"] lt 2 i half by (simp add: nth)
    next
      case 3 then show ?thesis using grand[of i] i half p idx by (simp add: nth)
    next
      case 4 then show ?thesis using par[of i] i half by (simp add: nth)
    qed
  qed
  have B: "cmp (?r ! (?p div 2)) (?r ! i) \<le> 0" if i: "2 \<le> i" "i \<le> n" "i div 2 = ?p" "2 \<le> ?p" for i
  proof -
    have pp: "?p div 2 < ?p" using i by simp
    have top: "cmp (r ! (?p div 2)) (r ! ?p) \<le> 0" using par[of ?p] i p idx by auto
    have "i \<noteq> ?p" using i by auto
    show ?thesis
    proof (cases "i = idx")
      case True then show ?thesis using top i pp p idx by (simp add: nth)
    next
      case False
      then have "cmp (r ! ?p) (r ! i) \<le> 0" using par[of i] i by simp
      then show ?thesis using cmp_trans[OF top] False \<open>i \<noteq> ?p\<close> i pp p idx by (simp add: nth)
    qed
  qed
  show ?thesis unfolding up_inv_def using A B by auto
qed

lemma down_inv_step:
  assumes inv: "down_inv cmp n r idx" and idx: "1 \<le> idx" "n < length r"
    and j: "j div 2 = idx" "2 \<le> j" "j \<le> n"
    and best: "\<And>k. k \<in> {2..n} \<Longrightarrow> k div 2 = idx \<Longrightarrow> cmp (r ! j) (r ! k) \<le> 0"
    and lt: "cmp (r ! j) (r ! idx) < 0"
  shows "down_inv cmp n (r[idx := r ! j, j := r ! idx]) j"
proof -
  let ?r = "r[idx := r ! j, j := r ! idx]"
  have ij: "idx < j" using j by auto
  have nth: "?r ! i = (if i = j then r ! idx else if i = idx then r ! j else r ! i)" if "i \<le> n" for i
    using that idx j ij by (auto simp: nth_list_update)
  have par: "cmp (r ! (i div 2)) (r ! i) \<le> 0" if "2 \<le> i" "i \<le> n" "i div 2 \<noteq> idx" for i
    using inv that by (auto simp: down_inv_def)
  have grand: "cmp (r ! (idx div 2)) (r ! i) \<le> 0" if "2 \<le> i" "i \<le> n" "i div 2 = idx" "2 \<le> idx" for i
    using inv that by (auto simp: down_inv_def)
  have A: "cmp (?r ! (i div 2)) (?r ! i) \<le> 0" if i: "2 \<le> i" "i \<le> n" "i div 2 \<noteq> j" for i
  proof -
    have half: "i div 2 < i" "i div 2 \<le> n" using i by auto
    consider "i = j" | "i \<noteq> j" "i div 2 = idx" | "i \<noteq> j" "i = idx" | "i \<noteq> j" "i \<noteq> idx" "i div 2 \<noteq> idx"
      by blast
    then show ?thesis
    proof cases
      case 1 then show ?thesis using lt i j ij half idx by (simp add: nth)
    next
      case 2 then show ?thesis using best[of i] i half ij idx j by (simp add: nth)
    next
      case 3 then show ?thesis using grand[of j] j i half idx by (simp add: nth)
    next
      case 4 then show ?thesis using par[of i] i half by (simp add: nth)
    qed
  qed
  have B: "cmp (?r ! (j div 2)) (?r ! i) \<le> 0" if i: "2 \<le> i" "i \<le> n" "i div 2 = j" for i
  proof -
    have "i div 2 \<noteq> idx" "i \<noteq> j" "i \<noteq> idx" using i ij by auto
    then show ?thesis using par[of i] i j ij idx by (simp add: nth)
  qed
  show ?thesis unfolding down_inv_def using A B by auto
qed

text \<open>In a heap every cell is reached from the root by a chain of parents.\<close>

lemma heap_on_root:
  assumes "heap_on cmp n r" "1 \<le> i" "i \<le> n"
  shows "cmp (r ! 1) (r ! i) \<le> 0"
  using assms(2,3)
proof (induction i rule: less_induct)
  case (less i)
  show ?case
  proof (cases "i = 1")
    case True then show ?thesis by (simp add: cmp_refl)
  next
    case False
    with less.prems have i: "2 \<le> i" by simp
    have "cmp (r ! 1) (r ! (i div 2)) \<le> 0" using less i half_lt by simp
    moreover have "cmp (r ! (i div 2)) (r ! i) \<le> 0"
      using assms(1) i less.prems by (simp add: heap_on_def)
    ultimately show ?thesis by (rule cmp_trans)
  qed
qed

end

subsection \<open>Correctness of the operations\<close>

text \<open>What a queue must satisfy: memory of the recorded size, and the heap order.\<close>

definition queue_array :: "'c QUEUE \<Rightarrow> nat list" where
  "queue_array q = (case root q of None \<Rightarrow> [] | Some r \<Rightarrow> r)"

definition queue_wf :: "'c QUEUE \<Rightarrow> bool" where
  "queue_wf q \<longleftrightarrow> root q \<noteq> None \<and> length (queue_array q) = max_elements q + 1 \<and>
     elements q \<le> max_elements q \<and> max_elements q < 2 ^ 31"

text \<open>The order in which the queue hands out its elements.\<close>

definition queue_ord :: "'c QUEUE \<Rightarrow> nat \<Rightarrow> nat \<Rightarrow> int" where
  "queue_ord q a b = (if max_at_top q = 0 then queue_cmp q a b else queue_cmp q b a)"

text \<open>
  What the callback must satisfy. With the largest element on top the comparison may not
  return \<open>-2\<close>, because \<open>-2 XOR max_at_top\<close> is \<open>0\<close> and not positive.
\<close>

definition queue_order_ok :: "'c QUEUE \<Rightarrow> bool" where
  "queue_order_ok q \<longleftrightarrow> comparator (queue_cmp q) \<and>
     (max_at_top q = 0 \<or> max_at_top q = - 2 \<and> (\<forall>a b. queue_cmp q a b \<noteq> - 2))"

definition queue_heap :: "'c QUEUE \<Rightarrow> bool" where
  "queue_heap q \<longleftrightarrow> heap_on (queue_ord q) (elements q) (queue_array q)"

definition queue_items :: "'c QUEUE \<Rightarrow> nat multiset" where
  "queue_items q = mset (arr_slice 1 (elements q) (queue_array q))"

definition queue_inv :: "'c QUEUE \<Rightarrow> bool" where
  "queue_inv q \<longleftrightarrow> queue_wf q \<and> queue_order_ok q \<and> queue_heap q"

lemma xor_desc [cmp_simps]:
  assumes "m = - 2"
  shows "((x::int) XOR m < 0) \<longleftrightarrow> 0 \<le> x" and "(0 < x XOR m) \<longleftrightarrow> x < 0 \<and> x \<noteq> - 2"
proof -
  show neg: "(x XOR m < 0) \<longleftrightarrow> 0 \<le> x" using assms by (auto simp only: xor_negative_int_iff)
  have "x XOR m = 0 \<longleftrightarrow> x = m"
  proof
    assume "x XOR m = 0"
    then have "(x XOR m) XOR m = 0 XOR m" by simp
    then show "x = m" by (simp only: xor.assoc xor_self_eq xor.right_neutral xor.left_neutral)
  qed simp
  with neg assms show "(0 < x XOR m) \<longleftrightarrow> x < 0 \<and> x \<noteq> - 2" by linarith
qed

lemma queue_order_comparator: "queue_order_ok q \<Longrightarrow> comparator (queue_ord q)"
proof -
  assume "queue_order_ok q"
  then have c: "comparator (queue_cmp q)" by (simp add: queue_order_ok_def)
  show ?thesis
  proof (cases "max_at_top q = 0")
    case True
    then have "queue_ord q = queue_cmp q" by (simp add: queue_ord_def fun_eq_iff)
    then show ?thesis using c by simp
  next
    case False
    then have "queue_ord q = (\<lambda>a b. queue_cmp q b a)" by (simp add: queue_ord_def fun_eq_iff)
    then show ?thesis
      by (auto intro!: comparator.intro comparator.cmp_refl[OF c] comparator.cmp_anti[OF c]
          intro: comparator.cmp_trans[OF c])
  qed
qed

text \<open>The three tests of the code, read in terms of \<open>queue_ord\<close>.\<close>

lemma queue_tests [cmp_simps]:
  assumes ok: "queue_order_ok q"
  shows queue_before: "queue_cmp q a b \<noteq> 0 \<and> (queue_cmp q a b XOR max_at_top q) < 0 \<longleftrightarrow> queue_ord q a b < 0"
    and queue_after: "(queue_cmp q a b XOR max_at_top q) > 0 \<longleftrightarrow> queue_ord q a b > 0"
    and queue_same: "queue_cmp q a b = 0 \<longleftrightarrow> queue_ord q a b = 0"
proof -
  have c: "comparator (queue_cmp q)" using ok by (simp add: queue_order_ok_def)
  note flip = comparator.cmp_neg_iff[OF c, of b a] comparator.cmp_neg_iff[OF c, of a b]
    comparator.cmp_zero_iff[OF c, of b a]
  have "(queue_cmp q a b \<noteq> 0 \<and> (queue_cmp q a b XOR max_at_top q) < 0 \<longleftrightarrow> queue_ord q a b < 0) \<and>
     ((queue_cmp q a b XOR max_at_top q) > 0 \<longleftrightarrow> queue_ord q a b > 0) \<and>
     (queue_cmp q a b = 0 \<longleftrightarrow> queue_ord q a b = 0)"
  proof (cases "max_at_top q = 0")
    case True then show ?thesis by (auto simp: queue_ord_def)
  next
    case False
    then have m: "max_at_top q = - 2" "queue_cmp q a b \<noteq> - 2" using ok by (auto simp: queue_order_ok_def)
    then have ord: "queue_ord q a b = queue_cmp q b a" by (simp add: queue_ord_def)
    show ?thesis unfolding xor_desc[OF m(1)] ord using m(2) flip by linarith
  qed
  then show "queue_cmp q a b \<noteq> 0 \<and> (queue_cmp q a b XOR max_at_top q) < 0 \<longleftrightarrow> queue_ord q a b < 0"
    and "(queue_cmp q a b XOR max_at_top q) > 0 \<longleftrightarrow> queue_ord q a b > 0"
    and "queue_cmp q a b = 0 \<longleftrightarrow> queue_ord q a b = 0" by blast+
qed

text \<open>The sift-up loop ends, stays inside the array and leaves a hole where \<open>e\<close> fits.\<close>

lemma queue_insert_loop_correct:
  assumes ok: "queue_order_ok q" and "up_inv (queue_ord q) n (r[idx := e]) idx"
    and "1 \<le> idx" "idx \<le> n" "n < length r" "r ! 0 = e"
  shows "\<exists>r' idx'. queue_insert_loop q e r idx = Some (r', idx') \<and> length r' = length r \<and> 1 \<le> idx' \<and> idx' \<le> n \<and>
           heap_on (queue_ord q) n (r'[idx' := e]) \<and> mset (arr_slice 1 n (r'[idx' := e])) = mset (arr_slice 1 n (r[idx := e]))"
  using assms(2-)
proof (induction idx arbitrary: r rule: less_induct)
  case (less idx)
  note c = queue_order_comparator[OF ok]
  let ?p = "idx div 2" and ?s = "r[idx := e]"
  have len: "idx < length r" "?p < length r" "?p < idx" using less.prems by auto
  have test: "queue_cmp q e (r ! ?p) \<noteq> 0 \<and> (queue_cmp q e (r ! ?p) XOR max_at_top q) < 0 \<longleftrightarrow> queue_ord q e (r ! ?p) < 0"
    by (rule queue_before[OF ok])
  show ?case
  proof (cases "queue_ord q e (r ! ?p) < 0")
    case False
    have "heap_on (queue_ord q) n ?s"
      using False less.prems len comparator.cmp_le_iff[OF c, of "r ! ?p" e] by (intro up_inv_done[OF less.prems(1)]) auto
    then show ?thesis
      using False test len less.prems by (subst queue_insert_loop.simps) auto
  next
    case True
    have idx2: "2 \<le> idx"
    proof (rule ccontr)
      assume "\<not> 2 \<le> idx" then have "?p = 0" by simp
      then show False using True less.prems comparator.cmp_refl[OF c, of e] by simp
    qed
    let ?r = "r[idx := r ! ?p]"
    have swap: "?r[?p := e] = ?s[idx := ?s ! ?p, ?p := ?s ! idx]" using len by simp
    have inv': "up_inv (queue_ord q) n (?r[?p := e]) ?p"
      unfolding swap using True less.prems idx2 len
      by (intro comparator.up_inv_step[OF c less.prems(1)]) auto
    have ms: "mset (arr_slice 1 n (?r[?p := e])) = mset (arr_slice 1 n ?s)"
      unfolding swap using less.prems idx2 len by (intro mset_slice_swap) auto
    have zero: "?r ! 0 = e" using less.prems idx2 by simp
    show ?thesis
      using less.IH[of ?p ?r] inv' ms zero True test len less.prems idx2
      by (subst queue_insert_loop.simps) auto
  qed
qed

lemma down_child_correct:
  assumes ok: "queue_order_ok q" and "1 \<le> idx" "idx \<le> n div 2" "n < length r"
  shows "\<exists>j. downheap_child q r n idx = Some j \<and> j div 2 = idx \<and> 2 \<le> j \<and> j \<le> n \<and>
           (\<forall>k \<in> {2..n}. k div 2 = idx \<longrightarrow> queue_ord q (r ! j) (r ! k) \<le> 0)"
proof -
  note c = queue_order_comparator[OF ok]
  let ?a = "r ! (idx + idx)" and ?b = "r ! (idx + idx + 1)"
  have kids: "\<forall>k \<in> {2..n}. k div 2 = idx \<longrightarrow> Q k"
    if "Q (idx + idx)" "idx + idx + 1 \<le> n \<Longrightarrow> Q (idx + idx + 1)" for Q
  proof (intro ballI impI)
    fix k :: nat assume k: "k \<in> {2..n}" "k div 2 = idx"
    then have "k = idx + idx \<or> k = idx + idx + 1" by arith
    then show "Q k" using that k by auto
  qed
  have refl: "queue_ord q x x = 0" for x by (rule comparator.cmp_refl[OF c])
  show ?thesis
  proof (cases "idx + idx < n")
    case True
    show ?thesis
    proof (cases "queue_ord q ?a ?b > 0")
      case gt: True
      then have "queue_ord q ?b ?a \<le> 0" using comparator.cmp_neg_iff[OF c, of ?b ?a] by simp
      moreover have "downheap_child q r n idx = Some (idx + idx + 1)"
        using True gt assms by (simp add: downheap_child_def queue_after[OF ok] Let_def)
      ultimately show ?thesis
        using True assms by (intro exI[of _ "idx + idx + 1"] conjI kids) (auto simp: refl)
    next
      case le: False
      moreover have "downheap_child q r n idx = Some (idx + idx)"
        using True le assms by (simp add: downheap_child_def queue_after[OF ok] Let_def)
      ultimately show ?thesis
        using True assms by (intro exI[of _ "idx + idx"] conjI kids) (auto simp: refl)
    qed
  next
    case False
    then show ?thesis
      using assms by (intro exI[of _ "idx + idx"] conjI kids) (auto simp: downheap_child_def refl)
  qed
qed

lemma downheap_loop_correct:
  assumes ok: "queue_order_ok q" and "down_inv (queue_ord q) n (r[idx := e]) idx"
    and "1 \<le> idx" "idx \<le> n \<or> idx = 1" "n < length r" "idx < length r"
  shows "\<exists>r' idx'. downheap_loop q n e r idx = Some (r', idx') \<and> length r' = length r \<and> 1 \<le> idx' \<and> idx' < length r \<and>
           heap_on (queue_ord q) n (r'[idx' := e]) \<and> mset (arr_slice 1 n (r'[idx' := e])) = mset (arr_slice 1 n (r[idx := e]))"
  using assms(2-)
proof (induction "n - idx" arbitrary: idx r rule: less_induct)
  case less
  note c = queue_order_comparator[OF ok]
  let ?s = "r[idx := e]"
  show ?case
  proof (cases "idx \<le> n div 2")
    case False
    then have "heap_on (queue_ord q) n ?s" using less.prems by (intro down_inv_done[OF less.prems(1)]) auto
    then show ?thesis using False less.prems by (subst downheap_loop.simps) auto
  next
    case True
    obtain j where j: "downheap_child q r n idx = Some j" "j div 2 = idx" "2 \<le> j" "j \<le> n"
      and best: "\<And>k. k \<in> {2..n} \<Longrightarrow> k div 2 = idx \<Longrightarrow> queue_ord q (r ! j) (r ! k) \<le> 0"
      using down_child_correct[OF ok less.prems(2) True less.prems(4)] by blast
    have ij: "idx < j" "j < length r" using j less.prems by auto
    have test: "queue_cmp q (r ! j) e = 0 \<or> (queue_cmp q (r ! j) e XOR max_at_top q) > 0 \<longleftrightarrow> \<not> queue_ord q (r ! j) e < 0"
      using queue_same[OF ok, of "r ! j" e] queue_after[OF ok, of "r ! j" e] by linarith
    show ?thesis
    proof (cases "queue_ord q (r ! j) e < 0")
      case False
      have "queue_ord q e (r ! k) \<le> 0" if "k \<in> {2..n}" "k div 2 = idx" for k
        using False best[OF that] comparator.cmp_le_iff[OF c, of e "r ! j"] comparator.cmp_trans[OF c, of e "r ! j" "r ! k"]
        by simp
      then have "heap_on (queue_ord q) n ?s"
        using less.prems ij by (intro down_inv_done[OF less.prems(1)]) auto
      then show ?thesis using False True test j ij less.prems by (subst downheap_loop.simps) auto
    next
      case lt: True
      let ?r = "r[idx := r ! j]"
      have swap: "?r[j := e] = ?s[idx := ?s ! j, j := ?s ! idx]" using ij less.prems by simp
      have inv': "down_inv (queue_ord q) n (?r[j := e]) j"
        unfolding swap using lt less.prems j ij best
        by (intro comparator.down_inv_step[OF c less.prems(1)]) auto
      have ms: "mset (arr_slice 1 n (?r[j := e])) = mset (arr_slice 1 n ?s)"
        unfolding swap using less.prems j ij True by (intro mset_slice_swap) auto
      show ?thesis
        using less.hyps[of j ?r] inv' ms lt True test j ij less.prems
        by (subst downheap_loop.simps) auto
    qed
  qed
qed

subsection \<open>The contract of a priority queue\<close>

text \<open>
  What the clients (the merge phases of \<open>sql/filesort.cc\<close>, \<open>myisam/sort.c\<close>, \<open>sql/uniques.cc\<close>)
  rely on: an insertion that finds room adds the element, a removal hands out a first
  element of the order, and both keep the invariant. Filling a queue and draining it is
  then a sort.
\<close>

fun fill :: "('q \<Rightarrow> 'e \<Rightarrow> 'q option) \<Rightarrow> 'e list \<Rightarrow> 'q \<Rightarrow> 'q option" where
  "fill ins [] q = Some q"
| "fill ins (e # es) q = do { q' \<leftarrow> ins q e; fill ins es q' }"

fun drain :: "('q \<Rightarrow> ('e \<times> 'q) option) \<Rightarrow> nat \<Rightarrow> 'q \<Rightarrow> 'e list option" where
  "drain rem 0 q = Some []"
| "drain rem (Suc n) q = do { (e, q') \<leftarrow> rem q; es \<leftarrow> drain rem n q'; Some (e # es) }"

locale priority_queue =
  fixes ins :: "'q \<Rightarrow> 'e \<Rightarrow> 'q option"
    and rem :: "'q \<Rightarrow> ('e \<times> 'q) option"
    and items :: "'q \<Rightarrow> 'e multiset"
    and inv :: "'q \<Rightarrow> bool"
    and room :: "'q \<Rightarrow> nat"
    and ord :: "'q \<Rightarrow> 'e \<Rightarrow> 'e \<Rightarrow> int"
  assumes ins_ok: "inv q \<Longrightarrow> 0 < room q \<Longrightarrow>
      \<exists>q'. ins q e = Some q' \<and> inv q' \<and> items q' = add_mset e (items q) \<and> room q' = room q - 1 \<and> ord q' = ord q"
    and rem_ok: "inv q \<Longrightarrow> items q \<noteq> {#} \<Longrightarrow>
      \<exists>e q'. rem q = Some (e, q') \<and> inv q' \<and> e \<in># items q \<and> items q' = items q - {#e#} \<and> ord q' = ord q \<and>
        (\<forall>x \<in># items q. ord q e x \<le> 0)"
begin

lemma fill_ok:
  "inv q \<Longrightarrow> length es \<le> room q \<Longrightarrow>
     \<exists>q'. fill ins es q = Some q' \<and> inv q' \<and> items q' = items q + mset es \<and> ord q' = ord q"
proof (induction es arbitrary: q)
  case (Cons e es)
  then obtain q1 where q1: "ins q e = Some q1" "inv q1" "items q1 = add_mset e (items q)" "room q1 = room q - 1" "ord q1 = ord q"
    using ins_ok[of q e] by auto
  with Cons obtain q2 where "fill ins es q1 = Some q2" "inv q2" "items q2 = items q1 + mset es" "ord q2 = ord q1"
    by fastforce
  with q1 show ?case by auto
qed simp

lemma drain_ok:
  "inv q \<Longrightarrow> size (items q) = n \<Longrightarrow>
     \<exists>es. drain rem n q = Some es \<and> mset es = items q \<and> sorted_wrt (\<lambda>a b. ord q a b \<le> 0) es"
proof (induction n arbitrary: q)
  case (Suc n)
  then have "items q \<noteq> {#}" by auto
  with Suc.prems obtain e q' where e: "rem q = Some (e, q')" "inv q'" "e \<in># items q" "items q' = items q - {#e#}"
    "ord q' = ord q" "\<forall>x \<in># items q. ord q e x \<le> 0" using rem_ok by blast
  with Suc.prems have "size (items q') = n" by (simp add: size_Diff_singleton)
  with Suc.IH e obtain es where es: "drain rem n q' = Some es" "mset es = items q'" "sorted_wrt (\<lambda>a b. ord q' a b \<le> 0) es"
    by blast
  from es(2) e have "\<forall>x \<in> set es. x \<in># items q"
    by (metis in_diffD set_mset_mset)
  with es e show ?case by auto
qed simp

end

text \<open>The operations of \<open>queues.c\<close> meet the contract.\<close>

lemma queue_array_Some: "queue_wf q \<Longrightarrow> root q = Some (queue_array q)"
  by (auto simp: queue_wf_def queue_array_def)

lemma queue_cmp_frame [simp]:
  "queue_cmp (q\<lparr>root := r\<rparr>) = queue_cmp q" "queue_cmp (q\<lparr>elements := k\<rparr>) = queue_cmp q"
  "queue_cmp (q\<lparr>max_elements := k\<rparr>) = queue_cmp q"
  by (simp_all add: queue_cmp_def fun_eq_iff)

lemma queue_ord_frame [simp]:
  "queue_ord (q\<lparr>root := r\<rparr>) = queue_ord q" "queue_ord (q\<lparr>elements := k\<rparr>) = queue_ord q"
  "queue_ord (q\<lparr>max_elements := k\<rparr>) = queue_ord q"
  by (simp_all add: queue_ord_def fun_eq_iff)

lemma queue_order_ok_frame [simp]:
  "queue_order_ok (q\<lparr>root := r\<rparr>) = queue_order_ok q" "queue_order_ok (q\<lparr>elements := k\<rparr>) = queue_order_ok q"
  "queue_order_ok (q\<lparr>max_elements := k\<rparr>) = queue_order_ok q"
  by (simp_all add: queue_order_ok_def)

lemma arr_slice_snoc: "i + n < length xs \<Longrightarrow> arr_slice i (Suc n) xs = arr_slice i n xs @ [xs ! (i + n)]"
  by (simp add: arr_slice_def take_Suc_conv_app_nth)

lemma queue_insert_ok:
  assumes inv: "queue_inv q" and room: "elements q < max_elements q"
  shows "\<exists>q'. queue_insert q e = Some q' \<and> queue_inv q' \<and> queue_items q' = add_mset e (queue_items q) \<and>
           elements q' = Suc (elements q) \<and> max_elements q' = max_elements q \<and> queue_ord q' = queue_ord q"
proof -
  let ?r = "(queue_array q)[0 := e]" and ?n = "Suc (elements q)"
  have wf: "queue_wf q" and ok: "queue_order_ok q" and heap: "heap_on (queue_ord q) (elements q) (queue_array q)"
    using inv by (auto simp: queue_inv_def queue_heap_def)
  have len: "?n < length ?r" using wf room by (simp add: queue_wf_def)
  have up: "up_inv (queue_ord q) ?n (?r[?n := e]) ?n"
    using heap len by (auto simp: up_inv_def heap_on_def nth_list_update)
  have len0: "0 < length (queue_array q)" using wf by (simp add: queue_wf_def)
  then have zero: "?r ! 0 = e" by simp
  have items0: "mset (arr_slice 1 ?n (?r[?n := e])) = add_mset e (queue_items q)"
    using len by (simp add: arr_slice_snoc arr_slice_update_outside queue_items_def)
  obtain r' i where loop: "queue_insert_loop q e ?r ?n = Some (r', i)" and r': "length r' = length ?r" "1 \<le> i" "i \<le> ?n"
    "heap_on (queue_ord q) ?n (r'[i := e])" "mset (arr_slice 1 ?n (r'[i := e])) = mset (arr_slice 1 ?n (?r[?n := e]))"
    using queue_insert_loop_correct[OF ok up] len zero by auto
  let ?q = "q\<lparr>elements := ?n, root := Some (r'[i := e])\<rparr>"
  have "queue_insert q e = Some ?q"
    using loop r' len wf len0 by (simp add: queue_insert_def queue_array_Some)
  moreover have "queue_inv ?q"
    using wf ok r' len room by (simp add: queue_inv_def queue_wf_def queue_heap_def queue_array_def)
  moreover have "queue_items ?q = add_mset e (queue_items q)"
    using r' items0 by (simp add: queue_items_def queue_array_def)
  ultimately show ?thesis by auto
qed

text \<open>
  \<open>_downheap\<close> repairs cell \<open>idx\<close> when the element there may have to move towards the leaves.
\<close>

lemma downheap_ok:
  assumes wf: "queue_wf q" and ok: "queue_order_ok q" and idx: "1 \<le> idx" "idx \<le> elements q \<or> idx = 1" "idx \<le> max_elements q"
    and down: "down_inv (queue_ord q) (elements q) (queue_array q) idx"
  shows "\<exists>r. downheap q idx = Some (q\<lparr>root := Some r\<rparr>) \<and> length r = length (queue_array q) \<and>
           heap_on (queue_ord q) (elements q) r \<and> mset (arr_slice 1 (elements q) r) = queue_items q"
proof -
  let ?r = "queue_array q" and ?n = "elements q"
  let ?e = "?r ! idx"
  have len: "?n < length ?r" "idx < length ?r" using wf idx by (auto simp: queue_wf_def)
  obtain r' i where "downheap_loop q ?n ?e ?r idx = Some (r', i)" and r': "length r' = length ?r" "1 \<le> i" "i < length ?r"
    "heap_on (queue_ord q) ?n (r'[i := ?e])" "mset (arr_slice 1 ?n (r'[i := ?e])) = mset (arr_slice 1 ?n (?r[idx := ?e]))"
    using downheap_loop_correct[OF ok, of ?n ?r idx ?e] down idx len by auto
  then have "downheap q idx = Some (q\<lparr>root := Some (r'[i := ?e])\<rparr>)"
    using wf len by (simp add: downheap_def queue_array_Some)
  with r' show ?thesis by (auto simp: queue_items_def)
qed

lemma queue_remove_ok:
  assumes inv: "queue_inv q" and idx: "idx < elements q"
    and fits: "idx = 0 \<or> queue_ord q (queue_array q ! ((idx + 1) div 2)) (queue_array q ! elements q) \<le> 0"
  shows "\<exists>q'. queue_remove q idx = Some (queue_array q ! (idx + 1), q') \<and> queue_inv q' \<and>
           queue_items q' = queue_items q - {#queue_array q ! (idx + 1)#} \<and>
           elements q' = elements q - 1 \<and> max_elements q' = max_elements q \<and> queue_ord q' = queue_ord q"
proof -
  let ?r = "queue_array q" and ?n = "elements q" and ?i = "idx + 1"
  let ?r1 = "?r[?i := ?r ! ?n]"
  let ?q1 = "q\<lparr>root := Some ?r1, elements := ?n - 1\<rparr>"
  have wf: "queue_wf q" and ok: "queue_order_ok q" and heap: "heap_on (queue_ord q) ?n ?r"
    using inv by (auto simp: queue_inv_def queue_heap_def)
  note c = queue_order_comparator[OF ok]
  have n: "1 \<le> ?n" "?n \<le> max_elements q" "?n < 2 ^ 32" "?i \<le> ?n" "length ?r = max_elements q + 1"
    using wf idx by (auto simp: queue_wf_def)
  have dec: "uint_dec ?n = ?n - 1" using n by (intro uint_dec_pos) auto
  have arr1: "queue_array ?q1 = ?r1" by (simp add: queue_array_def)
  have down: "down_inv (queue_ord ?q1) (?n - 1) ?r1 ?i"
  proof -
    have h: "queue_ord q (?r ! (i div 2)) (?r ! i) \<le> 0" if "2 \<le> i" "i \<le> ?n" for i
      using heap that by (simp add: heap_on_def)
    have A: "queue_ord q (?r1 ! (i div 2)) (?r1 ! i) \<le> 0" if i: "2 \<le> i" "i \<le> ?n - 1" "i div 2 \<noteq> ?i" for i
      using h[of i] fits i n by (cases "i = ?i") (auto simp: nth_list_update)
    have B: "queue_ord q (?r1 ! (?i div 2)) (?r1 ! i) \<le> 0" if i: "2 \<le> i" "i \<le> ?n - 1" "i div 2 = ?i" "2 \<le> ?i" for i
    proof -
      have "?i \<noteq> i" "?i div 2 \<noteq> ?i" using i by auto
      then show ?thesis
        using comparator.cmp_trans[OF c h[of ?i], of "?r ! i"] h[of i] i n by (simp add: nth_list_update)
    qed
    from A B show ?thesis by (auto simp: down_inv_def)
  qed
  have items: "mset (arr_slice 1 (?n - 1) ?r1) = queue_items q - {#?r ! ?i#}"
  proof -
    let ?r2 = "?r[?i := ?r ! ?n, ?n := ?r ! ?i]"
    have "queue_items q = mset (arr_slice 1 (Suc (?n - 1)) ?r2)"
      using n by (simp add: queue_items_def mset_slice_swap)
    also have "\<dots> = mset (arr_slice 1 (?n - 1) ?r2) + {#?r2 ! (1 + (?n - 1))#}"
      using n by (subst arr_slice_snoc) auto
    also have "\<dots> = mset (arr_slice 1 (?n - 1) ?r1) + {#?r ! ?i#}"
      using n by (simp add: arr_slice_update_outside)
    finally show ?thesis by simp
  qed
  have wf1: "queue_wf ?q1" and ok1: "queue_order_ok ?q1"
    using wf ok n arr1 by (auto simp: queue_wf_def)
  obtain r' where r': "downheap ?q1 ?i = Some (?q1\<lparr>root := Some r'\<rparr>)" "length r' = length ?r1"
    "heap_on (queue_ord ?q1) (?n - 1) r'" "mset (arr_slice 1 (?n - 1) r') = queue_items ?q1"
  proof (cases "?i \<le> ?n - 1 \<or> idx = 0")
    case True
    have "?i \<le> elements ?q1 \<or> ?i = 1" using True by auto
    then show ?thesis using downheap_ok[OF wf1 ok1, of ?i] down n arr1 that by auto
  next
    case False
    then have last: "?i = ?n" "\<not> ?i \<le> (?n - 1) div 2" using n by auto
    then have "downheap ?q1 ?i = Some (?q1\<lparr>root := Some ?r1\<rparr>)"
      using n wf1 arr1 by (simp add: downheap_def queue_array_Some downheap_loop.simps)
    moreover have "heap_on (queue_ord ?q1) (?n - 1) ?r1"
      using heap last n by (auto simp: heap_on_def nth_list_update)
    ultimately show ?thesis by (intro that[of ?r1]) (simp_all add: queue_items_def queue_array_def)
  qed
  let ?q2 = "?q1\<lparr>root := Some r'\<rparr>"
  have "queue_remove q idx = Some (?r ! ?i, ?q2)"
    using r'(1) n wf dec by (simp add: queue_remove_def queue_array_Some)
  moreover have "queue_inv ?q2"
    using r' wf1 ok1 arr1 n by (simp add: queue_inv_def queue_wf_def queue_heap_def queue_array_def)
  moreover have "queue_items ?q2 = queue_items q - {#?r ! ?i#}"
    using r' items by (simp add: queue_items_def queue_array_def)
  ultimately show ?thesis by auto
qed

lemma queue_items_size: "queue_wf q \<Longrightarrow> size (queue_items q) = elements q"
  by (simp add: queue_items_def length_slice queue_wf_def)

lemma queue_items_mem: "queue_wf q \<Longrightarrow> x \<in># queue_items q \<longleftrightarrow> (\<exists>i \<in> {1..elements q}. x = queue_array q ! i)"
  by (force simp: queue_items_def set_slice queue_wf_def)

lemma queue_top_first:
  assumes "queue_inv q" "x \<in># queue_items q"
  shows "queue_ord q (queue_array q ! 1) x \<le> 0"
proof -
  from assms obtain i where "1 \<le> i" "i \<le> elements q" "x = queue_array q ! i"
    by (auto simp: queue_inv_def queue_items_mem)
  then show ?thesis
    using assms comparator.heap_on_root[OF queue_order_comparator, of q "elements q" "queue_array q" i]
    by (simp add: queue_inv_def queue_heap_def)
qed

interpretation pq: priority_queue queue_insert "\<lambda>q. queue_remove q 0" queue_items queue_inv
  "\<lambda>q. max_elements q - elements q" queue_ord
proof unfold_locales
  fix q :: "'c QUEUE" and e
  assume inv: "queue_inv q" and room: "0 < max_elements q - elements q"
  then obtain q' where "queue_insert q e = Some q'" "queue_inv q'" "queue_items q' = add_mset e (queue_items q)"
    "elements q' = Suc (elements q)" "max_elements q' = max_elements q" "queue_ord q' = queue_ord q"
    using queue_insert_ok[of q e] by auto
  then show "\<exists>q'. queue_insert q e = Some q' \<and> queue_inv q' \<and> queue_items q' = add_mset e (queue_items q) \<and>
      max_elements q' - elements q' = max_elements q - elements q - 1 \<and> queue_ord q' = queue_ord q"
    by (intro exI[of _ q']) auto
next
  fix q :: "'c QUEUE"
  assume inv: "queue_inv q" and ne: "queue_items q \<noteq> {#}"
  then have wf: "queue_wf q" and n: "0 < elements q"
    using queue_items_size[of q] by (auto simp: queue_inv_def simp flip: size_eq_0_iff_empty)
  let ?e = "queue_array q ! 1"
  obtain q' where "queue_remove q 0 = Some (?e, q')" "queue_inv q'" "queue_items q' = queue_items q - {#?e#}"
    "queue_ord q' = queue_ord q"
    using queue_remove_ok[OF inv n] by auto
  moreover have "?e \<in># queue_items q" using wf n by (force simp: queue_items_mem)
  ultimately show "\<exists>e q'. queue_remove q 0 = Some (e, q') \<and> queue_inv q' \<and> e \<in># queue_items q \<and>
      queue_items q' = queue_items q - {#e#} \<and> queue_ord q' = queue_ord q \<and>
      (\<forall>x \<in># queue_items q. queue_ord q e x \<le> 0)"
    using queue_top_first[OF inv] by blast
qed

subsection \<open>Properties\<close>

text \<open>A three-element queue of numbers for the witnesses: \<open>1\<close> above \<open>4\<close> and \<open>3\<close>, room for two more.\<close>

definition sample_queue :: "unit QUEUE" where
  "sample_queue = \<lparr>root = Some [0, 1, 4, 3, 0, 0], first_cmp_arg = (), elements = 3, max_elements = 5,
     offset_to_key = 8, max_at_top = 0, compare = (\<lambda>_ a b. int a - int b)\<rparr>"

lemma diff_comparator: "comparator (\<lambda>a b. int a - int b)"
  by unfold_locales (auto simp: sgn_if)

lemma sample_queue_cmp: "queue_cmp sample_queue = (\<lambda>a b. int a - int b)"
  by (simp add: fun_eq_iff queue_cmp_def sample_queue_def)

lemma sample_queue_inv: "queue_inv sample_queue"
proof -
  have "queue_order_ok sample_queue"
    using diff_comparator by (simp add: queue_order_ok_def sample_queue_cmp) (simp add: sample_queue_def)
  moreover have "queue_wf sample_queue" by (simp add: queue_wf_def sample_queue_def queue_array_def)
  moreover have "heap_on (queue_ord sample_queue) 3 [0, 1, 4, 3, 0, 0]"
  proof -
    have "{2..3::nat} = {2, 3}" by auto
    then show ?thesis by (simp add: heap_on_def queue_ord_def sample_queue_cmp) (simp add: sample_queue_def)
  qed
  ultimately show ?thesis by (simp add: queue_inv_def queue_heap_def queue_array_def sample_queue_def)
qed

text \<open>C1. An insertion into a well-formed heap that has room ends, stays inside the allocated array,
  keeps the heap order and the size invariant, and adds exactly the new element.\<close>

theorem queue_insert_correct:
  assumes "queue_inv q" and "elements q < max_elements q"
  shows "\<exists>q'. queue_insert q e = Some q' \<and> queue_inv q' \<and> queue_items q' = add_mset e (queue_items q) \<and>
           elements q' = Suc (elements q) \<and> max_elements q' = max_elements q \<and> queue_ord q' = queue_ord q"
  using assms by (rule queue_insert_ok)

theorem queue_insert_correct_witness:
  "\<exists>q'. queue_insert sample_queue 2 = Some q' \<and> queue_inv q' \<and> queue_items q' = add_mset 2 (queue_items sample_queue) \<and>
     elements q' = Suc (elements sample_queue) \<and> max_elements q' = max_elements sample_queue \<and> queue_ord q' = queue_ord sample_queue"
  by (rule queue_insert_correct[OF sample_queue_inv]) (simp add: sample_queue_def)

text \<open>C2. Removing the top of a non-empty heap returns an element that no other element precedes, and
  leaves a well-formed heap of the remaining elements.\<close>

theorem queue_remove_top_correct:
  assumes inv: "queue_inv q" and n: "0 < elements q"
  shows "\<exists>e q'. queue_remove q 0 = Some (e, q') \<and> queue_top q = Some e \<and> queue_inv q' \<and> e \<in># queue_items q \<and>
           queue_items q' = queue_items q - {#e#} \<and> (\<forall>x \<in># queue_items q. queue_ord q e x \<le> 0)"
proof -
  have wf: "queue_wf q" and ne: "queue_items q \<noteq> {#}"
    using inv n queue_items_size[of q] by (auto simp: queue_inv_def)
  have "queue_top q = Some (queue_array q ! 1)"
    using wf n by (simp add: queue_top_def queue_array_Some queue_wf_def)
  moreover obtain e q' where "queue_remove q 0 = Some (e, q')" "queue_inv q'" "e \<in># queue_items q"
    "queue_items q' = queue_items q - {#e#}" "\<forall>x \<in># queue_items q. queue_ord q e x \<le> 0"
    using pq.rem_ok[OF inv ne] by blast
  moreover from this have "e = queue_array q ! 1"
    using queue_remove_ok[OF inv n] by auto
  ultimately show ?thesis by auto
qed

theorem queue_remove_top_correct_witness:
  "\<exists>e q'. queue_remove sample_queue 0 = Some (e, q') \<and> queue_top sample_queue = Some e \<and> queue_inv q' \<and>
     e \<in># queue_items sample_queue \<and> queue_items q' = queue_items sample_queue - {#e#} \<and>
     (\<forall>x \<in># queue_items sample_queue. queue_ord sample_queue e x \<le> 0)"
  by (rule queue_remove_top_correct[OF sample_queue_inv]) (simp add: sample_queue_def)

text \<open>C3. Filling an empty queue with any list that fits and removing the top as many times yields a
  sorted rearrangement of that list: the property that the merge phases of the sorters rely on.\<close>

theorem queue_sorts:
  assumes inv: "queue_inv q" and empty: "elements q = 0" and fits: "length es \<le> max_elements q"
  shows "\<exists>q' out. fill queue_insert es q = Some q' \<and> drain (\<lambda>q. queue_remove q 0) (length es) q' = Some out \<and>
           mset out = mset es \<and> sorted_wrt (\<lambda>a b. queue_ord q a b \<le> 0) out"
proof -
  have none: "queue_items q = {#}"
    using inv empty queue_items_size[of q] by (simp add: queue_inv_def)
  obtain q' where q': "fill queue_insert es q = Some q'" "queue_inv q'" "queue_items q' = mset es" "queue_ord q' = queue_ord q"
    using pq.fill_ok[OF inv, of es] fits empty none by auto
  then have "size (queue_items q') = length es" by simp
  with q' pq.drain_ok[OF q'(2)] show ?thesis by auto
qed

theorem queue_sorts_witness:
  "\<exists>q' out. fill queue_insert [5, 1, 4] (sample_queue\<lparr>elements := 0\<rparr>) = Some q' \<and>
     drain (\<lambda>q. queue_remove q 0) (length [5, 1, 4::nat]) q' = Some out \<and> mset out = mset [5, 1, 4] \<and>
     sorted_wrt (\<lambda>a b. queue_ord (sample_queue\<lparr>elements := 0\<rparr>) a b \<le> 0) out"
proof (rule queue_sorts)
  have "queue_array (sample_queue\<lparr>elements := 0\<rparr>) = queue_array sample_queue" by (simp add: queue_array_def)
  then show "queue_inv (sample_queue\<lparr>elements := 0\<rparr>)"
    using sample_queue_inv by (simp add: queue_inv_def queue_wf_def queue_heap_def heap_on_def)
qed (simp_all add: sample_queue_def)

text \<open>C4. \<open>queue_remove\<close> at an inner position repairs the heap only towards the leaves: there is a
  well-formed heap and a position for which the result is not a heap any more.\<close>

definition wide_queue :: "unit QUEUE" where
  "wide_queue = sample_queue\<lparr>root := Some [0, 1, 10, 2, 11, 12, 3, 4], elements := 7, max_elements := 7\<rparr>"

lemma wide_queue_cmp: "queue_cmp wide_queue = (\<lambda>a b. int a - int b)" "queue_ord wide_queue = (\<lambda>a b. int a - int b)"
  by (simp_all add: fun_eq_iff queue_cmp_def queue_ord_def wide_queue_def sample_queue_def)

lemma wide_queue_inv: "queue_inv wide_queue"
proof -
  have "queue_order_ok wide_queue"
    using diff_comparator by (simp add: queue_order_ok_def wide_queue_cmp) (simp add: wide_queue_def sample_queue_def)
  moreover have "queue_wf wide_queue" by (simp add: queue_wf_def wide_queue_def queue_array_def)
  moreover have "heap_on (queue_ord wide_queue) 7 [0, 1, 10, 2, 11, 12, 3, 4]"
  proof -
    have "{2..7::nat} = {2, 3, 4, 5, 6, 7}" by auto
    then show ?thesis by (simp add: heap_on_def wide_queue_cmp)
  qed
  ultimately show ?thesis by (simp add: queue_inv_def queue_heap_def queue_array_def wide_queue_def)
qed

lemma wide_queue_remove:
  "queue_remove wide_queue 3 = Some (11, wide_queue\<lparr>root := Some [0, 1, 10, 2, 4, 12, 3, 4], elements := 6\<rparr>)"
  by (simp add: queue_remove_def wide_queue_def sample_queue_def downheap_def downheap_loop.simps uint_dec_def
      aget_def aset_def)

theorem queue_remove_inner_not_heap:
  "\<exists>(q::unit QUEUE) idx e q'. queue_inv q \<and> idx < elements q \<and> queue_remove q idx = Some (e, q') \<and> \<not> queue_heap q'"
proof -
  let ?q' = "wide_queue\<lparr>root := Some [0, 1, 10, 2, 4, 12, 3, 4], elements := 6\<rparr>"
  have "\<not> queue_heap ?q'"
  proof
    assume "queue_heap ?q'"
    then have "\<forall>i \<in> {2..6}. queue_ord wide_queue ([0, 1, 10, 2, 4, 12, 3, 4] ! (i div 2)) ([0, 1, 10, 2, 4, 12, 3, 4] ! i) \<le> 0"
      by (simp add: queue_heap_def heap_on_def queue_array_def)
    from bspec[OF this, of 4] show False by (simp add: wide_queue_cmp)
  qed
  then show ?thesis
    using wide_queue_inv wide_queue_remove
    by (intro exI[of _ wide_queue] exI[of _ 3] exI[of _ 11] exI[of _ ?q']) (simp add: wide_queue_def)
qed

text \<open>C5. With the largest element on top, a comparison callback that is a correct three-way comparison
  but may return \<open>-2\<close> makes removal pick the wrong child: the result is not a heap.\<close>

definition desc_queue :: "unit QUEUE" where
  "desc_queue = sample_queue\<lparr>root := Some [0, 5, 1, 3, 0], elements := 4, max_elements := 4, max_at_top := (-1) XOR 1\<rparr>"

lemma desc_queue_cmp: "queue_cmp desc_queue = (\<lambda>a b. int a - int b)" "queue_ord desc_queue = (\<lambda>a b. int b - int a)"
  by (simp_all add: fun_eq_iff queue_cmp_def queue_ord_def desc_queue_def sample_queue_def)

lemma desc_queue_remove:
  "queue_remove desc_queue 0 = Some (5, desc_queue\<lparr>root := Some [0, 1, 0, 3, 0], elements := 3\<rparr>)"
  by (simp add: queue_remove_def desc_queue_def sample_queue_def downheap_def downheap_loop.simps downheap_child_def
      uint_dec_def aget_def aset_def queue_cmp_def Let_def)

theorem queue_desc_minus_two_not_heap:
  "\<exists>(q::unit QUEUE) e q'. comparator (queue_cmp q) \<and> max_at_top q = ((-1) XOR 1) \<and> queue_wf q \<and> queue_heap q \<and>
     queue_remove q 0 = Some (e, q') \<and> \<not> queue_heap q'"
proof -
  let ?q' = "desc_queue\<lparr>root := Some [0, 1, 0, 3, 0], elements := 3\<rparr>"
  have rng: "{2..4::nat} = {2, 3, 4}" by auto
  have "\<not> queue_heap ?q'"
  proof
    assume "queue_heap ?q'"
    then have "\<forall>i \<in> {2..3}. queue_ord desc_queue ([0, 1, 0, 3, 0] ! (i div 2)) ([0, 1, 0, 3, 0] ! i) \<le> 0"
      by (simp add: queue_heap_def heap_on_def queue_array_def)
    from bspec[OF this, of 3] show False by (simp add: desc_queue_cmp)
  qed
  moreover have "queue_heap desc_queue"
    using rng by (simp add: queue_heap_def heap_on_def desc_queue_cmp) (simp add: desc_queue_def queue_array_def)
  moreover have "queue_wf desc_queue" by (simp add: queue_wf_def desc_queue_def queue_array_def)
  moreover have "comparator (queue_cmp desc_queue)" using diff_comparator by (simp add: desc_queue_cmp)
  moreover have "max_at_top desc_queue = ((-1) XOR 1)" by (simp add: desc_queue_def)
  ultimately show ?thesis using desc_queue_remove by blast
qed

lemma mset_take_subset: "mset (take n xs) \<subseteq># mset xs"
proof -
  have "mset xs = mset (take n xs) + mset (drop n xs)"
    using mset_append[of "take n xs" "drop n xs"] by simp
  then show ?thesis by simp
qed



end
