(* ===== verification/Thr_Lock.thy ===== *)
theory Thr_Lock
  imports Prelude
begin

text \<open>
  The table lock manager, \<open>mysys/thr_lock.c\<close> and \<open>include/thr_lock.h\<close>.

  A \<open>THR_LOCK\<close> belongs to a table and has four lists of lock instances (\<open>THR_LOCK_DATA\<close>): the
  granted read and write locks (\<open>reads\<close>, \<open>writes\<close>) and the two wait queues. Lock instances, owners and locks
  are addresses (natural numbers) into the stores of \<open>thr_state\<close>; the intrusive doubly
  linked lists (\<open>next\<close>, \<open>prev\<close>, \<open>last\<close>) are HOL lists of addresses, so unlinking an instance is
  \<open>removeAll\<close>. Every operation runs under \<open>lock->mutex\<close> and is one atomic step here; a thread
  that blocks in \<open>wait_for_lock\<close> leaves the operation with the outcome \<open>Blocked\<close> and comes
  back with \<open>wait_for_lock_wake\<close>. The status callbacks and the signalled condition variables
  are recorded in \<open>calls\<close>; \<open>check_status\<close> is a predicate because its answer steers the code.
  The \<open>ulong\<close> counters \<open>write_lock_count\<close>, \<open>locks_immediate\<close> and \<open>locks_waited\<close> are unbounded.
\<close>

datatype thr_lock_type =
    TL_IGNORE | TL_UNLOCK | TL_READ | TL_READ_WITH_SHARED_LOCKS | TL_READ_HIGH_PRIORITY
  | TL_READ_NO_INSERT | TL_WRITE_ALLOW_WRITE | TL_WRITE_ALLOW_READ | TL_WRITE_CONCURRENT_INSERT
  | TL_WRITE_DELAYED | TL_WRITE_DEFAULT | TL_WRITE_LOW_PRIORITY | TL_WRITE | TL_WRITE_ONLY

fun tl_code :: "thr_lock_type \<Rightarrow> int" where
  "tl_code TL_IGNORE = -1"
| "tl_code TL_UNLOCK = 0"
| "tl_code TL_READ = 1"
| "tl_code TL_READ_WITH_SHARED_LOCKS = 2"
| "tl_code TL_READ_HIGH_PRIORITY = 3"
| "tl_code TL_READ_NO_INSERT = 4"
| "tl_code TL_WRITE_ALLOW_WRITE = 5"
| "tl_code TL_WRITE_ALLOW_READ = 6"
| "tl_code TL_WRITE_CONCURRENT_INSERT = 7"
| "tl_code TL_WRITE_DELAYED = 8"
| "tl_code TL_WRITE_DEFAULT = 9"
| "tl_code TL_WRITE_LOW_PRIORITY = 10"
| "tl_code TL_WRITE = 11"
| "tl_code TL_WRITE_ONLY = 12"

lemma tl_code_inj: "tl_code a = tl_code b \<Longrightarrow> a = b"
  by (cases a; cases b; simp)

instantiation thr_lock_type :: linorder
begin

definition less_eq_thr_lock_type :: "thr_lock_type \<Rightarrow> thr_lock_type \<Rightarrow> bool" where
  "less_eq_thr_lock_type a b \<longleftrightarrow> tl_code a \<le> tl_code b"

definition less_thr_lock_type :: "thr_lock_type \<Rightarrow> thr_lock_type \<Rightarrow> bool" where
  "less_thr_lock_type a b \<longleftrightarrow> tl_code a < tl_code b"

instance
  by standard (auto simp: less_eq_thr_lock_type_def less_thr_lock_type_def intro: tl_code_inj)

end

lemmas tl_order = less_eq_thr_lock_type_def less_thr_lock_type_def

datatype enum_thr_lock_result =
  THR_LOCK_SUCCESS | THR_LOCK_ABORTED | THR_LOCK_WAIT_TIMEOUT | THR_LOCK_DEADLOCK

datatype lock_outcome = Result enum_thr_lock_result | Blocked

record THR_LOCK_INFO =
  thread :: nat
  thread_id :: nat
  n_cursors :: nat

record THR_LOCK_DATA =
  owner :: nat
  lock_of :: nat
  cond :: bool
  type_of :: thr_lock_type
  status_param :: nat

record THR_LOCK =
  read_wait :: "nat list"
  reads :: "nat list"
  write_wait :: "nat list"
  writes :: "nat list"
  write_lock_count :: nat
  read_no_write_count :: nat
  get_status :: bool
  copy_status :: bool
  update_status :: bool
  restore_status :: bool
  check_status :: "(nat \<Rightarrow> bool) option"

datatype lock_event =
    Get_status nat int | Copy_status nat nat | Update_status nat | Restore_status nat | Signal nat

record thr_state =
  locks :: "nat \<Rightarrow> THR_LOCK"
  datas :: "nat \<Rightarrow> THR_LOCK_DATA"
  owner_info :: "nat \<Rightarrow> nat"
  infos :: "nat \<Rightarrow> THR_LOCK_INFO"
  thr_lock_thread_list :: "nat list"
  max_write_lock_count :: nat
  thr_upgraded_concurrent_insert_lock :: thr_lock_type
  locks_immediate :: nat
  locks_waited :: nat
  calls :: "lock_event list"

definition upd_lock :: "nat \<Rightarrow> (THR_LOCK \<Rightarrow> THR_LOCK) \<Rightarrow> thr_state \<Rightarrow> thr_state" where
  "upd_lock l f s = s\<lparr>locks := (locks s)(l := f (locks s l))\<rparr>"

definition upd_data :: "nat \<Rightarrow> (THR_LOCK_DATA \<Rightarrow> THR_LOCK_DATA) \<Rightarrow> thr_state \<Rightarrow> thr_state" where
  "upd_data d f s = s\<lparr>datas := (datas s)(d := f (datas s d))\<rparr>"

definition log_call :: "lock_event \<Rightarrow> thr_state \<Rightarrow> thr_state" where
  "log_call e s = s\<lparr>calls := calls s @ [e]\<rparr>"

abbreviation type_at :: "thr_state \<Rightarrow> nat \<Rightarrow> thr_lock_type" where
  "type_at s d \<equiv> type_of (datas s d)"

abbreviation owner_at :: "thr_state \<Rightarrow> nat \<Rightarrow> nat" where
  "owner_at s d \<equiv> owner (datas s d)"

subsection \<open>Initialisation\<close>

definition thr_lock_init :: "thr_state \<Rightarrow> nat \<Rightarrow> thr_state" where
  "thr_lock_init s l =
     s\<lparr>locks := (locks s)(l := \<lparr>read_wait = [], reads = [], write_wait = [], writes = [], write_lock_count = 0,
                 read_no_write_count = 0, get_status = False, copy_status = False, update_status = False,
                 restore_status = False, check_status = None\<rparr>),
       thr_lock_thread_list := l # thr_lock_thread_list s\<rparr>"

definition thr_lock_delete :: "thr_state \<Rightarrow> nat \<Rightarrow> thr_state" where
  "thr_lock_delete s l = s\<lparr>thr_lock_thread_list := removeAll l (thr_lock_thread_list s)\<rparr>"

definition thr_lock_info_init :: "thr_state \<Rightarrow> nat \<Rightarrow> nat \<Rightarrow> nat \<Rightarrow> thr_state" where
  "thr_lock_info_init s i self self_id =
     s\<lparr>infos := (infos s)(i := \<lparr>thread = self, thread_id = self_id, n_cursors = 0\<rparr>)\<rparr>"

definition thr_lock_data_init :: "thr_state \<Rightarrow> nat \<Rightarrow> nat \<Rightarrow> nat \<Rightarrow> thr_state" where
  "thr_lock_data_init s l d param =
     s\<lparr>datas := (datas s)(d := \<lparr>owner = 0, lock_of = l, cond = False, type_of = TL_UNLOCK, status_param = param\<rparr>)\<rparr>"

fun have_old_read_lock :: "thr_state \<Rightarrow> nat list \<Rightarrow> nat \<Rightarrow> bool" where
  "have_old_read_lock s [] own = False"
| "have_old_read_lock s (d # ds) own = (if owner_at s d = own then True else have_old_read_lock s ds own)"

fun have_specific_lock :: "thr_state \<Rightarrow> nat list \<Rightarrow> thr_lock_type \<Rightarrow> bool" where
  "have_specific_lock s [] t = False"
| "have_specific_lock s (d # ds) t = (if type_at s d = t then True else have_specific_lock s ds t)"

subsection \<open>Requests\<close>

text \<open>Append to a granted list, with the callbacks and statistics of the request.\<close>

definition call_get_status :: "nat \<Rightarrow> nat \<Rightarrow> int \<Rightarrow> thr_state \<Rightarrow> thr_state" where
  "call_get_status l d ci s =
     (if get_status (locks s l) then log_call (Get_status (status_param (datas s d)) ci) s else s)"

definition grant_read :: "thr_state \<Rightarrow> nat \<Rightarrow> nat \<Rightarrow> thr_lock_type \<Rightarrow> thr_state" where
  "grant_read s l d lock_type =
     (let s1 = upd_lock l (\<lambda>L. L\<lparr>reads := reads L @ [d],
                 read_no_write_count := read_no_write_count L + (if lock_type = TL_READ_NO_INSERT then 1 else 0)\<rparr>) s
      in (call_get_status l d 0 s1)\<lparr>locks_immediate := locks_immediate s + 1\<rparr>)"

definition grant_write :: "thr_state \<Rightarrow> nat \<Rightarrow> nat \<Rightarrow> int \<Rightarrow> thr_state" where
  "grant_write s l d ci =
     (call_get_status l d ci (upd_lock l (\<lambda>L. L\<lparr>writes := writes L @ [d]\<rparr>) s))\<lparr>locks_immediate := locks_immediate s + 1\<rparr>"

text \<open>\<open>wait_for_lock\<close> up to the wait on the condition variable.\<close>

definition wait_for_lock_enter :: "thr_state \<Rightarrow> bool \<Rightarrow> nat \<Rightarrow> nat \<Rightarrow> bool \<Rightarrow> thr_state" where
  "wait_for_lock_enter s write_queue l d in_wait_list =
     (let s1 = (if in_wait_list then s
                else if write_queue then upd_lock l (\<lambda>L. L\<lparr>write_wait := write_wait L @ [d]\<rparr>) s
                else upd_lock l (\<lambda>L. L\<lparr>read_wait := read_wait L @ [d]\<rparr>) s)
      in upd_data d (\<lambda>x. x\<lparr>cond := True\<rparr>) s1)"

text \<open>The end of \<open>thr_lock\<close>: the cursor deadlock check and the wait.\<close>

definition deadlock_or_wait :: "thr_state \<Rightarrow> bool \<Rightarrow> nat \<Rightarrow> nat \<Rightarrow> nat \<Rightarrow> thr_state \<times> lock_outcome" where
  "deadlock_or_wait s write_queue l d own =
     (let L = locks s l;
          lock_owner = (case reads L of r # _ \<Rightarrow> Some r
                        | [] \<Rightarrow> (case writes L of w # _ \<Rightarrow> Some w | [] \<Rightarrow> None))
      in case lock_owner of
           Some x \<Rightarrow> (if owner_info s (owner_at s x) = owner_info s own then (s, Result THR_LOCK_DEADLOCK)
                     else (wait_for_lock_enter s write_queue l d False, Blocked))
         | None \<Rightarrow> (wait_for_lock_enter s write_queue l d False, Blocked))"

definition thr_lock_read :: "thr_state \<Rightarrow> nat \<Rightarrow> nat \<Rightarrow> nat \<Rightarrow> thr_lock_type \<Rightarrow> thr_state \<times> lock_outcome" where
  "thr_lock_read s l d own lock_type =
     (let L = locks s l in
      case writes L of
        w # _ \<Rightarrow>
          if owner_at s d = owner_at s w \<or>
             (type_at s w \<le> TL_WRITE_DELAYED \<and>
              (lock_type \<le> TL_READ_HIGH_PRIORITY \<or>
               (type_at s w \<noteq> TL_WRITE_CONCURRENT_INSERT \<and> type_at s w \<noteq> TL_WRITE_ALLOW_READ)))
          then (grant_read s l d lock_type, Result THR_LOCK_SUCCESS)
          else if type_at s w = TL_WRITE_ONLY
          then (upd_data d (\<lambda>x. x\<lparr>type_of := TL_UNLOCK\<rparr>) s, Result THR_LOCK_ABORTED)
          else deadlock_or_wait s False l d own
      | [] \<Rightarrow>
          if (case write_wait L of [] \<Rightarrow> True | ww # _ \<Rightarrow> type_at s ww \<le> TL_WRITE_LOW_PRIORITY) \<or>
             lock_type = TL_READ_HIGH_PRIORITY \<or> have_old_read_lock s (reads L) (owner_at s d)
          then (grant_read s l d lock_type, Result THR_LOCK_SUCCESS)
          else deadlock_or_wait s False l d own)"

text \<open>
  A write request after the treatment of \<open>TL_WRITE_DELAYED\<close> and of a missing
  \<open>check_status\<close>; here \<open>lock_type\<close> is the type of \<open>d\<close>.
\<close>

definition call_check_status :: "thr_state \<Rightarrow> nat \<Rightarrow> nat \<Rightarrow> bool" where
  "call_check_status s l d = (case check_status (locks s l) of None \<Rightarrow> False | Some f \<Rightarrow> f (status_param (datas s d)))"

definition write_beside_reads :: "thr_state \<Rightarrow> nat \<Rightarrow> thr_lock_type \<Rightarrow> bool" where
  "write_beside_reads s l lock_type \<longleftrightarrow>
     lock_type \<le> TL_WRITE_DELAYED \<and>
     ((lock_type \<noteq> TL_WRITE_CONCURRENT_INSERT \<and> lock_type \<noteq> TL_WRITE_ALLOW_WRITE) \<or>
      read_no_write_count (locks s l) = 0)"

definition thr_lock_write :: "thr_state \<Rightarrow> nat \<Rightarrow> nat \<Rightarrow> nat \<Rightarrow> thr_lock_type \<Rightarrow> thr_state \<times> lock_outcome" where
  "thr_lock_write s l d own lock_type =
     (let L = locks s l in
      case writes L of
        w # _ \<Rightarrow>
          if type_at s w = TL_WRITE_ONLY
          then (upd_data d (\<lambda>x. x\<lparr>type_of := TL_UNLOCK\<rparr>) s, Result THR_LOCK_ABORTED)
          else if owner_at s d = owner_at s w \<or>
             (lock_type = TL_WRITE_ALLOW_WRITE \<and> write_wait L = [] \<and> type_at s w = TL_WRITE_ALLOW_WRITE)
          then (grant_write s l d 0, Result THR_LOCK_SUCCESS)
          else deadlock_or_wait s True l d own
      | [] \<Rightarrow>
          if write_wait L = [] then
            let upgrade = (lock_type = TL_WRITE_CONCURRENT_INSERT \<and> call_check_status s l d);
                ci = (if lock_type = TL_WRITE_CONCURRENT_INSERT \<and> \<not> upgrade then 1 else 0);
                lt = (if upgrade then thr_upgraded_concurrent_insert_lock s else lock_type);
                s1 = upd_data d (\<lambda>x. x\<lparr>type_of := lt\<rparr>) s
            in if reads L = [] \<or> write_beside_reads s1 l lt
               then (grant_write s1 l d ci, Result THR_LOCK_SUCCESS)
               else deadlock_or_wait s1 True l d own
          else deadlock_or_wait s True l d own)"

definition thr_lock :: "thr_state \<Rightarrow> nat \<Rightarrow> nat \<Rightarrow> thr_lock_type \<Rightarrow> thr_state \<times> lock_outcome" where
  "thr_lock s0 d own lock_type =
     (let l = lock_of (datas s0 d);
          s = upd_data d (\<lambda>x. x\<lparr>cond := False, type_of := lock_type, owner := own\<rparr>) s0;
          L = locks s l
      in if lock_type \<le> TL_READ_NO_INSERT then thr_lock_read s l d own lock_type
         else if lock_type = TL_WRITE_DELAYED then
           if (case writes L of w # _ \<Rightarrow> type_at s w = TL_WRITE_ONLY | [] \<Rightarrow> False)
           then (upd_data d (\<lambda>x. x\<lparr>type_of := TL_UNLOCK\<rparr>) s, Result THR_LOCK_ABORTED)
           else if (case writes L of w # _ \<Rightarrow> type_at s w \<noteq> TL_WRITE_ALLOW_READ | [] \<Rightarrow> True) \<and>
              \<not> have_specific_lock s (write_wait L) TL_WRITE_ALLOW_READ \<and> (writes L \<noteq> [] \<or> reads L \<noteq> [])
           then ((upd_data d (\<lambda>x. x\<lparr>cond := True\<rparr>) (upd_lock l (\<lambda>L. L\<lparr>write_wait := write_wait L @ [d]\<rparr>) s))
                   \<lparr>locks_immediate := locks_immediate s + 1\<rparr>, Result THR_LOCK_SUCCESS)
           else thr_lock_write s l d own lock_type
         else if lock_type = TL_WRITE_CONCURRENT_INSERT \<and> check_status L = None then
           let lt = thr_upgraded_concurrent_insert_lock s
           in thr_lock_write (upd_data d (\<lambda>x. x\<lparr>type_of := lt\<rparr>) s) l d own lt
         else thr_lock_write s l d own lock_type)"

subsection \<open>Release\<close>

text \<open>
  \<open>free_all_read_locks\<close>: the read wait queue goes to the granted list, but for the
  \<open>TL_READ_NO_INSERT\<close> requests when a concurrent insert runs beside them, which are linked
  back into the wait queue.
\<close>

fun free_read_loop :: "thr_state \<Rightarrow> nat \<Rightarrow> bool \<Rightarrow> nat list \<Rightarrow> thr_state" where
  "free_read_loop s l using_concurrent_insert [] = s"
| "free_read_loop s l using_concurrent_insert (d # ds) =
     (if type_at s d = TL_READ_NO_INSERT \<and> using_concurrent_insert
      then free_read_loop (upd_lock l (\<lambda>L. L\<lparr>read_wait := read_wait L @ [d]\<rparr>) s) l using_concurrent_insert ds
      else
        let s1 = upd_lock l (\<lambda>L. L\<lparr>reads := reads L @ [d],
                   read_no_write_count := read_no_write_count L + (if type_at s d = TL_READ_NO_INSERT then 1 else 0)\<rparr>) s
        in free_read_loop (log_call (Signal d) (upd_data d (\<lambda>x. x\<lparr>cond := False\<rparr>) s1)) l using_concurrent_insert ds)"

definition free_all_read_locks :: "thr_state \<Rightarrow> nat \<Rightarrow> bool \<Rightarrow> thr_state" where
  "free_all_read_locks s l using_concurrent_insert =
     (let s1 = free_read_loop (upd_lock l (\<lambda>L. L\<lparr>read_wait := []\<rparr>) s) l using_concurrent_insert (read_wait (locks s l))
      in if read_wait (locks s1 l) = [] then upd_lock l (\<lambda>L. L\<lparr>write_lock_count := 0\<rparr>) s1 else s1)"

text \<open>
  The two loops of \<open>wake_up_waiters\<close> that move write requests to the granted list. The first
  runs when no lock is in use, the second beside granted read locks; both go on while the
  requests are \<open>TL_WRITE_ALLOW_WRITE\<close>. The first also returns the last request it granted.
\<close>

fun grant_writes_alone :: "thr_state \<Rightarrow> nat \<Rightarrow> nat list \<Rightarrow> nat \<Rightarrow> thr_state \<times> nat" where
  "grant_writes_alone s l ws d =
     (let s1 = upd_lock l (\<lambda>L. L\<lparr>write_wait := ws, writes := writes L @ [d]\<rparr>) s;
          s2 = (if type_at s d = TL_WRITE_CONCURRENT_INSERT \<and> call_check_status s l d
                then upd_data d (\<lambda>x. x\<lparr>type_of := TL_WRITE\<rparr>) s1 else s1);
          s3 = log_call (Signal d) (upd_data d (\<lambda>x. x\<lparr>cond := False\<rparr>) s2)
      in case ws of
           [] \<Rightarrow> (s3, d)
         | d' # ws' \<Rightarrow>
             if type_at s3 d \<noteq> TL_WRITE_ALLOW_WRITE \<or> type_at s3 d' \<noteq> TL_WRITE_ALLOW_WRITE then (s3, d)
             else grant_writes_alone s3 l ws' d')"

fun grant_writes_beside :: "thr_state \<Rightarrow> nat \<Rightarrow> thr_lock_type \<Rightarrow> nat list \<Rightarrow> thr_state" where
  "grant_writes_beside s l lock_type [] = s"
| "grant_writes_beside s l lock_type (d # ws) =
     (let s1 = upd_lock l (\<lambda>L. L\<lparr>write_wait := ws, writes := writes L @ [d]\<rparr>) s;
          s2 = log_call (Signal d) (upd_data d (\<lambda>x. x\<lparr>cond := False\<rparr>) s1)
      in if lock_type = TL_WRITE_ALLOW_WRITE \<and> (case ws of d' # _ \<Rightarrow> type_at s2 d' = TL_WRITE_ALLOW_WRITE | [] \<Rightarrow> False)
         then grant_writes_beside s2 l lock_type ws else s2)"

text \<open>\<open>wake_up_waiters\<close>, first part: neither a write lock nor a read lock is in use.\<close>

definition wake_when_free :: "thr_state \<Rightarrow> nat \<Rightarrow> thr_state" where
  "wake_when_free s l =
     (let L = locks s l in
      case write_wait L of
        d # ws \<Rightarrow>
          if type_at s d \<noteq> TL_WRITE_LOW_PRIORITY \<or>
             (case read_wait L of [] \<Rightarrow> True | r # _ \<Rightarrow> type_at s r < TL_READ_HIGH_PRIORITY)
          then
            let over = (max_write_lock_count s < write_lock_count L);
                s1 = upd_lock l (\<lambda>L. L\<lparr>write_lock_count := (if over then 0 else write_lock_count L + 1)\<rparr>) s
            in if over \<and> read_wait L \<noteq> [] then free_all_read_locks s1 l False
               else
                 let (s2, d2) = grant_writes_alone s1 l ws d
                 in if TL_WRITE_LOW_PRIORITY \<le> type_at s2 d2 then s2
                    else if read_wait (locks s2 l) \<noteq> []
                    then free_all_read_locks s2 l
                           (type_at s2 d2 = TL_WRITE_CONCURRENT_INSERT \<or> type_at s2 d2 = TL_WRITE_ALLOW_WRITE)
                    else s2
          else if read_wait L \<noteq> []
          then free_all_read_locks s l (type_at s d = TL_WRITE_CONCURRENT_INSERT \<or> type_at s d = TL_WRITE_ALLOW_WRITE)
          else s
      | [] \<Rightarrow> if read_wait L \<noteq> [] then free_all_read_locks s l False else s)"

text \<open>Second part: read locks are in use, no write lock is.\<close>

definition wake_beside_reads :: "thr_state \<Rightarrow> nat \<Rightarrow> thr_state" where
  "wake_beside_reads s l =
     (let L = locks s l in
      case write_wait L of
        d # ws \<Rightarrow>
          let lock_type = type_at s d in
          if write_beside_reads s l lock_type then
            if lock_type = TL_WRITE_CONCURRENT_INSERT \<and> call_check_status s l d
            then let s1 = upd_data d (\<lambda>x. x\<lparr>type_of := TL_WRITE\<rparr>) s
                 in if read_wait L \<noteq> [] then free_all_read_locks s1 l False else s1
            else let s1 = grant_writes_beside s l lock_type (d # ws)
                 in if read_wait (locks s1 l) \<noteq> []
                    then free_all_read_locks s1 l
                           (lock_type = TL_WRITE_CONCURRENT_INSERT \<or> lock_type = TL_WRITE_ALLOW_WRITE)
                    else s1
          else s
      | [] \<Rightarrow> if read_wait L \<noteq> [] then free_all_read_locks s l False else s)"

definition wake_up_waiters :: "thr_state \<Rightarrow> nat \<Rightarrow> thr_state" where
  "wake_up_waiters s l =
     (if writes (locks s l) = [] then
        if reads (locks s l) = [] then wake_when_free s l else wake_beside_reads s l
      else s)"

text \<open>Unlinking an instance from whichever list it is in.\<close>

definition unlink :: "nat \<Rightarrow> THR_LOCK \<Rightarrow> THR_LOCK" where
  "unlink d L = L\<lparr>reads := removeAll d (reads L), writes := removeAll d (writes L),
                  read_wait := removeAll d (read_wait L), write_wait := removeAll d (write_wait L)\<rparr>"

definition thr_unlock :: "thr_state \<Rightarrow> nat \<Rightarrow> thr_state" where
  "thr_unlock s d =
     (let l = lock_of (datas s d);
          lock_type = type_at s d;
          param = status_param (datas s d);
          s1 = upd_lock l (unlink d) s;
          s2 = (if TL_WRITE_CONCURRENT_INSERT \<le> lock_type
                then (if update_status (locks s1 l) then log_call (Update_status param) s1 else s1)
                else (if restore_status (locks s1 l) then log_call (Restore_status param) s1 else s1));
          s3 = (if lock_type = TL_READ_NO_INSERT
                then upd_lock l (\<lambda>L. L\<lparr>read_no_write_count := uint_dec (read_no_write_count L)\<rparr>) s2 else s2);
          s4 = upd_data d (\<lambda>x. x\<lparr>type_of := TL_UNLOCK\<rparr>) s3
      in wake_up_waiters s4 l)"

text \<open>
  \<open>wait_for_lock\<close> after the wait: the thread was granted the lock or its request was aborted
  (\<open>cond\<close> is clear), or it was killed or timed out (\<open>cond\<close> is still set).
\<close>

definition wait_for_lock_wake :: "thr_state \<Rightarrow> nat \<Rightarrow> bool \<Rightarrow> thr_state \<times> enum_thr_lock_result" where
  "wait_for_lock_wake s d timed_out =
     (let l = lock_of (datas s d) in
      if cond (datas s d) then
        (wake_up_waiters (upd_data d (\<lambda>x. x\<lparr>type_of := TL_UNLOCK\<rparr>) (upd_lock l (unlink d) s)) l,
         if timed_out then THR_LOCK_WAIT_TIMEOUT else THR_LOCK_ABORTED)
      else if type_at s d = TL_UNLOCK then (s, THR_LOCK_ABORTED)
      else (call_get_status l d 0 (s\<lparr>locks_waited := locks_waited s + 1\<rparr>), THR_LOCK_SUCCESS))"

subsection \<open>Several locks at once\<close>

text \<open>
  \<open>sort_locks\<close> is an insertion sort by the address of the lock less the lock type; the
  sorted prefix of the array is kept reversed here, as the inner loop walks it backwards.
\<close>

definition LOCK_CMP :: "thr_state \<Rightarrow> nat \<Rightarrow> nat \<Rightarrow> bool" where
  "LOCK_CMP s a b \<longleftrightarrow>
     int (lock_of (datas s a)) - tl_code (type_at s a) mod 2 ^ 32 < int (lock_of (datas s b)) - tl_code (type_at s b) mod 2 ^ 32"

fun sort_insert :: "thr_state \<Rightarrow> nat \<Rightarrow> nat list \<Rightarrow> nat list" where
  "sort_insert s tmp [] = [tmp]"
| "sort_insert s tmp (p # ps) = (if LOCK_CMP s tmp p then p # sort_insert s tmp ps else tmp # p # ps)"

definition sort_locks :: "thr_state \<Rightarrow> nat list \<Rightarrow> nat list" where
  "sort_locks s ds = rev (foldl (\<lambda>sorted tmp. sort_insert s tmp sorted) [] ds)"

fun thr_multi_unlock :: "thr_state \<Rightarrow> nat list \<Rightarrow> thr_state" where
  "thr_multi_unlock s [] = s"
| "thr_multi_unlock s (d # ds) = thr_multi_unlock (if type_at s d \<noteq> TL_UNLOCK then thr_unlock s d else s) ds"

text \<open>\<open>MBlocked done d rest\<close>: the thread waits for \<open>d\<close>, holds \<open>done\<close> and still has to lock \<open>rest\<close>.\<close>

datatype multi_outcome = MResult enum_thr_lock_result | MBlocked "nat list" nat "nat list"

fun multi_lock_loop :: "thr_state \<Rightarrow> nat \<Rightarrow> nat list \<Rightarrow> nat list \<Rightarrow> thr_state \<times> multi_outcome" where
  "multi_lock_loop s own done [] = (s, MResult THR_LOCK_SUCCESS)"
| "multi_lock_loop s own done (d # ds) =
     (case thr_lock s d own (type_at s d) of
        (s', Result THR_LOCK_SUCCESS) \<Rightarrow> multi_lock_loop s' own (done @ [d]) ds
      | (s', Result r) \<Rightarrow> (thr_multi_unlock s' done, MResult r)
      | (s', Blocked) \<Rightarrow> (s', MBlocked done d ds))"

text \<open>
  The last part of \<open>thr_multi_lock\<close>: instances of the same table share the status of the
  last write lock, or of one read lock. \<open>copy_reads\<close> is its inner loop; \<open>lst\<close> is the
  instance \<open>last_lock\<close> points at.
\<close>

fun copy_reads :: "thr_state \<Rightarrow> nat list \<Rightarrow> nat \<Rightarrow> nat \<Rightarrow> thr_state" where
  "copy_reads s [] lst p = s"
| "copy_reads s (d # ds) lst p =
     (let s1 = log_call (Copy_status (status_param (datas s d)) (status_param (datas s p))) s
      in if d = lst then s1 else copy_reads s1 ds lst p)"

fun skip_reads :: "thr_state \<Rightarrow> nat list \<Rightarrow> nat \<Rightarrow> nat" where
  "skip_reads s ds 0 = 0"
| "skip_reads s ds (Suc i) =
     (if type_at s (ds ! Suc i) \<le> TL_READ_NO_INSERT \<and> lock_of (datas s (ds ! i)) = lock_of (datas s (ds ! Suc i))
      then skip_reads s ds i else Suc i)"

lemma skip_reads_le: "skip_reads s ds i \<le> i"
  by (induction i) auto

function share_status :: "thr_state \<Rightarrow> nat list \<Rightarrow> nat \<Rightarrow> nat \<Rightarrow> thr_state" where
  "share_status s ds 0 lst = s"
| "share_status s ds (Suc i) lst =
     (if lock_of (datas s lst) = lock_of (datas s (ds ! i)) \<and> copy_status (locks s (lock_of (datas s lst))) then
        if type_at s lst \<le> TL_READ_NO_INSERT then
          let j = skip_reads s ds i
          in share_status (copy_reads s (drop (Suc j) ds) lst (ds ! j)) ds j (ds ! j)
        else
          share_status (log_call (Copy_status (status_param (datas s (ds ! i))) (status_param (datas s lst))) s) ds i lst
      else share_status s ds i (ds ! i))"
  by pat_completeness auto
termination
  by (relation "measure (\<lambda>(s, ds, i, lst). i)") (auto simp: le_imp_less_Suc skip_reads_le)

definition thr_multi_lock :: "thr_state \<Rightarrow> nat list \<Rightarrow> nat \<Rightarrow> thr_state \<times> multi_outcome \<times> nat list" where
  "thr_multi_lock s data own =
     (let ds = (if length data > 1 then sort_locks s data else data)
      in case multi_lock_loop s own [] ds of
           (s', MResult THR_LOCK_SUCCESS) \<Rightarrow>
             ((if length ds > 1 then share_status s' ds (length ds - 1) (last ds) else s'), MResult THR_LOCK_SUCCESS, ds)
         | (s', out) \<Rightarrow> (s', out, ds))"

text \<open>The same call after the blocked instance \<open>d\<close> was woken.\<close>

definition multi_lock_resume ::
  "thr_state \<Rightarrow> nat \<Rightarrow> nat list \<Rightarrow> nat \<Rightarrow> nat list \<Rightarrow> bool \<Rightarrow> thr_state \<times> multi_outcome" where
  "multi_lock_resume s own done d ds timed_out =
     (case wait_for_lock_wake s d timed_out of
        (s', THR_LOCK_SUCCESS) \<Rightarrow> multi_lock_loop s' own (done @ [d]) ds
      | (s', r) \<Rightarrow> (thr_multi_unlock s' done, MResult r))"

subsection \<open>Aborts and delayed inserts\<close>

fun abort_waiters :: "thr_state \<Rightarrow> nat list \<Rightarrow> thr_state" where
  "abort_waiters s [] = s"
| "abort_waiters s (d # ds) =
     abort_waiters (upd_data d (\<lambda>x. x\<lparr>cond := False\<rparr>) (log_call (Signal d) (upd_data d (\<lambda>x. x\<lparr>type_of := TL_UNLOCK\<rparr>) s))) ds"

definition thr_abort_locks :: "thr_state \<Rightarrow> nat \<Rightarrow> thr_state" where
  "thr_abort_locks s l =
     (let s1 = abort_waiters (abort_waiters s (read_wait (locks s l))) (write_wait (locks s l));
          s2 = upd_lock l (\<lambda>L. L\<lparr>read_wait := [], write_wait := []\<rparr>) s1
      in case writes (locks s2 l) of
           w # _ \<Rightarrow> upd_data w (\<lambda>x. x\<lparr>type_of := TL_WRITE_ONLY\<rparr>) s2
         | [] \<Rightarrow> s2)"

fun abort_thread_loop :: "thr_state \<Rightarrow> nat \<Rightarrow> nat \<Rightarrow> nat list \<Rightarrow> bool \<Rightarrow> thr_state \<times> bool" where
  "abort_thread_loop s l thr [] found = (s, found)"
| "abort_thread_loop s l thr (d # ds) found =
     (if thread (infos s (owner_info s (owner_at s d))) = thr
      then abort_thread_loop
             (upd_lock l (unlink d)
               (upd_data d (\<lambda>x. x\<lparr>cond := False\<rparr>) (log_call (Signal d) (upd_data d (\<lambda>x. x\<lparr>type_of := TL_UNLOCK\<rparr>) s))))
             l thr ds True
      else abort_thread_loop s l thr ds found)"

definition thr_abort_locks_for_thread :: "thr_state \<Rightarrow> nat \<Rightarrow> nat \<Rightarrow> thr_state \<times> bool" where
  "thr_abort_locks_for_thread s l thr =
     (let (s1, found1) = abort_thread_loop s l thr (read_wait (locks s l)) False;
          (s2, found2) = abort_thread_loop s1 l thr (write_wait (locks s1 l)) found1
      in (wake_up_waiters s2 l, found2))"

text \<open>The second component is the value returned, or \<open>None\<close> for a thread that now waits.\<close>

definition thr_upgrade_write_delay_lock :: "thr_state \<Rightarrow> nat \<Rightarrow> thr_state \<times> bool option" where
  "thr_upgrade_write_delay_lock s d =
     (let l = lock_of (datas s d) in
      if type_at s d = TL_UNLOCK \<or> TL_WRITE_LOW_PRIORITY \<le> type_at s d then (s, Some (type_at s d = TL_UNLOCK))
      else
        let s1 = upd_data d (\<lambda>x. x\<lparr>type_of := TL_WRITE\<rparr>) s in
        if \<not> cond (datas s1 d) then
          if reads (locks s1 l) = [] then (call_get_status l d 0 s1, Some False)
          else (wait_for_lock_enter (upd_lock l (\<lambda>L. (unlink d L)\<lparr>write_wait := d # write_wait (unlink d L)\<rparr>) s1) True l d True, None)
        else (wait_for_lock_enter s1 True l d True, None))"

definition thr_reschedule_write_lock :: "thr_state \<Rightarrow> nat \<Rightarrow> thr_state \<times> bool option" where
  "thr_reschedule_write_lock s d =
     (let l = lock_of (datas s d) in
      if read_wait (locks s l) = [] then (s, Some False)
      else
        let s1 = upd_data d (\<lambda>x. x\<lparr>type_of := TL_WRITE_DELAYED\<rparr>) s;
            s2 = (if update_status (locks s1 l) then log_call (Update_status (status_param (datas s1 d))) s1 else s1);
            s3 = upd_lock l (\<lambda>L. (unlink d L)\<lparr>write_wait := d # write_wait (unlink d L)\<rparr>) s2;
            s4 = upd_data d (\<lambda>x. x\<lparr>cond := True\<rparr>) s3
        in thr_upgrade_write_delay_lock (free_all_read_locks s4 l False) d)"

subsection \<open>The consistency checker of the source\<close>

text \<open>
  \<open>check_lock\<close> and \<open>check_locks\<close> are compiled with \<open>EXTRA_DEBUG\<close>. The link checks hold by
  construction of the lists; the others are kept, \<open>True\<close> is a reported warning.
\<close>

fun check_lock_loop :: "thr_state \<Rightarrow> nat list \<Rightarrow> nat \<Rightarrow> bool \<Rightarrow> bool \<Rightarrow> nat \<Rightarrow> thr_lock_type \<Rightarrow> bool" where
  "check_lock_loop s [] cnt same_owner no_cond first_owner last_lock_type = False"
| "check_lock_loop s (d # ds) cnt same_owner no_cond first_owner last_lock_type =
     (if \<not> cnt < 100 then True
      else
        let lt = (if type_at s d \<noteq> last_lock_type then TL_IGNORE else last_lock_type) in
        if same_owner \<and> owner_at s d \<noteq> first_owner \<and> lt \<noteq> TL_WRITE_ALLOW_WRITE then True
        else if no_cond \<and> cond (datas s d) then True
        else check_lock_loop s ds (cnt + 1) same_owner no_cond first_owner lt)"

definition check_lock :: "thr_state \<Rightarrow> nat list \<Rightarrow> bool \<Rightarrow> bool \<Rightarrow> bool" where
  "check_lock s ds same_owner no_cond =
     (case ds of [] \<Rightarrow> False
      | d # _ \<Rightarrow> check_lock_loop s ds 0 same_owner no_cond (owner_at s d) (type_at s d))"

definition check_counts :: "thr_state \<Rightarrow> nat \<Rightarrow> bool" where
  "check_counts s l =
     (length (filter (\<lambda>d. type_at s d = TL_READ_NO_INSERT) (reads (locks s l))) \<noteq> read_no_write_count (locks s l))"

text \<open>The warnings when no write lock is granted, then those when one is.\<close>

definition check_no_write :: "thr_state \<Rightarrow> nat \<Rightarrow> bool \<Rightarrow> bool list" where
  "check_no_write s l allow_no_locks =
     (let L = locks s l in
      [\<not> allow_no_locks \<and> reads L = [] \<and> (write_wait L \<noteq> [] \<or> read_wait L \<noteq> []),
       (case write_wait L of
          [] \<Rightarrow> \<not> allow_no_locks \<and> read_wait L \<noteq> []
        | d # _ \<Rightarrow> \<not> allow_no_locks \<and>
            (((type_at s d = TL_WRITE_CONCURRENT_INSERT \<or> type_at s d = TL_WRITE_ALLOW_WRITE) \<and> read_no_write_count L = 0) \<or>
             type_at s d = TL_WRITE_ALLOW_READ \<or>
             (type_at s d = TL_WRITE_DELAYED \<and> reads L = [])))])"

definition check_write_held :: "thr_state \<Rightarrow> nat \<Rightarrow> bool \<Rightarrow> nat \<Rightarrow> bool list" where
  "check_write_held s l allow_no_locks w =
     (let L = locks s l in
      [(case write_wait L of [] \<Rightarrow> False
        | d # _ \<Rightarrow> \<not> allow_no_locks \<and> type_at s w = TL_WRITE_ALLOW_WRITE \<and> type_at s d = TL_WRITE_ALLOW_WRITE),
       (case reads L of [] \<Rightarrow> False
        | r # _ \<Rightarrow> owner_at s w \<noteq> owner_at s r \<and>
            ((TL_WRITE_DELAYED < type_at s w \<and> type_at s w \<noteq> TL_WRITE_ONLY) \<or>
             ((type_at s w = TL_WRITE_CONCURRENT_INSERT \<or> type_at s w = TL_WRITE_ALLOW_WRITE) \<and>
              read_no_write_count L \<noteq> 0))),
       (case read_wait L of [] \<Rightarrow> False
        | r # _ \<Rightarrow> \<not> allow_no_locks \<and> type_at s w \<le> TL_WRITE_DELAYED \<and> type_at s r \<le> TL_READ_HIGH_PRIORITY)])"

definition check_locks :: "thr_state \<Rightarrow> nat \<Rightarrow> bool \<Rightarrow> nat \<Rightarrow> nat" where
  "check_locks s l allow_no_locks found_errors =
     (let L = locks s l in
      if found_errors < 10 then
        let f1 = found_errors +
              (if check_lock s (writes L) True True \<or> check_lock s (write_wait L) False False \<or>
                  check_lock s (reads L) False True \<or> check_lock s (read_wait L) False False then 1 else 0)
        in if f1 < 10 then
             f1 + (if check_counts s l then 1 else 0) +
             length (filter id (case writes L of [] \<Rightarrow> check_no_write s l allow_no_locks
                                | w # _ \<Rightarrow> check_write_held s l allow_no_locks w))
           else f1
      else found_errors)"

end
