(* ===== verification/Lock_Inv.thy ===== *)
theory Lock_Inv
  imports Thr_Lock
begin

text \<open>
  The invariant of one table lock. \<open>lock_ok\<close> says how the four lists, the lock types, the
  owners and the counter agree; \<open>lock_awake\<close> says that no request waits for nothing. Both
  are stated over the lock \<open>L\<close> and the store \<open>D\<close> of lock instances, so that a step on another
  lock is a frame step.
\<close>

definition members :: "THR_LOCK \<Rightarrow> nat list" where
  "members L = reads L @ writes L @ read_wait L @ write_wait L"

definition ok_members :: "nat \<Rightarrow> THR_LOCK \<Rightarrow> (nat \<Rightarrow> THR_LOCK_DATA) \<Rightarrow> bool" where
  "ok_members l L D \<longleftrightarrow> distinct (members L) \<and> length (members L) < 2 ^ 32 \<and> (\<forall>d \<in> set (members L). lock_of (D d) = l)"

definition ok_types :: "THR_LOCK \<Rightarrow> (nat \<Rightarrow> THR_LOCK_DATA) \<Rightarrow> bool" where
  "ok_types L D \<longleftrightarrow>
     (\<forall>d \<in> set (reads L) \<union> set (read_wait L). TL_READ \<le> type_of (D d) \<and> type_of (D d) \<le> TL_READ_NO_INSERT) \<and>
     (\<forall>d \<in> set (writes L) \<union> set (write_wait L). TL_WRITE_ALLOW_WRITE \<le> type_of (D d) \<and> type_of (D d) \<noteq> TL_WRITE_DEFAULT \<and>
        (type_of (D d) = TL_WRITE_CONCURRENT_INSERT \<longrightarrow> check_status L \<noteq> None))"

definition ok_conds :: "THR_LOCK \<Rightarrow> (nat \<Rightarrow> THR_LOCK_DATA) \<Rightarrow> bool" where
  "ok_conds L D \<longleftrightarrow> (\<forall>d \<in> set (reads L) \<union> set (writes L). \<not> cond (D d)) \<and>
     (\<forall>d \<in> set (read_wait L) \<union> set (write_wait L). cond (D d))"

definition ok_count :: "THR_LOCK \<Rightarrow> (nat \<Rightarrow> THR_LOCK_DATA) \<Rightarrow> bool" where
  "ok_count L D \<longleftrightarrow> read_no_write_count L = length (filter (\<lambda>d. type_of (D d) = TL_READ_NO_INSERT) (reads L))"

text \<open>
  Granted write locks: one owner, or all of them \<open>TL_WRITE_ALLOW_WRITE\<close>, the first of which
  \<open>thr_abort_locks\<close> may have made \<open>TL_WRITE_ONLY\<close>; strongest first.
\<close>

definition ok_writes :: "THR_LOCK \<Rightarrow> (nat \<Rightarrow> THR_LOCK_DATA) \<Rightarrow> bool" where
  "ok_writes L D \<longleftrightarrow>
     ((\<forall>a \<in> set (writes L). \<forall>b \<in> set (writes L). owner (D a) = owner (D b)) \<or>
      (\<forall>a \<in> set (writes L). type_of (D a) = TL_WRITE_ALLOW_WRITE \<or> type_of (D a) = TL_WRITE_ONLY)) \<and>
     sorted_wrt (\<lambda>a b. type_of (D b) \<le> type_of (D a)) (writes L) \<and>
     \<not> ((\<exists>a \<in> set (writes L). type_of (D a) = TL_WRITE_DELAYED) \<and>
        (\<exists>b \<in> set (writes L). type_of (D b) = TL_WRITE_CONCURRENT_INSERT))"

text \<open>Granted write locks beside granted read locks of another owner.\<close>

definition ok_beside :: "THR_LOCK \<Rightarrow> (nat \<Rightarrow> THR_LOCK_DATA) \<Rightarrow> bool" where
  "ok_beside L D \<longleftrightarrow>
     (\<forall>w \<in> set (writes L). \<forall>r \<in> set (reads L). owner (D r) \<noteq> owner (D w) \<longrightarrow>
        (type_of (D w) \<le> TL_WRITE_DELAYED \<or> type_of (D w) = TL_WRITE_ONLY) \<and>
        \<not> (type_of (D w) = TL_WRITE_CONCURRENT_INSERT \<and> type_of (D r) = TL_READ_NO_INSERT))"

definition lock_ok :: "nat \<Rightarrow> THR_LOCK \<Rightarrow> (nat \<Rightarrow> THR_LOCK_DATA) \<Rightarrow> bool" where
  "lock_ok l L D \<longleftrightarrow> ok_members l L D \<and> ok_types L D \<and> ok_conds L D \<and> ok_count L D \<and> ok_writes L D \<and> ok_beside L D"

definition lock_awake :: "THR_LOCK \<Rightarrow> bool" where
  "lock_awake L \<longleftrightarrow>
     (writes L = [] \<and> reads L = [] \<longrightarrow> write_wait L = [] \<and> read_wait L = []) \<and>
     (writes L = [] \<and> write_wait L = [] \<longrightarrow> read_wait L = [])"

lemmas ok_defs = ok_members_def ok_types_def ok_conds_def ok_count_def ok_writes_def ok_beside_def

lemma ok_types_write:
  "ok_types L D \<Longrightarrow> x \<in> set (writes L) \<union> set (write_wait L) \<Longrightarrow>
     TL_WRITE_ALLOW_WRITE \<le> type_of (D x) \<and> type_of (D x) \<noteq> TL_WRITE_DEFAULT \<and>
     (type_of (D x) = TL_WRITE_CONCURRENT_INSERT \<longrightarrow> check_status L \<noteq> None)"
  unfolding ok_types_def by blast

lemma ok_types_read:
  "ok_types L D \<Longrightarrow> x \<in> set (reads L) \<union> set (read_wait L) \<Longrightarrow>
     TL_READ \<le> type_of (D x) \<and> type_of (D x) \<le> TL_READ_NO_INSERT"
  unfolding ok_types_def by blast

lemma upd_lock_simps [simp]:
  "locks (upd_lock l f s) = (locks s)(l := f (locks s l))" "datas (upd_lock l f s) = datas s"
  "calls (upd_lock l f s) = calls s" "owner_info (upd_lock l f s) = owner_info s" "infos (upd_lock l f s) = infos s"
  "max_write_lock_count (upd_lock l f s) = max_write_lock_count s"
  "thr_upgraded_concurrent_insert_lock (upd_lock l f s) = thr_upgraded_concurrent_insert_lock s"
  by (simp_all add: upd_lock_def)

lemma upd_data_simps [simp]:
  "locks (upd_data d f s) = locks s" "datas (upd_data d f s) = (datas s)(d := f (datas s d))"
  "calls (upd_data d f s) = calls s" "owner_info (upd_data d f s) = owner_info s" "infos (upd_data d f s) = infos s"
  "max_write_lock_count (upd_data d f s) = max_write_lock_count s"
  "thr_upgraded_concurrent_insert_lock (upd_data d f s) = thr_upgraded_concurrent_insert_lock s"
  by (simp_all add: upd_data_def)

lemma log_call_simps [simp]:
  "locks (log_call e s) = locks s" "datas (log_call e s) = datas s"
  "owner_info (log_call e s) = owner_info s" "infos (log_call e s) = infos s"
  "max_write_lock_count (log_call e s) = max_write_lock_count s"
  "thr_upgraded_concurrent_insert_lock (log_call e s) = thr_upgraded_concurrent_insert_lock s"
  by (simp_all add: log_call_def)

lemma call_get_status_simps [simp]:
  "locks (call_get_status l d ci s) = locks s" "datas (call_get_status l d ci s) = datas s"
  "owner_info (call_get_status l d ci s) = owner_info s" "infos (call_get_status l d ci s) = infos s"
  "thr_upgraded_concurrent_insert_lock (call_get_status l d ci s) = thr_upgraded_concurrent_insert_lock s"
  by (simp_all add: call_get_status_def)

text \<open>What no operation changes, apart from the lock it works on and the instances in its lists.\<close>

definition same_env :: "nat \<Rightarrow> nat set \<Rightarrow> thr_state \<Rightarrow> thr_state \<Rightarrow> bool" where
  "same_env l X s s' \<longleftrightarrow>
     (\<forall>k. k \<noteq> l \<longrightarrow> locks s' k = locks s k) \<and>
     (\<forall>d. d \<notin> X \<longrightarrow> datas s' d = datas s d) \<and>
     (\<forall>d. owner (datas s' d) = owner (datas s d) \<and> lock_of (datas s' d) = lock_of (datas s d)) \<and>
     check_status (locks s' l) = check_status (locks s l) \<and>
     owner_info s' = owner_info s \<and> infos s' = infos s \<and>
     thr_upgraded_concurrent_insert_lock s' = thr_upgraded_concurrent_insert_lock s"

lemma same_env_refl [simp]: "same_env l X s s"
  by (simp add: same_env_def)

lemma same_env_trans: "same_env l X s t \<Longrightarrow> same_env l X t u \<Longrightarrow> same_env l X s u"
  by (simp add: same_env_def)

lemma same_env_mono: "same_env l X s t \<Longrightarrow> X \<subseteq> Y \<Longrightarrow> same_env l Y s t"
  by (auto simp: same_env_def)

subsection \<open>Giving read locks\<close>

lemma free_read_loop_keep:
  "type_at s d = TL_READ_NO_INSERT \<and> ci \<Longrightarrow>
     free_read_loop s l ci (d # ds) = free_read_loop (upd_lock l (\<lambda>L. L\<lparr>read_wait := read_wait L @ [d]\<rparr>) s) l ci ds"
  by simp

lemma free_read_loop_give:
  assumes "\<not> (type_at s d = TL_READ_NO_INSERT \<and> ci)"
  shows "free_read_loop s l ci (d # ds) =
     free_read_loop (log_call (Signal d) (upd_data d (\<lambda>x. x\<lparr>cond := False\<rparr>)
       (upd_lock l (\<lambda>L. L\<lparr>reads := reads L @ [d],
          read_no_write_count := read_no_write_count L + (if type_at s d = TL_READ_NO_INSERT then 1 else 0)\<rparr>) s))) l ci ds"
  by (simp only: free_read_loop.simps assms if_False Let_def)

lemma free_read_loop_env: "same_env l (set ds) s (free_read_loop s l ci ds)"
proof (induction ds arbitrary: s)
  case (Cons d ds)
  show ?case
  proof (cases "type_at s d = TL_READ_NO_INSERT \<and> ci")
    case True
    show ?thesis unfolding free_read_loop_keep[OF True]
      by (rule same_env_trans[OF _ same_env_mono[OF Cons.IH]]) (auto simp: same_env_def)
  next
    case False
    show ?thesis unfolding free_read_loop_give[OF False]
      by (rule same_env_trans[OF _ same_env_mono[OF Cons.IH]]) (auto simp: same_env_def)
  qed
qed simp

lemma free_read_loop_datas:
  assumes "\<And>x. type_at s x = ty x"
  shows "datas (free_read_loop s l ci ds) =
     (\<lambda>d. if d \<in> set ds \<and> \<not> (ty d = TL_READ_NO_INSERT \<and> ci) then (datas s d)\<lparr>cond := False\<rparr> else datas s d)"
  using assms
proof (induction ds arbitrary: s)
  case (Cons d ds)
  show ?case
  proof (cases "type_at s d = TL_READ_NO_INSERT \<and> ci")
    case True
    then have "ty d = TL_READ_NO_INSERT \<and> ci" using Cons.prems by simp
    then show ?thesis unfolding free_read_loop_keep[OF True]
      by (subst Cons.IH) (auto simp: Cons.prems fun_eq_iff)
  next
    case False
    then have "\<not> (ty d = TL_READ_NO_INSERT \<and> ci)" using Cons.prems by simp
    then show ?thesis unfolding free_read_loop_give[OF False]
      by (subst Cons.IH) (auto simp: Cons.prems fun_eq_iff)
  qed
qed simp

lemma free_read_loop_lock:
  assumes "\<And>x. type_at s x = ty x"
  shows "locks (free_read_loop s l ci ds) l =
     (locks s l)\<lparr>reads := reads (locks s l) @ filter (\<lambda>d. \<not> (ty d = TL_READ_NO_INSERT \<and> ci)) ds,
        read_wait := read_wait (locks s l) @ filter (\<lambda>d. ty d = TL_READ_NO_INSERT \<and> ci) ds,
        read_no_write_count := read_no_write_count (locks s l) +
          length (filter (\<lambda>d. \<not> (ty d = TL_READ_NO_INSERT \<and> ci) \<and> ty d = TL_READ_NO_INSERT) ds)\<rparr>"
  using assms
proof (induction ds arbitrary: s)
  case (Cons d ds)
  show ?case
  proof (cases "type_at s d = TL_READ_NO_INSERT \<and> ci")
    case True
    then have "ty d = TL_READ_NO_INSERT \<and> ci" using Cons.prems by simp
    then show ?thesis unfolding free_read_loop_keep[OF True]
      by (subst Cons.IH) (simp_all add: Cons.prems)
  next
    case False
    then have "\<not> (ty d = TL_READ_NO_INSERT \<and> ci)" using Cons.prems by simp
    then show ?thesis unfolding free_read_loop_give[OF False]
      by (subst Cons.IH) (auto simp: Cons.prems)
  qed
qed simp

lemma free_all_eq:
  fixes s l ci
  defines "L \<equiv> locks s l" and "ty \<equiv> type_at s"
  defines "s' \<equiv> free_all_read_locks s l ci"
  shows free_all_reads: "reads (locks s' l) = reads L @ filter (\<lambda>d. \<not> (ty d = TL_READ_NO_INSERT \<and> ci)) (read_wait L)"
    and free_all_read_wait: "read_wait (locks s' l) = filter (\<lambda>d. ty d = TL_READ_NO_INSERT \<and> ci) (read_wait L)"
    and free_all_writes: "writes (locks s' l) = writes L" "write_wait (locks s' l) = write_wait L"
    and free_all_count: "read_no_write_count (locks s' l) = read_no_write_count L +
          length (filter (\<lambda>d. \<not> (ty d = TL_READ_NO_INSERT \<and> ci) \<and> ty d = TL_READ_NO_INSERT) (read_wait L))"
    and free_all_datas: "datas s' = (\<lambda>d. if d \<in> set (read_wait L) \<and> \<not> (ty d = TL_READ_NO_INSERT \<and> ci)
          then (datas s d)\<lparr>cond := False\<rparr> else datas s d)"
    and free_all_env: "same_env l (set (read_wait L)) s s'"
proof -
  let ?s0 = "upd_lock l (\<lambda>L. L\<lparr>read_wait := []\<rparr>) s"
  let ?s1 = "free_read_loop ?s0 l ci (read_wait L)"
  have ty: "type_at ?s0 x = ty x" for x by (simp add: ty_def)
  have L1: "locks ?s1 l = L\<lparr>reads := reads L @ filter (\<lambda>d. \<not> (ty d = TL_READ_NO_INSERT \<and> ci)) (read_wait L),
      read_wait := filter (\<lambda>d. ty d = TL_READ_NO_INSERT \<and> ci) (read_wait L),
      read_no_write_count := read_no_write_count L +
        length (filter (\<lambda>d. \<not> (ty d = TL_READ_NO_INSERT \<and> ci) \<and> ty d = TL_READ_NO_INSERT) (read_wait L))\<rparr>"
    using free_read_loop_lock[OF ty, of l ci "read_wait L"] by (simp add: L_def)
  have D1: "datas ?s1 = (\<lambda>d. if d \<in> set (read_wait L) \<and> \<not> (ty d = TL_READ_NO_INSERT \<and> ci)
          then (datas s d)\<lparr>cond := False\<rparr> else datas s d)"
    using free_read_loop_datas[OF ty, of l ci "read_wait L"] by (simp only: upd_lock_simps)
  have e0: "same_env l (set (read_wait L)) s ?s0" by (simp add: same_env_def)
  have E1: "same_env l (set (read_wait L)) s ?s1"
    by (rule same_env_trans[OF e0 free_read_loop_env])
  have s': "s' = (if read_wait (locks ?s1 l) = [] then upd_lock l (\<lambda>L. L\<lparr>write_lock_count := 0\<rparr>) ?s1 else ?s1)"
    by (simp only: s'_def free_all_read_locks_def Let_def L_def)
  have Ls': "locks s' l = (locks ?s1 l)\<lparr>write_lock_count :=
      (if read_wait (locks ?s1 l) = [] then 0 else write_lock_count (locks ?s1 l))\<rparr>"
    unfolding s' by (simp split: if_split)
  have Ds': "datas s' = datas ?s1" unfolding s' by (simp split: if_split)
  have Es': "same_env l (set (read_wait L)) ?s1 s'" unfolding s' by (simp add: same_env_def)
  show "reads (locks s' l) = reads L @ filter (\<lambda>d. \<not> (ty d = TL_READ_NO_INSERT \<and> ci)) (read_wait L)"
    "read_wait (locks s' l) = filter (\<lambda>d. ty d = TL_READ_NO_INSERT \<and> ci) (read_wait L)"
    "writes (locks s' l) = writes L" "write_wait (locks s' l) = write_wait L"
    "read_no_write_count (locks s' l) = read_no_write_count L +
          length (filter (\<lambda>d. \<not> (ty d = TL_READ_NO_INSERT \<and> ci) \<and> ty d = TL_READ_NO_INSERT) (read_wait L))"
    unfolding Ls' L1 by simp_all
  show "datas s' = (\<lambda>d. if d \<in> set (read_wait L) \<and> \<not> (ty d = TL_READ_NO_INSERT \<and> ci)
          then (datas s d)\<lparr>cond := False\<rparr> else datas s d)"
    unfolding Ds' D1 ..
  show "same_env l (set (read_wait L)) s s'" by (rule same_env_trans[OF E1 Es'])
qed

lemma free_all_data:
  "type_at (free_all_read_locks s l ci) d = type_at s d" "owner_at (free_all_read_locks s l ci) d = owner_at s d"
  "lock_of (datas (free_all_read_locks s l ci) d) = lock_of (datas s d)"
  by (simp_all add: free_all_datas)

lemma free_all_ok:
  assumes ok: "lock_ok l (locks s l) (datas s)"
    and weak: "\<forall>w \<in> set (writes (locks s l)). type_at s w \<le> TL_WRITE_DELAYED"
    and ci: "ci \<or> (\<forall>w \<in> set (writes (locks s l)). type_at s w \<noteq> TL_WRITE_CONCURRENT_INSERT)"
  shows "lock_ok l (locks (free_all_read_locks s l ci) l) (datas (free_all_read_locks s l ci))"
proof -
  let ?s = "free_all_read_locks s l ci"
  let ?L = "locks s l"
  let ?k = "\<lambda>d. type_at s d = TL_READ_NO_INSERT \<and> ci"
  have parts: "ok_members l ?L (datas s)" "ok_types ?L (datas s)" "ok_conds ?L (datas s)" "ok_count ?L (datas s)"
    "ok_writes ?L (datas s)" "ok_beside ?L (datas s)" using ok by (auto simp: lock_ok_def)
  note simps = free_all_reads free_all_read_wait free_all_writes free_all_count free_all_data
  have chk: "check_status (locks ?s l) = check_status ?L" using free_all_env[of l s ci] by (simp add: same_env_def)
  have ms: "mset (members (locks ?s l)) = mset (members ?L)"
  proof -
    have "mset (filter (\<lambda>d. \<not> ?k d) (read_wait ?L)) + mset (filter ?k (read_wait ?L)) = mset (read_wait ?L)"
      by (metis add.commute mset_filter multiset_partition)
    then show ?thesis by (simp add: members_def simps ac_simps)
  qed
  have "distinct (members (locks ?s l))" "length (members (locks ?s l)) < 2 ^ 32" "set (members (locks ?s l)) = set (members ?L)"
    using parts(1) mset_eq_imp_distinct_iff[OF ms] mset_eq_length[OF ms] mset_eq_setD[OF ms]
    by (auto simp: ok_members_def)
  then have "ok_members l (locks ?s l) (datas ?s)" using parts(1) by (simp add: ok_members_def simps)
  moreover have "ok_types (locks ?s l) (datas ?s)" using parts(2) by (auto simp: ok_types_def simps chk)
  moreover have "ok_conds (locks ?s l) (datas ?s)"
  proof -
    have "distinct (members ?L)" using parts(1) by (simp add: ok_members_def)
    then have "set (read_wait ?L) \<inter> (set (reads ?L) \<union> set (writes ?L) \<union> set (write_wait ?L)) = {}"
      by (auto simp: members_def)
    then show ?thesis using parts(3) by (auto simp: ok_conds_def simps free_all_datas)
  qed
  moreover have "ok_count (locks ?s l) (datas ?s)"
    using parts(4) by (simp add: ok_count_def simps conj_commute)
  moreover have "ok_writes (locks ?s l) (datas ?s)" using parts(5) by (simp add: ok_writes_def simps)
  moreover have "ok_beside (locks ?s l) (datas ?s)"
    using parts(6) weak ci by (auto simp: ok_beside_def simps)
  ultimately show ?thesis by (simp add: lock_ok_def)
qed

subsection \<open>Giving write locks\<close>

text \<open>Both loops move a non-empty prefix \<open>gs\<close> of the write queue: one request, or several \<open>TL_WRITE_ALLOW_WRITE\<close>.\<close>

definition granted :: "nat \<Rightarrow> nat list \<Rightarrow> nat list \<Rightarrow> thr_state \<Rightarrow> thr_state \<Rightarrow> bool" where
  "granted l gs rest s s' \<longleftrightarrow> gs \<noteq> [] \<and>
     locks s' l = (locks s l)\<lparr>write_wait := rest, writes := writes (locks s l) @ gs\<rparr> \<and>
     (length gs = 1 \<or> (\<forall>x \<in> set gs. type_at s x = TL_WRITE_ALLOW_WRITE)) \<and> same_env l (set gs) s s' \<and>
     (\<forall>x \<in> set gs. \<not> cond (datas s' x) \<and>
        (type_at s' x = type_at s x \<or> type_at s x = TL_WRITE_CONCURRENT_INSERT \<and> type_at s' x = TL_WRITE))"

lemma granted_ne: "granted l gs rest s s' \<Longrightarrow> gs \<noteq> []"
  by (simp add: granted_def)

lemma granted_lock: "granted l gs rest s s' \<Longrightarrow> locks s' l = (locks s l)\<lparr>write_wait := rest, writes := writes (locks s l) @ gs\<rparr>"
  by (simp only: granted_def)

lemma granted_env: "granted l gs rest s s' \<Longrightarrow> same_env l (set gs) s s'"
  by (simp only: granted_def)

lemma granted_type:
  "granted l gs rest s s' \<Longrightarrow> x \<in> set gs \<Longrightarrow>
     type_at s' x = type_at s x \<or> type_at s x = TL_WRITE_CONCURRENT_INSERT \<and> type_at s' x = TL_WRITE"
  unfolding granted_def by blast

lemma granted_many: "granted l gs rest s s' \<Longrightarrow> length gs = 1 \<or> (\<forall>x \<in> set gs. type_at s x = TL_WRITE_ALLOW_WRITE)"
  unfolding granted_def by blast

lemma granted_same_type:
  assumes g: "granted l gs rest s s'" and xy: "x \<in> set gs" "y \<in> set gs"
  shows "type_at s' x = type_at s' y"
  using granted_many[OF g]
proof
  assume "length gs = 1"
  then obtain a where "gs = [a]" by (auto simp: length_Suc_conv)
  then show ?thesis using xy by simp
next
  assume "\<forall>x \<in> set gs. type_at s x = TL_WRITE_ALLOW_WRITE"
  then have "type_at s x = TL_WRITE_ALLOW_WRITE" "type_at s y = TL_WRITE_ALLOW_WRITE" using xy by auto
  then show ?thesis using granted_type[OF g xy(1)] granted_type[OF g xy(2)] by (auto simp only: thr_lock_type.distinct)
qed

lemma granted_one:
  assumes "s' = log_call (Signal d) (upd_data d (\<lambda>x. x\<lparr>cond := False\<rparr>)
     (if up then upd_data d (\<lambda>x. x\<lparr>type_of := TL_WRITE\<rparr>) s1 else s1))"
    and "s1 = upd_lock l (\<lambda>L. L\<lparr>write_wait := ws, writes := writes L @ [d]\<rparr>) s"
    and "up \<Longrightarrow> type_at s d = TL_WRITE_CONCURRENT_INSERT"
  shows "granted l [d] ws s s'"
  using assms by (auto simp: granted_def same_env_def)

lemma granted_more:
  assumes one: "granted l [d] (d' # ws) s s1" and more: "granted l gs rest s1 s2"
    and d: "type_at s1 d = TL_WRITE_ALLOW_WRITE" and d': "hd gs = d'" "type_at s1 d' = TL_WRITE_ALLOW_WRITE"
  shows "granted l (d # gs) rest s s2"
proof -
  have g: "\<forall>x \<in> set gs. type_at s1 x = TL_WRITE_ALLOW_WRITE"
    using more d' by (cases gs) (auto simp: granted_def)
  have sd: "type_at s d = TL_WRITE_ALLOW_WRITE" using one d by (auto simp: granted_def)
  have was: "type_at s x = TL_WRITE_ALLOW_WRITE" if "x \<in> set gs" for x
    using g that one sd by (cases "x = d") (auto simp: granted_def same_env_def)
  have keep: "\<not> cond (datas s2 x) \<and> type_at s2 x = type_at s x" if "x \<in> set gs" for x
    using that more g was[OF that] by (auto simp: granted_def)
  have fd: "\<not> cond (datas s2 d) \<and> type_at s2 d = type_at s d"
    using keep[of d] one more sd d by (cases "d \<in> set gs") (auto simp: granted_def same_env_def)
  have "same_env l (set (d # gs)) s s2"
    using same_env_trans[OF same_env_mono[of l "{d}" s s1 "set (d # gs)"] same_env_mono[of l "set gs" s1 s2 "set (d # gs)"]]
      one more by (auto simp: granted_def)
  then show ?thesis using one more was keep fd sd by (auto simp: granted_def)
qed

lemma grant_writes_alone_granted:
  "grant_writes_alone s l ws d = (s', d2) \<Longrightarrow>
     \<exists>gs rest. d # ws = gs @ rest \<and> granted l gs rest s s' \<and> d2 = last gs"
proof (induction ws arbitrary: s d)
  case Nil
  let ?up = "type_at s d = TL_WRITE_CONCURRENT_INSERT \<and> call_check_status s l d"
  have "granted l [d] [] s s'" "d2 = d"
    using Nil granted_one[of s' d ?up _ l "[]" s] by (auto simp: Let_def)
  then show ?case by (intro exI[of _ "[d]"] exI[of _ "[]"]) simp
next
  case (Cons d' ws)
  let ?up = "type_at s d = TL_WRITE_CONCURRENT_INSERT \<and> call_check_status s l d"
  let ?s1 = "upd_lock l (\<lambda>L. L\<lparr>write_wait := d' # ws, writes := writes L @ [d]\<rparr>) s"
  let ?s3 = "log_call (Signal d) (upd_data d (\<lambda>x. x\<lparr>cond := False\<rparr>)
     (if ?up then upd_data d (\<lambda>x. x\<lparr>type_of := TL_WRITE\<rparr>) ?s1 else ?s1))"
  have one: "granted l [d] (d' # ws) s ?s3" by (rule granted_one[OF refl refl]) simp
  have eq: "grant_writes_alone s l (d' # ws) d =
     (if type_at ?s3 d \<noteq> TL_WRITE_ALLOW_WRITE \<or> type_at ?s3 d' \<noteq> TL_WRITE_ALLOW_WRITE then (?s3, d)
      else grant_writes_alone ?s3 l ws d')"
    by (subst grant_writes_alone.simps) (simp only: Let_def list.case)
  show ?case
  proof (cases "type_at ?s3 d \<noteq> TL_WRITE_ALLOW_WRITE \<or> type_at ?s3 d' \<noteq> TL_WRITE_ALLOW_WRITE")
    case True
    then have "s' = ?s3" "d2 = d" using Cons.prems unfolding eq by auto
    then show ?thesis using one by (intro exI[of _ "[d]"] exI[of _ "d' # ws"]) simp
  next
    case False
    then have rec: "grant_writes_alone ?s3 l ws d' = (s', d2)" using Cons.prems unfolding eq by simp
    obtain gs rest where g: "d' # ws = gs @ rest" "granted l gs rest ?s3 s'" "d2 = last gs"
      using Cons.IH[OF rec] by blast
    have ne: "gs \<noteq> []" using granted_ne[OF g(2)] .
    then have "hd gs = d'" using g(1) by (cases gs) auto
    then have "granted l (d # gs) rest s s'"
      using False by (intro granted_more[OF one g(2)]) auto
    then show ?thesis using g ne by (intro exI[of _ "d # gs"] exI[of _ rest]) simp
  qed
qed

lemma grant_writes_beside_granted:
  "type_at s d = lt \<Longrightarrow> \<exists>gs rest. d # ws = gs @ rest \<and> granted l gs rest s (grant_writes_beside s l lt (d # ws)) \<and>
     (\<forall>x. type_at (grant_writes_beside s l lt (d # ws)) x = type_at s x) \<and> (\<forall>x \<in> set gs. type_at s x = lt)"
proof (induction ws arbitrary: s d)
  case Nil
  let ?s' = "grant_writes_beside s l lt [d]"
  have "?s' = log_call (Signal d) (upd_data d (\<lambda>x. x\<lparr>cond := False\<rparr>) (upd_lock l (\<lambda>L. L\<lparr>write_wait := [], writes := writes L @ [d]\<rparr>) s))"
    by (simp add: Let_def)
  then have "granted l [d] [] s ?s'" "\<forall>x. type_at ?s' x = type_at s x"
    using granted_one[of ?s' d False] by auto
  then show ?case using Nil by (intro exI[of _ "[d]"] exI[of _ "[]"]) simp
next
  case (Cons d' ws)
  let ?s2 = "log_call (Signal d) (upd_data d (\<lambda>x. x\<lparr>cond := False\<rparr>)
     (upd_lock l (\<lambda>L. L\<lparr>write_wait := d' # ws, writes := writes L @ [d]\<rparr>) s))"
  have one: "granted l [d] (d' # ws) s ?s2" by (rule granted_one[of _ _ False]) auto
  have ty: "type_at ?s2 x = type_at s x" for x by simp
  have eq: "grant_writes_beside s l lt (d # d' # ws) =
     (if lt = TL_WRITE_ALLOW_WRITE \<and> type_at ?s2 d' = TL_WRITE_ALLOW_WRITE then grant_writes_beside ?s2 l lt (d' # ws) else ?s2)"
    by (subst grant_writes_beside.simps) (simp only: Let_def list.case)
  show ?case
  proof (cases "lt = TL_WRITE_ALLOW_WRITE \<and> type_at ?s2 d' = TL_WRITE_ALLOW_WRITE")
    case False
    show ?thesis unfolding eq if_not_P[OF False]
      using one ty Cons.prems by (intro exI[of _ "[d]"] exI[of _ "d' # ws"]) simp
  next
    case True
    have "type_at ?s2 d' = lt" using True by simp
    from Cons.IH[OF this] obtain gs rest where g: "d' # ws = gs @ rest"
      "granted l gs rest ?s2 (grant_writes_beside ?s2 l lt (d' # ws))"
      "\<forall>x. type_at (grant_writes_beside ?s2 l lt (d' # ws)) x = type_at ?s2 x" "\<forall>x \<in> set gs. type_at ?s2 x = lt" by blast
    have "gs \<noteq> []" using granted_ne[OF g(2)] .
    then have "hd gs = d'" using g(1) by (cases gs) auto
    then have "granted l (d # gs) rest s (grant_writes_beside ?s2 l lt (d' # ws))"
      using True Cons.prems by (intro granted_more[OF one g(2)]) (simp_all only: ty)
    then show ?thesis unfolding eq if_P[OF True]
      using g ty Cons.prems by (intro exI[of _ "d # gs"] exI[of _ rest]) (simp only: append_Cons set_simps ball_simps simp_thms)
  qed
qed

text \<open>Granting keeps the invariant when the granted types may run beside the readers there are.\<close>

lemma granted_ok:
  assumes ok: "lock_ok l (locks s l) (datas s)" and w: "writes (locks s l) = []"
    and q: "write_wait (locks s l) = gs @ rest" and g: "granted l gs rest s s'"
    and beside: "reads (locks s l) = [] \<or>
      (\<forall>x \<in> set gs. type_at s' x \<le> TL_WRITE_DELAYED \<and>
         (type_at s' x = TL_WRITE_CONCURRENT_INSERT \<longrightarrow> read_no_write_count (locks s l) = 0))"
  shows "lock_ok l (locks s' l) (datas s')"
proof -
  let ?L = "locks s l"
  have parts: "ok_members l ?L (datas s)" "ok_types ?L (datas s)" "ok_conds ?L (datas s)" "ok_count ?L (datas s)"
    "ok_beside ?L (datas s)" using ok by (auto simp: lock_ok_def)
  have L': "locks s' l = ?L\<lparr>write_wait := rest, writes := gs\<rparr>" using g w by (simp add: granted_def)
  have env: "same_env l (set gs) s s'" using g by (simp add: granted_def)
  have own: "owner (datas s' x) = owner (datas s x)" "lock_of (datas s' x) = lock_of (datas s x)" for x
    using env by (auto simp: same_env_def)
  have out: "x \<notin> set gs \<Longrightarrow> datas s' x = datas s x" for x using env by (simp add: same_env_def)
  have gty: "x \<in> set gs \<Longrightarrow> type_at s' x = type_at s x \<or> type_at s x = TL_WRITE_CONCURRENT_INSERT \<and> type_at s' x = TL_WRITE"
    and gc: "x \<in> set gs \<Longrightarrow> \<not> cond (datas s' x)" for x using g by (auto simp: granted_def)
  have dis: "distinct (members ?L)" using parts(1) by (simp add: ok_members_def)
  then have sep: "set gs \<inter> (set (reads ?L) \<union> set (read_wait ?L) \<union> set rest) = {}"
    using q w by (auto simp: members_def)
  have same: "x \<in> set (reads ?L) \<union> set (read_wait ?L) \<union> set rest \<Longrightarrow> datas s' x = datas s x" for x
    using out sep by blast
  have ms: "mset (members (locks s' l)) = mset (members ?L)"
    unfolding L' members_def using q w by simp
  have "distinct (members (locks s' l))" "length (members (locks s' l)) < 2 ^ 32" "set (members (locks s' l)) = set (members ?L)"
    using parts(1) mset_eq_imp_distinct_iff[OF ms] mset_eq_length[OF ms] mset_eq_setD[OF ms]
    by (auto simp: ok_members_def)
  then have "ok_members l (locks s' l) (datas s')" using parts(1) own by (simp add: ok_members_def)
  moreover have "ok_types (locks s' l) (datas s')"
  proof -
    have "TL_WRITE_ALLOW_WRITE \<le> type_at s' x \<and> type_at s' x \<noteq> TL_WRITE_DEFAULT \<and>
        (type_at s' x = TL_WRITE_CONCURRENT_INSERT \<longrightarrow> check_status ?L \<noteq> None)" if "x \<in> set gs" for x
    proof -
      have "TL_WRITE_ALLOW_WRITE \<le> type_at s x \<and> type_at s x \<noteq> TL_WRITE_DEFAULT \<and>
        (type_at s x = TL_WRITE_CONCURRENT_INSERT \<longrightarrow> check_status ?L \<noteq> None)"
        using ok_types_write[OF parts(2), of x] that q by simp
      then show ?thesis using gty[OF that] by (elim disjE) (simp_all add: tl_order)
    qed
    then show ?thesis using parts(2) q same unfolding L' by (auto simp: ok_types_def)
  qed
  moreover have "ok_conds (locks s' l) (datas s')"
    using parts(3) q same gc unfolding L' by (auto simp: ok_conds_def)
  moreover have "ok_count (locks s' l) (datas s')"
  proof -
    have "filter (\<lambda>d. type_at s' d = TL_READ_NO_INSERT) (reads ?L) = filter (\<lambda>d. type_at s d = TL_READ_NO_INSERT) (reads ?L)"
      using same by (intro filter_cong) auto
    then show ?thesis using parts(4) unfolding L' by (simp add: ok_count_def)
  qed
  moreover have "ok_writes (locks s' l) (datas s')"
  proof (cases "length gs = 1")
    case True
    then obtain d where "gs = [d]" by (auto simp: length_Suc_conv)
    then show ?thesis unfolding L' by (auto simp: ok_writes_def)
  next
    case False
    then have "\<forall>x \<in> set gs. type_at s x = TL_WRITE_ALLOW_WRITE" using g by (auto simp: granted_def)
    then have "\<forall>x \<in> set gs. type_at s' x = TL_WRITE_ALLOW_WRITE" using gty by fastforce
    then show ?thesis unfolding L' by (auto simp: ok_writes_def sorted_wrt_iff_nth_less)
  qed
  moreover have "ok_beside (locks s' l) (datas s')"
  proof -
    have "type_at s r \<noteq> TL_READ_NO_INSERT" if "read_no_write_count ?L = 0" "r \<in> set (reads ?L)" for r
      using that parts(4) by (auto simp: ok_count_def filter_empty_conv)
    then show ?thesis using beside same unfolding L' by (auto simp: ok_beside_def)
  qed
  ultimately show ?thesis by (simp add: lock_ok_def)
qed

subsection \<open>Waking up waiters\<close>

text \<open>What an operation on lock \<open>l\<close> must establish.\<close>

definition good_step :: "nat \<Rightarrow> thr_state \<Rightarrow> thr_state \<Rightarrow> bool" where
  "good_step l s s' \<longleftrightarrow> lock_ok l (locks s' l) (datas s') \<and> lock_awake (locks s' l) \<and> same_env l (set (members (locks s l))) s s'"

lemma lock_awake_write: "writes L \<noteq> [] \<Longrightarrow> lock_awake L"
  by (simp add: lock_awake_def)

lemma lock_ok_cong:
  "reads L' = reads L \<Longrightarrow> writes L' = writes L \<Longrightarrow> read_wait L' = read_wait L \<Longrightarrow> write_wait L' = write_wait L \<Longrightarrow>
     read_no_write_count L' = read_no_write_count L \<Longrightarrow> check_status L' = check_status L \<Longrightarrow> lock_ok l L' D = lock_ok l L D"
  by (simp only: lock_ok_def ok_defs members_def)

lemma lock_ok_count_irrelevant: "lock_ok l (L\<lparr>write_lock_count := n\<rparr>) D = lock_ok l L D"
  by (rule lock_ok_cong) simp_all

lemma free_all_good:
  assumes ok: "lock_ok l (locks s l) (datas s)" and w: "writes (locks s l) = []" and ne: "read_wait (locks s l) \<noteq> []"
  shows "good_step l s (free_all_read_locks s l False)"
proof -
  have "lock_ok l (locks (free_all_read_locks s l False) l) (datas (free_all_read_locks s l False))"
    using ok w by (intro free_all_ok) auto
  moreover have "lock_awake (locks (free_all_read_locks s l False) l)"
    using ne by (simp add: lock_awake_def free_all_reads free_all_read_wait)
  moreover have "same_env l (set (members (locks s l))) s (free_all_read_locks s l False)"
    by (rule same_env_mono[OF free_all_env]) (auto simp: members_def)
  ultimately show ?thesis by (simp add: good_step_def)
qed

text \<open>Granting writers and then the readers that may run beside them.\<close>

lemma granted_then_free_good:
  assumes ok: "lock_ok l (locks s l) (datas s)" and w: "writes (locks s l) = []"
    and q: "write_wait (locks s l) = gs @ rest" and g: "granted l gs rest s s'"
    and beside: "reads (locks s l) = [] \<or>
      (\<forall>x \<in> set gs. type_at s' x \<le> TL_WRITE_DELAYED \<and>
         (type_at s' x = TL_WRITE_CONCURRENT_INSERT \<longrightarrow> read_no_write_count (locks s l) = 0))"
    and s'': "s'' = s' \<or>
      (\<forall>x \<in> set gs. type_at s' x \<le> TL_WRITE_DELAYED) \<and> s'' = free_all_read_locks s' l ci \<and>
      (ci \<or> (\<forall>x \<in> set gs. type_at s' x \<noteq> TL_WRITE_CONCURRENT_INSERT))"
  shows "good_step l s s''"
proof -
  have ok': "lock_ok l (locks s' l) (datas s')" by (rule granted_ok[OF ok w q g beside])
  have w': "writes (locks s' l) = gs" and ne: "gs \<noteq> []" and rw: "read_wait (locks s' l) = read_wait (locks s l)"
    using granted_lock[OF g] w granted_ne[OF g] by simp_all
  have env: "same_env l (set (members (locks s l))) s s'"
    by (rule same_env_mono[OF granted_env[OF g]]) (auto simp: members_def q)
  show ?thesis
  proof (cases "s'' = s'")
    case True then show ?thesis using ok' env w' ne by (simp add: good_step_def lock_awake_write)
  next
    case False
    then have fr: "s'' = free_all_read_locks s' l ci" "\<forall>x \<in> set gs. type_at s' x \<le> TL_WRITE_DELAYED"
      "ci \<or> (\<forall>x \<in> set gs. type_at s' x \<noteq> TL_WRITE_CONCURRENT_INSERT)" using s'' by auto
    have "lock_ok l (locks s'' l) (datas s'')" unfolding fr(1) using ok' fr w' by (intro free_all_ok) auto
    moreover have "lock_awake (locks s'' l)" unfolding fr(1) using w' ne by (intro lock_awake_write) (simp add: free_all_writes)
    moreover have "same_env l (set (members (locks s l))) s' s''"
      unfolding fr(1) by (rule same_env_mono[OF free_all_env]) (auto simp: members_def rw)
    ultimately show ?thesis using same_env_trans[OF env] by (simp add: good_step_def)
  qed
qed

lemma tl_write_cases:
  "TL_WRITE_ALLOW_WRITE \<le> t \<Longrightarrow> t \<noteq> TL_WRITE_DEFAULT \<Longrightarrow> \<not> TL_WRITE_LOW_PRIORITY \<le> t \<Longrightarrow> t \<le> TL_WRITE_DELAYED"
  by (cases t) (simp_all add: tl_order)

text \<open>Changing only the counter of consecutive write locks.\<close>

lemma set_write_lock_count:
  fixes s l n
  defines "s1 \<equiv> upd_lock l (\<lambda>L. L\<lparr>write_lock_count := n L\<rparr>) s"
  shows "locks s1 l = (locks s l)\<lparr>write_lock_count := n (locks s l)\<rparr>" "datas s1 = datas s"
    "lock_ok l (locks s1 l) (datas s1) = lock_ok l (locks s l) (datas s)"
    "members (locks s1 l) = members (locks s l)" "same_env l X s s1"
  by (simp_all add: s1_def lock_ok_count_irrelevant members_def same_env_def)

lemma good_step_after_count:
  assumes "good_step l (upd_lock l (\<lambda>L. L\<lparr>write_lock_count := n L\<rparr>) s) s'"
  shows "good_step l s s'"
  using assms same_env_trans[OF set_write_lock_count(5)] by (simp only: good_step_def set_write_lock_count(4)) blast

text \<open>The granting branch of \<open>wake_when_free\<close>, from the state after the counter was set.\<close>

lemma wake_alone_good:
  assumes ok: "lock_ok l (locks s l) (datas s)" and w: "writes (locks s l) = []" and r: "reads (locks s l) = []"
    and q: "write_wait (locks s l) = d # ws" and g2: "grant_writes_alone s l ws d = (s2, d2)"
    and s3: "s3 = (if TL_WRITE_LOW_PRIORITY \<le> type_at s2 d2 then s2
          else if read_wait (locks s2 l) \<noteq> [] then free_all_read_locks s2 l
             (type_at s2 d2 = TL_WRITE_CONCURRENT_INSERT \<or> type_at s2 d2 = TL_WRITE_ALLOW_WRITE) else s2)"
  shows "good_step l s s3"
proof -
  obtain gs rest where gs: "d # ws = gs @ rest" "granted l gs rest s s2" "d2 = last gs"
    using grant_writes_alone_granted[OF g2] by blast
  have q1: "write_wait (locks s l) = gs @ rest" using q gs(1) by simp
  have "lock_ok l (locks s2 l) (datas s2)"
    by (rule granted_ok[OF ok w q1 gs(2)]) (simp only: r simp_thms)
  then have tys: "ok_types (locks s2 l) (datas s2)" by (simp only: lock_ok_def)
  have d2: "d2 \<in> set gs" using gs(3) granted_ne[OF gs(2)] by simp
  then have "d2 \<in> set (writes (locks s2 l)) \<union> set (write_wait (locks s2 l))" using granted_lock[OF gs(2)] by simp
  from ok_types_write[OF tys this]
  have ty: "TL_WRITE_ALLOW_WRITE \<le> type_at s2 d2" "type_at s2 d2 \<noteq> TL_WRITE_DEFAULT" by blast+
  let ?ci = "type_at s2 d2 = TL_WRITE_CONCURRENT_INSERT \<or> type_at s2 d2 = TL_WRITE_ALLOW_WRITE"
  have all: "type_at s2 x = type_at s2 d2" if "x \<in> set gs" for x using granted_same_type[OF gs(2) that d2] .
  have delayed: "\<not> TL_WRITE_LOW_PRIORITY \<le> type_at s2 d2 \<Longrightarrow> type_at s2 d2 \<le> TL_WRITE_DELAYED" using tl_write_cases ty by blast
  have fin: "s3 = s2 \<or> (\<forall>x \<in> set gs. type_at s2 x \<le> TL_WRITE_DELAYED) \<and>
      s3 = free_all_read_locks s2 l ?ci \<and> (?ci \<or> (\<forall>x \<in> set gs. type_at s2 x \<noteq> TL_WRITE_CONCURRENT_INSERT))"
    unfolding s3 using all delayed by (simp split: if_split) blast
  show ?thesis by (rule granted_then_free_good[OF ok w q1 gs(2) _ fin]) (simp only: r simp_thms)
qed

lemma wake_when_free_good:
  assumes ok: "lock_ok l (locks s l) (datas s)" and w: "writes (locks s l) = []" and r: "reads (locks s l) = []"
  shows "good_step l s (wake_when_free s l)"
proof (cases "write_wait (locks s l)")
  case Nil
  then show ?thesis using ok free_all_good[OF ok w]
    by (cases "read_wait (locks s l) = []") (simp_all add: wake_when_free_def good_step_def lock_awake_def)
next
  case (Cons d ws)
  let ?chosen = "type_at s d \<noteq> TL_WRITE_LOW_PRIORITY \<or>
             (case read_wait (locks s l) of [] \<Rightarrow> True | r # _ \<Rightarrow> type_at s r < TL_READ_HIGH_PRIORITY)"
  let ?over = "max_write_lock_count s < write_lock_count (locks s l)"
  let ?s1 = "upd_lock l (\<lambda>L. L\<lparr>write_lock_count := (if ?over then 0 else write_lock_count L + 1)\<rparr>) s"
  note cnt = set_write_lock_count[where l = l and s = s and n = "\<lambda>L. if ?over then 0 else write_lock_count L + 1"]
  have ok1: "lock_ok l (locks ?s1 l) (datas ?s1)" unfolding cnt(3) by (rule ok)
  have L1: "writes (locks ?s1 l) = []" "reads (locks ?s1 l) = []" "read_wait (locks ?s1 l) = read_wait (locks s l)"
    "write_wait (locks ?s1 l) = d # ws" unfolding cnt(1) using w r Cons by simp_all
  show ?thesis
  proof (cases ?chosen)
    case False
    then have "read_wait (locks s l) \<noteq> []" "type_at s d = TL_WRITE_LOW_PRIORITY" by auto
    then show ?thesis
      using free_all_good[OF ok w] False Cons by (simp add: wake_when_free_def)
  next
    case chosen: True
    show ?thesis
    proof (cases "?over \<and> read_wait (locks s l) \<noteq> []")
      case True
      have "wake_when_free s l = free_all_read_locks ?s1 l False"
        unfolding wake_when_free_def Let_def Cons list.case if_P[OF chosen] if_P[OF True] ..
      then show ?thesis
        using good_step_after_count[OF free_all_good[OF ok1 L1(1)]] L1(3) True by simp
    next
      case False
      obtain s2 d2 where g2: "grant_writes_alone ?s1 l ws d = (s2, d2)" by fastforce
      have "wake_when_free s l = (if TL_WRITE_LOW_PRIORITY \<le> type_at s2 d2 then s2
          else if read_wait (locks s2 l) \<noteq> [] then free_all_read_locks s2 l
             (type_at s2 d2 = TL_WRITE_CONCURRENT_INSERT \<or> type_at s2 d2 = TL_WRITE_ALLOW_WRITE) else s2)"
        unfolding wake_when_free_def Let_def Cons list.case if_P[OF chosen] if_not_P[OF False] g2 prod.case ..
      from wake_alone_good[OF ok1 L1(1,2,4) g2 this] show ?thesis by (rule good_step_after_count)
    qed
  qed
qed

text \<open>A waiting writer changes its type.\<close>

lemma lock_ok_retype:
  assumes ok: "lock_ok l L D" and d: "d \<in> set (write_wait L)"
    and t: "TL_WRITE_ALLOW_WRITE \<le> t" "t \<noteq> TL_WRITE_DEFAULT" "t \<noteq> TL_WRITE_CONCURRENT_INSERT"
  shows "lock_ok l L (D(d := (D d)\<lparr>type_of := t\<rparr>))"
proof -
  have parts: "ok_members l L D" "ok_types L D" "ok_conds L D" "ok_count L D" "ok_writes L D" "ok_beside L D"
    using ok by (simp_all only: lock_ok_def)
  have "d \<notin> set (reads L)" "d \<notin> set (writes L)" "d \<notin> set (read_wait L)"
    using parts(1) d by (auto simp: ok_members_def members_def)
  note n = this
  let ?D = "D(d := (D d)\<lparr>type_of := t\<rparr>)"
  have out: "x \<noteq> d \<Longrightarrow> ?D x = D x" for x by simp
  have r: "x \<in> set (reads L) \<Longrightarrow> ?D x = D x" and w: "x \<in> set (writes L) \<Longrightarrow> ?D x = D x" for x using n by auto
  have "ok_members l L ?D" using parts(1) by (simp add: ok_members_def)
  moreover have "ok_types L ?D" using parts(2) t n by (auto simp: ok_types_def)
  moreover have "ok_conds L ?D" using parts(3) by (simp add: ok_conds_def)
  moreover have "ok_count L ?D"
    using parts(4) filter_cong[of "reads L" "reads L" "\<lambda>x. type_of (?D x) = TL_READ_NO_INSERT" "\<lambda>x. type_of (D x) = TL_READ_NO_INSERT"] r
    by (simp add: ok_count_def)
  moreover have "ok_writes L ?D"
  proof -
    have "sorted_wrt (\<lambda>a b. type_of (D b) \<le> type_of (D a)) (writes L)" using parts(5) by (simp only: ok_writes_def)
    then have "sorted_wrt (\<lambda>a b. type_of (?D b) \<le> type_of (?D a)) (writes L)"
      by (rule sorted_wrt_mono_rel[rotated]) (simp only: w)
    then show ?thesis using parts(5) w by (simp only: ok_writes_def simp_thms cong: ball_cong bex_cong)
  qed
  moreover have "ok_beside L ?D" using parts(6) r w by (simp only: ok_beside_def cong: ball_cong)
  ultimately show ?thesis by (simp only: lock_ok_def)
qed

lemma wake_beside_reads_good:
  assumes ok: "lock_ok l (locks s l) (datas s)" and w: "writes (locks s l) = []" and r: "reads (locks s l) \<noteq> []"
  shows "good_step l s (wake_beside_reads s l)"
proof (cases "write_wait (locks s l)")
  case Nil
  then show ?thesis using ok r free_all_good[OF ok w]
    by (cases "read_wait (locks s l) = []") (simp_all add: wake_beside_reads_def good_step_def lock_awake_def)
next
  case (Cons d ws)
  let ?t = "type_at s d"
  let ?s1 = "upd_data d (\<lambda>x. x\<lparr>type_of := TL_WRITE\<rparr>) s"
  have stay: "good_step l s s" using ok r Cons by (simp add: good_step_def lock_awake_def)
  show ?thesis
  proof (cases "write_beside_reads s l ?t")
    case False
    then show ?thesis using stay Cons by (simp add: wake_beside_reads_def)
  next
    case beside: True
    show ?thesis
    proof (cases "?t = TL_WRITE_CONCURRENT_INSERT \<and> call_check_status s l d")
      case True
      have ok1: "lock_ok l (locks ?s1 l) (datas ?s1)"
        using lock_ok_retype[OF ok, of d TL_WRITE] Cons by (simp add: tl_order)
      have env1: "same_env l (set (members (locks s l))) s ?s1" using Cons by (simp add: same_env_def members_def)
      have eq: "wake_beside_reads s l = (if read_wait (locks s l) \<noteq> [] then free_all_read_locks ?s1 l False else ?s1)"
        unfolding wake_beside_reads_def Let_def Cons list.case if_P[OF beside] if_P[OF True] ..
      have "good_step l ?s1 (wake_beside_reads s l)"
        unfolding eq using free_all_good[OF ok1] w r Cons ok1 by (simp add: good_step_def lock_awake_def)
      then show ?thesis using same_env_trans[OF env1] by (simp add: good_step_def)
    next
      case False
      define s2 where "s2 = grant_writes_beside s l ?t (d # ws)"
      let ?ci = "?t = TL_WRITE_CONCURRENT_INSERT \<or> ?t = TL_WRITE_ALLOW_WRITE"
      obtain gs rest where gs: "d # ws = gs @ rest" "granted l gs rest s s2"
        "\<forall>x. type_at s2 x = type_at s x" "\<forall>x \<in> set gs. type_at s x = ?t"
        unfolding s2_def using grant_writes_beside_granted[where s = s and l = l and lt = ?t and d = d and ws = ws] by blast
      have eq: "wake_beside_reads s l = (if read_wait (locks s2 l) \<noteq> [] then free_all_read_locks s2 l ?ci else s2)"
        unfolding wake_beside_reads_def Let_def Cons list.case if_P[OF beside] if_not_P[OF False] s2_def ..
      have t: "?t \<le> TL_WRITE_DELAYED" "?t = TL_WRITE_CONCURRENT_INSERT \<Longrightarrow> read_no_write_count (locks s l) = 0"
        using beside by (auto simp: write_beside_reads_def)
      have ty2: "type_at s2 x = ?t" if "x \<in> set gs" for x using gs(3,4) that by simp
      have q: "write_wait (locks s l) = gs @ rest" using Cons gs(1) by simp
      show ?thesis
      proof (rule granted_then_free_good[OF ok w q gs(2)])
        show "reads (locks s l) = [] \<or> (\<forall>x \<in> set gs. type_at s2 x \<le> TL_WRITE_DELAYED \<and>
           (type_at s2 x = TL_WRITE_CONCURRENT_INSERT \<longrightarrow> read_no_write_count (locks s l) = 0))"
          using t ty2 by simp
        show "wake_beside_reads s l = s2 \<or> (\<forall>x \<in> set gs. type_at s2 x \<le> TL_WRITE_DELAYED) \<and>
           wake_beside_reads s l = free_all_read_locks s2 l ?ci \<and> (?ci \<or> (\<forall>x \<in> set gs. type_at s2 x \<noteq> TL_WRITE_CONCURRENT_INSERT))"
          unfolding eq using t(1) ty2 by auto
      qed
    qed
  qed
qed

lemma wake_up_good:
  assumes "lock_ok l (locks s l) (datas s)"
  shows "good_step l s (wake_up_waiters s l)"
proof (cases "writes (locks s l) = []")
  case True
  then show ?thesis using wake_when_free_good[OF assms True] wake_beside_reads_good[OF assms True]
    by (simp add: wake_up_waiters_def)
next
  case False
  then show ?thesis using assms by (simp add: wake_up_waiters_def good_step_def lock_awake_write)
qed

end
