(* ===== verification/Lock_Ops.thy ===== *)
theory Lock_Ops
  imports Lock_Inv
begin

text \<open>
  Every operation of the lock manager keeps the invariant of \<open>Lock_Inv\<close> on every lock. The
  first part says how the invariant moves when one instance joins or leaves a list; the second
  part treats the operations; the third is the step relation of a system of threads and what
  holds in every state it reaches.
\<close>

subsection \<open>One instance joins or leaves a list\<close>

lemma lock_okD:
  assumes "lock_ok l L D"
  shows "ok_members l L D" "ok_types L D" "ok_conds L D" "ok_count L D" "ok_writes L D" "ok_beside L D"
  using assms by (simp_all only: lock_ok_def)

lemma lock_okI:
  "ok_members l L D \<Longrightarrow> ok_types L D \<Longrightarrow> ok_conds L D \<Longrightarrow> ok_count L D \<Longrightarrow> ok_writes L D \<Longrightarrow> ok_beside L D \<Longrightarrow> lock_ok l L D"
  by (simp only: lock_ok_def)

lemma lock_ok_agree:
  assumes ok: "lock_ok l L D" and same: "\<And>x. x \<in> set (members L) \<Longrightarrow> D' x = D x"
  shows "lock_ok l L D'"
proof -
  have r: "x \<in> set (reads L) \<Longrightarrow> D' x = D x" and w: "x \<in> set (writes L) \<Longrightarrow> D' x = D x"
    and q: "x \<in> set (read_wait L) \<Longrightarrow> D' x = D x" "x \<in> set (write_wait L) \<Longrightarrow> D' x = D x" for x
    using same by (simp_all add: members_def)
  show ?thesis
  proof (rule lock_okI)
    show "ok_members l L D'" using lock_okD(1)[OF ok] same by (simp add: ok_members_def)
    show "ok_types L D'" using lock_okD(2)[OF ok] r w q by (auto simp: ok_types_def)
    show "ok_conds L D'" using lock_okD(3)[OF ok] r w q by (auto simp: ok_conds_def)
    show "ok_count L D'"
      using lock_okD(4)[OF ok] filter_cong[of "reads L" "reads L" "\<lambda>x. type_of (D' x) = TL_READ_NO_INSERT" "\<lambda>x. type_of (D x) = TL_READ_NO_INSERT"] r
      by (simp add: ok_count_def)
    have "sorted_wrt (\<lambda>a b. type_of (D b) \<le> type_of (D a)) (writes L)" using lock_okD(5)[OF ok] by (simp only: ok_writes_def)
    then have "sorted_wrt (\<lambda>a b. type_of (D' b) \<le> type_of (D' a)) (writes L)"
      by (rule sorted_wrt_mono_rel[rotated]) (simp only: w)
    then show "ok_writes L D'"
      using lock_okD(5)[OF ok] w by (simp only: ok_writes_def simp_thms cong: ball_cong bex_cong)
    show "ok_beside L D'" using lock_okD(6)[OF ok] r w by (simp only: ok_beside_def cong: ball_cong)
  qed
qed

lemma members_unlink: "members (unlink d L) = removeAll d (members L)"
  by (simp add: members_def unlink_def)

lemma ok_writesD:
  assumes "ok_writes L D"
  shows "(\<forall>a \<in> set (writes L). \<forall>b \<in> set (writes L). owner (D a) = owner (D b)) \<or>
      (\<forall>a \<in> set (writes L). type_of (D a) = TL_WRITE_ALLOW_WRITE \<or> type_of (D a) = TL_WRITE_ONLY)"
    "sorted_wrt (\<lambda>a b. type_of (D b) \<le> type_of (D a)) (writes L)"
    "a \<in> set (writes L) \<Longrightarrow> type_of (D a) = TL_WRITE_DELAYED \<Longrightarrow> b \<in> set (writes L) \<Longrightarrow> type_of (D b) \<noteq> TL_WRITE_CONCURRENT_INSERT"
  using assms unfolding ok_writes_def by blast+

lemma ok_writes_same: "writes L' = writes L \<Longrightarrow> ok_writes L' D = ok_writes L D"
  by (simp only: ok_writes_def)

lemma ok_writes_sub:
  assumes "ok_writes L D" and "writes L' = removeAll d (writes L)"
  shows "ok_writes L' D"
  using assms sorted_wrt_filter[of _ "writes L" "(\<noteq>) d"] by (auto simp: ok_writes_def removeAll_filter_not_eq)

lemma lock_ok_unlink:
  assumes ok: "lock_ok l L D"
    and n: "n = length (filter (\<lambda>x. type_of (D x) = TL_READ_NO_INSERT) (removeAll d (reads L)))"
  shows "lock_ok l ((unlink d L)\<lparr>read_no_write_count := n\<rparr>) D"
proof (rule lock_okI)
  let ?L = "(unlink d L)\<lparr>read_no_write_count := n\<rparr>"
  have m: "members ?L = removeAll d (members L)" by (simp add: members_def unlink_def)
  show "ok_members l ?L D"
    using lock_okD(1)[OF ok] le_less_trans[OF length_removeAll_less_eq] by (auto simp: ok_members_def m distinct_removeAll)
  show "ok_types ?L D" using lock_okD(2)[OF ok] by (auto simp: ok_types_def unlink_def)
  show "ok_conds ?L D" using lock_okD(3)[OF ok] by (auto simp: ok_conds_def unlink_def)
  show "ok_count ?L D" using n by (simp add: ok_count_def unlink_def)
  show "ok_writes ?L D" by (rule ok_writes_sub[OF lock_okD(5)[OF ok], of _ d]) (simp add: unlink_def)
  show "ok_beside ?L D" using lock_okD(6)[OF ok] by (auto simp: ok_beside_def unlink_def)
qed

lemma lock_ok_unlink_same:
  assumes ok: "lock_ok l L D" and d: "d \<notin> set (reads L) \<or> type_of (D d) \<noteq> TL_READ_NO_INSERT"
  shows "lock_ok l (unlink d L) D"
proof -
  have "read_no_write_count L = length (filter (\<lambda>x. type_of (D x) = TL_READ_NO_INSERT) (removeAll d (reads L)))"
    using lock_okD(4)[OF ok] d by (auto simp: ok_count_def removeAll_filter_not_eq intro!: arg_cong[where f = length] filter_cong)
  from lock_ok_unlink[OF ok this] show ?thesis by (rule iffD1[OF lock_ok_cong, rotated -1]) (simp_all add: unlink_def)
qed

lemma lock_ok_add_read:
  assumes ok: "lock_ok l L D" and d: "d \<notin> set (members L)" "length (members L) < 2 ^ 32 - 1" "lock_of (D d) = l" "\<not> cond (D d)"
    and t: "TL_READ \<le> type_of (D d)" "type_of (D d) \<le> TL_READ_NO_INSERT"
    and beside: "\<And>w. w \<in> set (writes L) \<Longrightarrow> owner (D d) \<noteq> owner (D w) \<Longrightarrow>
        (type_of (D w) \<le> TL_WRITE_DELAYED \<or> type_of (D w) = TL_WRITE_ONLY) \<and>
        \<not> (type_of (D w) = TL_WRITE_CONCURRENT_INSERT \<and> type_of (D d) = TL_READ_NO_INSERT)"
    and n: "n = (if type_of (D d) = TL_READ_NO_INSERT then 1 else 0)"
  shows "lock_ok l (L\<lparr>reads := reads L @ [d], read_no_write_count := read_no_write_count L + n\<rparr>) D"
proof (rule lock_okI)
  let ?L = "L\<lparr>reads := reads L @ [d], read_no_write_count := read_no_write_count L + n\<rparr>"
  show "ok_members l ?L D" using lock_okD(1)[OF ok] d by (auto simp: ok_members_def members_def)
  show "ok_types ?L D" using lock_okD(2)[OF ok] t by (auto simp: ok_types_def)
  show "ok_conds ?L D" using lock_okD(3)[OF ok] d(4) by (auto simp: ok_conds_def)
  show "ok_count ?L D" using lock_okD(4)[OF ok] n by (simp add: ok_count_def)
  show "ok_writes ?L D" using lock_okD(5)[OF ok] by (simp add: ok_writes_same[of ?L L])
  show "ok_beside ?L D" using lock_okD(6)[OF ok] beside by (auto simp: ok_beside_def)
qed

lemma lock_ok_add_write:
  assumes ok: "lock_ok l L D" and d: "d \<notin> set (members L)" "length (members L) < 2 ^ 32 - 1" "lock_of (D d) = l" "\<not> cond (D d)"
    and t: "TL_WRITE_ALLOW_WRITE \<le> type_of (D d)" "type_of (D d) \<noteq> TL_WRITE_DEFAULT"
      "type_of (D d) = TL_WRITE_CONCURRENT_INSERT \<Longrightarrow> check_status L \<noteq> None"
    and weaker: "\<And>w. w \<in> set (writes L) \<Longrightarrow> type_of (D d) \<le> type_of (D w) \<and>
        (type_of (D d) = TL_WRITE_CONCURRENT_INSERT \<longrightarrow> type_of (D w) \<noteq> TL_WRITE_DELAYED)"
    and own: "(\<forall>w \<in> set (writes L). owner (D w) = owner (D d)) \<or>
        type_of (D d) = TL_WRITE_ALLOW_WRITE \<and> (\<forall>w \<in> set (writes L). type_of (D w) = TL_WRITE_ALLOW_WRITE)"
    and beside: "\<And>r. r \<in> set (reads L) \<Longrightarrow> owner (D r) \<noteq> owner (D d) \<Longrightarrow>
        (type_of (D d) \<le> TL_WRITE_DELAYED \<or> type_of (D d) = TL_WRITE_ONLY) \<and>
        \<not> (type_of (D d) = TL_WRITE_CONCURRENT_INSERT \<and> type_of (D r) = TL_READ_NO_INSERT)"
  shows "lock_ok l (L\<lparr>writes := writes L @ [d]\<rparr>) D"
proof (rule lock_okI)
  let ?L = "L\<lparr>writes := writes L @ [d]\<rparr>"
  show "ok_members l ?L D" using lock_okD(1)[OF ok] d by (auto simp: ok_members_def members_def)
  show "ok_types ?L D" using lock_okD(2)[OF ok] t by (auto simp: ok_types_def)
  show "ok_conds ?L D" using lock_okD(3)[OF ok] d(4) by (auto simp: ok_conds_def)
  show "ok_count ?L D" using lock_okD(4)[OF ok] by (simp add: ok_count_def)
  have "sorted_wrt (\<lambda>a b. type_of (D b) \<le> type_of (D a)) (writes ?L)"
    using ok_writesD(2)[OF lock_okD(5)[OF ok]] weaker by (simp add: sorted_wrt_append)
  moreover have "(\<forall>a \<in> set (writes ?L). \<forall>b \<in> set (writes ?L). owner (D a) = owner (D b)) \<or>
      (\<forall>a \<in> set (writes ?L). type_of (D a) = TL_WRITE_ALLOW_WRITE \<or> type_of (D a) = TL_WRITE_ONLY)"
    using own by auto
  moreover have "\<not> ((\<exists>a \<in> set (writes ?L). type_of (D a) = TL_WRITE_DELAYED) \<and>
        (\<exists>b \<in> set (writes ?L). type_of (D b) = TL_WRITE_CONCURRENT_INSERT))"
  proof (cases "type_of (D d) = TL_WRITE_DELAYED")
    case True
    then have "w \<in> set (writes L) \<Longrightarrow> type_of (D w) \<noteq> TL_WRITE_CONCURRENT_INSERT" for w
      using weaker[of w] by (auto simp: tl_order)
    then show ?thesis using True by auto
  next
    case False
    then show ?thesis using ok_writesD(3)[OF lock_okD(5)[OF ok]] weaker by auto
  qed
  ultimately show "ok_writes ?L D" unfolding ok_writes_def by (intro conjI)
  show "ok_beside ?L D" using lock_okD(6)[OF ok] beside by (auto simp: ok_beside_def)
qed

text \<open>Joining a wait queue, at either end.\<close>

lemma lock_ok_add_wait:
  assumes ok: "lock_ok l L D" and d: "d \<notin> set (members L)" "length (members L) < 2 ^ 32 - 1" "lock_of (D d) = l" "cond (D d)"
    and q: "if write_queue
      then TL_WRITE_ALLOW_WRITE \<le> type_of (D d) \<and> type_of (D d) \<noteq> TL_WRITE_DEFAULT \<and>
           (type_of (D d) = TL_WRITE_CONCURRENT_INSERT \<longrightarrow> check_status L \<noteq> None) \<and>
           read_wait L' = read_wait L \<and> mset (write_wait L') = add_mset d (mset (write_wait L))
      else TL_READ \<le> type_of (D d) \<and> type_of (D d) \<le> TL_READ_NO_INSERT \<and>
           write_wait L' = write_wait L \<and> mset (read_wait L') = add_mset d (mset (read_wait L))"
    and L': "reads L' = reads L" "writes L' = writes L" "read_no_write_count L' = read_no_write_count L" "check_status L' = check_status L"
  shows "lock_ok l L' D"
proof (rule lock_okI)
  have m: "mset (members L') = add_mset d (mset (members L))"
    using q L' by (auto simp: members_def split: if_splits)
  then have "set (members L') = insert d (set (members L))" "length (members L') = Suc (length (members L))"
    by (metis set_mset_add_mset_insert set_mset_mset, metis size_add_mset size_mset)
  moreover have "distinct (members L') = distinct (d # members L)"
    by (rule mset_eq_imp_distinct_iff) (simp add: m)
  ultimately show "ok_members l L' D" using lock_okD(1)[OF ok] d by (auto simp: ok_members_def)
  have w: "set (write_wait L') = (if write_queue then insert d (set (write_wait L)) else set (write_wait L))"
    and r: "set (read_wait L') = (if write_queue then set (read_wait L) else insert d (set (read_wait L)))"
    using q by (auto split: if_splits dest!: arg_cong[where f = set_mset])
  show "ok_types L' D" using lock_okD(2)[OF ok] q w r L' by (auto simp: ok_types_def split: if_splits)
  show "ok_conds L' D" using lock_okD(3)[OF ok] d(4) w r L' by (auto simp: ok_conds_def split: if_splits)
  show "ok_count L' D" using lock_okD(4)[OF ok] L' by (simp add: ok_count_def)
  show "ok_writes L' D" using lock_okD(5)[OF ok] L' by (simp add: ok_writes_same[of L' L])
  show "ok_beside L' D" using lock_okD(6)[OF ok] L' by (simp only: ok_beside_def)
qed

text \<open>The first granted writer becomes the strongest one.\<close>

lemma lock_ok_strengthen:
  assumes ok: "lock_ok l L D" and w: "writes L = d # ws"
    and t: "\<And>x. x \<in> set ws \<Longrightarrow> type_of (D x) \<le> t" "t = TL_WRITE_ONLY \<or> t = TL_WRITE \<and> reads L = [] \<and> (\<forall>x \<in> set ws. owner (D x) = owner (D d))"
  shows "lock_ok l L (D(d := (D d)\<lparr>type_of := t\<rparr>))"
proof -
  let ?D = "D(d := (D d)\<lparr>type_of := t\<rparr>)"
  have "distinct (members L)" using lock_okD(1)[OF ok] by (simp add: ok_members_def)
  then have n: "d \<notin> set (reads L)" "d \<notin> set ws" "d \<notin> set (read_wait L)" "d \<notin> set (write_wait L)"
    using w by (auto simp: members_def)
  have own: "owner (?D x) = owner (D x)" for x by simp
  have out: "x \<in> set ws \<Longrightarrow> ?D x = D x" "x \<in> set (reads L) \<Longrightarrow> ?D x = D x" for x using n by auto
  have ty: "type_of (?D d) = t" "t \<noteq> TL_WRITE_CONCURRENT_INSERT" "t \<noteq> TL_WRITE_DELAYED" "t \<noteq> TL_WRITE_DEFAULT" "TL_WRITE_ALLOW_WRITE \<le> t"
    using t(2) by (auto simp: tl_order)
  show ?thesis
  proof (rule lock_okI)
    show "ok_members l L ?D" using lock_okD(1)[OF ok] by (simp add: ok_members_def)
    show "ok_types L ?D" using lock_okD(2)[OF ok] n ty by (auto simp: ok_types_def w)
    show "ok_conds L ?D" using lock_okD(3)[OF ok] by (simp add: ok_conds_def)
    show "ok_count L ?D"
      using lock_okD(4)[OF ok] filter_cong[of "reads L" "reads L" "\<lambda>x. type_of (?D x) = TL_READ_NO_INSERT" "\<lambda>x. type_of (D x) = TL_READ_NO_INSERT"] out(2)
      by (simp add: ok_count_def)
    have s0: "sorted_wrt (\<lambda>a b. type_of (D b) \<le> type_of (D a)) ws" using ok_writesD(2)[OF lock_okD(5)[OF ok]] by (simp add: w)
    have "sorted_wrt (\<lambda>a b. type_of (?D b) \<le> type_of (?D a)) ws"
      by (rule sorted_wrt_mono_rel[OF _ s0]) (simp only: out)
    then have "sorted_wrt (\<lambda>a b. type_of (?D b) \<le> type_of (?D a)) (writes L)" using t(1) n(2) by (auto simp: w)
    moreover have "(\<forall>a \<in> set (writes L). \<forall>b \<in> set (writes L). owner (?D a) = owner (?D b)) \<or>
      (\<forall>a \<in> set (writes L). type_of (?D a) = TL_WRITE_ALLOW_WRITE \<or> type_of (?D a) = TL_WRITE_ONLY)"
    proof (cases "t = TL_WRITE_ONLY")
      case True
      with ok_writesD(1)[OF lock_okD(5)[OF ok]] show ?thesis unfolding own by (elim disjE) (rule disjI1, assumption, simp)
    next
      case False
      then have "a \<in> set (writes L) \<Longrightarrow> owner (D a) = owner (D d)" for a using t(2) by (auto simp: w)
      then show ?thesis unfolding own by metis
    qed
    moreover have "\<not> ((\<exists>a \<in> set (writes L). type_of (?D a) = TL_WRITE_DELAYED) \<and>
        (\<exists>b \<in> set (writes L). type_of (?D b) = TL_WRITE_CONCURRENT_INSERT))"
      using ok_writesD(3)[OF lock_okD(5)[OF ok]] ty(2,3) by (auto simp: w)
    ultimately show "ok_writes L ?D" unfolding ok_writes_def by (intro conjI)
    show "ok_beside L ?D"
      unfolding ok_beside_def
    proof (intro ballI impI)
      fix x r assume x: "x \<in> set (writes L)" and r: "r \<in> set (reads L)" and o: "owner (?D r) \<noteq> owner (?D x)"
      have t3: "t = TL_WRITE_ONLY" using t(2) r by auto
      show "(type_of (?D x) \<le> TL_WRITE_DELAYED \<or> type_of (?D x) = TL_WRITE_ONLY) \<and>
        \<not> (type_of (?D x) = TL_WRITE_CONCURRENT_INSERT \<and> type_of (?D r) = TL_READ_NO_INSERT)"
      proof (cases "x = d")
        case True then show ?thesis using t3 by simp
      next
        case False
        then have "?D x = D x" "?D r = D r" using out(2)[OF r] by simp_all
        then show ?thesis using lock_okD(6)[OF ok] x r o unfolding ok_beside_def by metis
      qed
    qed
  qed
qed

lemma tl_top: "t \<le> TL_WRITE_ONLY"
  by (cases t) (simp_all add: tl_order)

subsection \<open>The invariant of all locks\<close>

definition lock_inv :: "thr_state \<Rightarrow> bool" where
  "lock_inv s \<longleftrightarrow> (\<forall>l. lock_ok l (locks s l) (datas s) \<and> lock_awake (locks s l)) \<and>
     thr_upgraded_concurrent_insert_lock s \<in> {TL_WRITE_LOW_PRIORITY, TL_WRITE}"

text \<open>An operation on lock \<open>l\<close> leaves the other locks and their instances alone.\<close>

definition only_lock :: "nat \<Rightarrow> thr_state \<Rightarrow> thr_state \<Rightarrow> bool" where
  "only_lock l s s' \<longleftrightarrow> (\<forall>k. k \<noteq> l \<longrightarrow> locks s' k = locks s k) \<and>
     (\<forall>x. lock_of (datas s x) \<noteq> l \<longrightarrow> datas s' x = datas s x) \<and>
     (\<forall>x. lock_of (datas s' x) = lock_of (datas s x)) \<and>
     thr_upgraded_concurrent_insert_lock s' = thr_upgraded_concurrent_insert_lock s"

lemma only_lock_trans: "only_lock l s t \<Longrightarrow> only_lock l t u \<Longrightarrow> only_lock l s u"
  by (simp add: only_lock_def)

lemma only_lock_upd [simp]:
  "only_lock l s (upd_lock l f s)"
  "lock_of (datas s d) = l \<Longrightarrow> (\<And>x. lock_of (g x) = lock_of x) \<Longrightarrow> only_lock l s (upd_data d g s)"
  "only_lock l s (log_call e s)" "only_lock l s s"
  by (auto simp: only_lock_def)

lemma only_lock_env: "same_env l X s s' \<Longrightarrow> (\<And>x. x \<in> X \<Longrightarrow> lock_of (datas s x) = l) \<Longrightarrow> only_lock l s s'"
  by (auto simp: same_env_def only_lock_def)

lemma ok_lock_of: "lock_ok l (locks s l) (datas s) \<Longrightarrow> x \<in> set (members (locks s l)) \<Longrightarrow> lock_of (datas s x) = l"
  by (simp add: lock_ok_def ok_members_def)

lemma good_only_lock: "lock_ok l (locks s l) (datas s) \<Longrightarrow> good_step l s s' \<Longrightarrow> only_lock l s s'"
  by (rule only_lock_env[of l "set (members (locks s l))"]) (simp_all add: good_step_def ok_lock_of)

lemma lock_invD:
  assumes "lock_inv s"
  shows "lock_ok l (locks s l) (datas s)" "lock_awake (locks s l)"
  using assms by (simp_all add: lock_inv_def)

lemma lock_inv_step:
  assumes inv: "lock_inv s" and only: "only_lock l s s'"
    and ok: "lock_ok l (locks s' l) (datas s')" "lock_awake (locks s' l)"
  shows "lock_inv s'"
proof -
  have "lock_ok k (locks s' k) (datas s')" "lock_awake (locks s' k)" if "k \<noteq> l" for k
  proof -
    have "locks s' k = locks s k" using only that by (simp add: only_lock_def)
    then show "lock_ok k (locks s' k) (datas s')" "lock_awake (locks s' k)"
      using lock_ok_agree[OF lock_invD(1)[OF inv, of k], of "datas s'"] ok_lock_of[OF lock_invD(1)[OF inv, of k]] only that lock_invD(2)[OF inv, of k]
      by (simp_all add: only_lock_def)
  qed
  then have "\<forall>k. lock_ok k (locks s' k) (datas s') \<and> lock_awake (locks s' k)" using ok by (metis (no_types))
  then show ?thesis using inv only by (simp add: lock_inv_def only_lock_def)
qed

text \<open>Operations that end in \<open>wake_up_waiters\<close>.\<close>

lemma wake_up_inv:
  assumes inv: "lock_inv s" and only: "only_lock l s s'" and ok: "lock_ok l (locks s' l) (datas s')"
  shows "lock_inv (wake_up_waiters s' l)"
proof (rule lock_inv_step[OF inv])
  show "only_lock l s (wake_up_waiters s' l)"
    by (rule only_lock_trans[OF only good_only_lock[OF ok wake_up_good[OF ok]]])
qed (use wake_up_good[OF ok] in \<open>simp_all add: good_step_def\<close>)

subsection \<open>Releasing, waking and aborting\<close>

lemma ok_count_pos:
  assumes cnt: "ok_count L D" and d: "d \<in> set (reads L)" "type_of (D d) = TL_READ_NO_INSERT" and dis: "distinct (reads L)"
  shows "0 < read_no_write_count L"
    "read_no_write_count L - 1 = length (filter (\<lambda>x. type_of (D x) = TL_READ_NO_INSERT) (removeAll d (reads L)))"
proof -
  let ?P = "\<lambda>x. type_of (D x) = TL_READ_NO_INSERT"
  have n: "read_no_write_count L = length (filter ?P (reads L))" using cnt by (simp only: ok_count_def)
  have mem: "d \<in> set (filter ?P (reads L))" using d by simp
  then show "0 < read_no_write_count L" unfolding n by (rule length_pos_if_in_set)
  have "filter ?P (removeAll d (reads L)) = remove1 d (filter ?P (reads L))"
    using dis by (simp add: distinct_remove1_removeAll[of "filter ?P (reads L)"] removeAll_filter_not_eq conj_commute)
  then show "read_no_write_count L - 1 = length (filter ?P (removeAll d (reads L)))"
    unfolding n using mem by (simp only: length_remove1 if_True)
qed

lemma ok_distinct: "lock_ok l L D \<Longrightarrow> distinct (members L)"
  by (simp add: lock_ok_def ok_members_def)

lemma lock_ok_release:
  assumes ok: "lock_ok l L D" and d: "d \<in> set (reads L) \<union> set (writes L) \<union> set (write_wait L)"
    and D': "\<And>x. x \<noteq> d \<Longrightarrow> D' x = D x"
  shows "lock_ok l ((unlink d L)\<lparr>read_no_write_count :=
    (if type_of (D d) = TL_READ_NO_INSERT then uint_dec (read_no_write_count L) else read_no_write_count L)\<rparr>) D'"
proof -
  let ?n = "if type_of (D d) = TL_READ_NO_INSERT then uint_dec (read_no_write_count L) else read_no_write_count L"
  have len: "read_no_write_count L < 2 ^ 32"
  proof -
    have "length (filter (\<lambda>d. type_of (D d) = TL_READ_NO_INSERT) (reads L)) \<le> length (members L)"
      by (rule order_trans[OF length_filter_le]) (simp add: members_def)
    then show ?thesis using lock_okD(1,4)[OF ok] by (simp add: ok_count_def ok_members_def)
  qed
  have "lock_ok l ((unlink d L)\<lparr>read_no_write_count := ?n\<rparr>) D"
  proof (cases "type_of (D d) = TL_READ_NO_INSERT")
    case True
    have "\<not> TL_WRITE_ALLOW_WRITE \<le> TL_READ_NO_INSERT" by (simp add: tl_order)
    then have "d \<notin> set (writes L) \<union> set (write_wait L)" using ok_types_write[OF lock_okD(2)[OF ok], of d] True by metis
    then have d1: "d \<in> set (reads L)" using d by blast
    have dis: "distinct (reads L)" using ok_distinct[OF ok] by (simp add: members_def)
    note pos = ok_count_pos[OF lock_okD(4)[OF ok] d1 True dis]
    show ?thesis unfolding if_P[OF True] uint_dec_pos[OF pos(1) len] by (rule lock_ok_unlink[OF ok pos(2)])
  next
    case False
    then have "lock_ok l (unlink d L) D" by (intro lock_ok_unlink_same[OF ok]) simp
    moreover have "(unlink d L)\<lparr>read_no_write_count := ?n\<rparr> = unlink d L" using False by (simp add: unlink_def)
    ultimately show ?thesis by (simp only:)
  qed
  then show ?thesis
    by (rule lock_ok_agree) (rule D', simp add: members_def unlink_def, blast)
qed

lemma thr_unlock_eq:
  assumes l: "lock_of (datas s d) = l"
  shows "\<exists>s4. thr_unlock s d = wake_up_waiters s4 l \<and>
     locks s4 = (locks s)(l := (unlink d (locks s l))\<lparr>read_no_write_count :=
       (if type_at s d = TL_READ_NO_INSERT then uint_dec (read_no_write_count (locks s l)) else read_no_write_count (locks s l))\<rparr>) \<and>
     datas s4 = (datas s)(d := (datas s d)\<lparr>type_of := TL_UNLOCK\<rparr>) \<and>
     thr_upgraded_concurrent_insert_lock s4 = thr_upgraded_concurrent_insert_lock s"
proof -
  define s1 where "s1 = upd_lock l (unlink d) s"
  define s2 where "s2 = (if TL_WRITE_CONCURRENT_INSERT \<le> type_at s d
     then (if update_status (locks s1 l) then log_call (Update_status (status_param (datas s d))) s1 else s1)
     else (if restore_status (locks s1 l) then log_call (Restore_status (status_param (datas s d))) s1 else s1))"
  have s2: "locks s2 = locks s1" "datas s2 = datas s1"
    "thr_upgraded_concurrent_insert_lock s2 = thr_upgraded_concurrent_insert_lock s1"
    by (simp_all add: s2_def)
  let ?s3 = "if type_at s d = TL_READ_NO_INSERT
    then upd_lock l (\<lambda>L. L\<lparr>read_no_write_count := uint_dec (read_no_write_count L)\<rparr>) s2 else s2"
  let ?s4 = "upd_data d (\<lambda>x. x\<lparr>type_of := TL_UNLOCK\<rparr>) ?s3"
  have "thr_unlock s d = wake_up_waiters ?s4 l"
    unfolding thr_unlock_def Let_def l s2_def s1_def ..
  then show ?thesis by (intro exI[of _ ?s4] conjI) (simp_all add: s2 s1_def unlink_def)
qed

lemma thr_unlock_inv:
  assumes inv: "lock_inv s" and l: "lock_of (datas s d) = l"
    and d: "d \<in> set (reads (locks s l)) \<union> set (writes (locks s l)) \<union> set (write_wait (locks s l))"
  shows "lock_inv (thr_unlock s d)"
proof -
  obtain s4 where eq: "thr_unlock s d = wake_up_waiters s4 l"
    and lk: "locks s4 = (locks s)(l := (unlink d (locks s l))\<lparr>read_no_write_count :=
       (if type_at s d = TL_READ_NO_INSERT then uint_dec (read_no_write_count (locks s l)) else read_no_write_count (locks s l))\<rparr>)"
    and dt: "datas s4 = (datas s)(d := (datas s d)\<lparr>type_of := TL_UNLOCK\<rparr>)"
    and up: "thr_upgraded_concurrent_insert_lock s4 = thr_upgraded_concurrent_insert_lock s"
    using thr_unlock_eq[OF l] by (elim exE conjE) (rule that)
  have ok4: "lock_ok l (locks s4 l) (datas s4)"
    unfolding lk fun_upd_same by (rule lock_ok_release[OF lock_invD(1)[OF inv] d]) (simp add: dt)
  have "only_lock l s s4" using l lk dt up by (simp add: only_lock_def)
  then show ?thesis unfolding eq by (rule wake_up_inv[OF inv _ ok4])
qed

lemma lock_ok_drop:
  assumes ok: "lock_ok l L D" and d: "d \<notin> set (reads L)" and D': "\<And>x. x \<noteq> d \<Longrightarrow> D' x = D x"
  shows "lock_ok l (unlink d L) D'"
proof (rule lock_ok_agree)
  show "lock_ok l (unlink d L) D" using lock_ok_unlink_same[OF ok] d by blast
  show "D' x = D x" if "x \<in> set (members (unlink d L))" for x using D' that by (simp add: members_unlink)
qed

lemma waiting_not_granted:
  "lock_ok l L D \<Longrightarrow> d \<in> set (read_wait L) \<union> set (write_wait L) \<Longrightarrow> d \<notin> set (reads L) \<and> d \<notin> set (writes L)"
  by (auto dest!: ok_distinct simp: members_def)

lemma wait_for_lock_wake_inv:
  assumes inv: "lock_inv s" and l: "lock_of (datas s d) = l"
    and d: "cond (datas s d) \<Longrightarrow> d \<in> set (read_wait (locks s l)) \<union> set (write_wait (locks s l))"
  shows "lock_inv (fst (wait_for_lock_wake s d timed_out))"
proof (cases "cond (datas s d)")
  case True
  let ?s1 = "upd_data d (\<lambda>x. x\<lparr>type_of := TL_UNLOCK\<rparr>) (upd_lock l (unlink d) s)"
  have eq: "fst (wait_for_lock_wake s d timed_out) = wake_up_waiters ?s1 l"
    using True by (simp add: wait_for_lock_wake_def l)
  have "lock_ok l (locks ?s1 l) (datas ?s1)"
    using lock_ok_drop[OF lock_invD(1)[OF inv], of d l "datas ?s1"] waiting_not_granted[OF lock_invD(1)[OF inv] d[OF True]] by simp
  moreover have "only_lock l s ?s1" using l by (simp add: only_lock_def)
  ultimately show ?thesis unfolding eq by (intro wake_up_inv[OF inv])
next
  case False
  then have "locks (fst (wait_for_lock_wake s d timed_out)) = locks s" "datas (fst (wait_for_lock_wake s d timed_out)) = datas s"
    "thr_upgraded_concurrent_insert_lock (fst (wait_for_lock_wake s d timed_out)) = thr_upgraded_concurrent_insert_lock s"
    by (simp_all add: wait_for_lock_wake_def Let_def call_get_status_def)
  then show ?thesis using inv by (simp add: lock_inv_def)
qed

lemma abort_waiters_simps:
  "locks (abort_waiters s ds) = locks s"
  "thr_upgraded_concurrent_insert_lock (abort_waiters s ds) = thr_upgraded_concurrent_insert_lock s"
  "x \<notin> set ds \<Longrightarrow> datas (abort_waiters s ds) x = datas s x"
  "lock_of (datas (abort_waiters s ds) x) = lock_of (datas s x)"
  "owner (datas (abort_waiters s ds) x) = owner (datas s x)"
  by (induction ds arbitrary: s) auto

lemma lock_ok_clear:
  assumes ok: "lock_ok l L D" and D': "\<And>x. x \<in> set (reads L) \<union> set (writes L) \<Longrightarrow> D' x = D x"
  shows "lock_ok l (L\<lparr>read_wait := [], write_wait := []\<rparr>) D'"
proof (rule lock_ok_agree)
  let ?L = "L\<lparr>read_wait := [], write_wait := []\<rparr>"
  show "lock_ok l ?L D"
  proof (rule lock_okI)
    show "ok_members l ?L D" using lock_okD(1)[OF ok] by (auto simp: ok_members_def members_def)
    show "ok_types ?L D" using lock_okD(2)[OF ok] by (auto simp: ok_types_def)
    show "ok_conds ?L D" using lock_okD(3)[OF ok] by (simp add: ok_conds_def)
    show "ok_count ?L D" using lock_okD(4)[OF ok] by (simp add: ok_count_def)
    show "ok_writes ?L D" using lock_okD(5)[OF ok] by (simp add: ok_writes_same[of ?L L])
    show "ok_beside ?L D" using lock_okD(6)[OF ok] by (simp add: ok_beside_def)
  qed
  show "D' x = D x" if "x \<in> set (members ?L)" for x using D' that by (simp add: members_def)
qed

lemma thr_abort_locks_inv:
  assumes inv: "lock_inv s"
  shows "lock_inv (thr_abort_locks s l)"
proof -
  let ?L = "locks s l"
  note ok = lock_invD(1)[OF inv, of l]
  define s1 where "s1 = abort_waiters (abort_waiters s (read_wait ?L)) (write_wait ?L)"
  define s2 where "s2 = upd_lock l (\<lambda>L. L\<lparr>read_wait := [], write_wait := []\<rparr>) s1"
  have s2: "locks s2 = (locks s)(l := ?L\<lparr>read_wait := [], write_wait := []\<rparr>)" "datas s2 = datas s1"
    by (simp_all add: s2_def s1_def abort_waiters_simps)
  have keep: "datas s1 x = datas s x" if "x \<notin> set (read_wait ?L) \<union> set (write_wait ?L)" for x
    using that by (simp add: s1_def abort_waiters_simps)
  have "datas s1 x = datas s x" if "lock_of (datas s x) \<noteq> l" for x
    using keep[of x] ok_lock_of[OF ok, of x] that by (auto simp: members_def)
  moreover have "lock_of (datas s1 x) = lock_of (datas s x)" for x by (simp add: s1_def abort_waiters_simps)
  ultimately have only: "only_lock l s s2"
    by (simp add: only_lock_def s2) (simp add: s2_def s1_def abort_waiters_simps)
  have ok2: "lock_ok l (locks s2 l) (datas s2)"
    unfolding s2 fun_upd_same using keep waiting_not_granted[OF ok] by (intro lock_ok_clear[OF ok]) blast
  have eq: "thr_abort_locks s l = (case writes ?L of w # _ \<Rightarrow> upd_data w (\<lambda>x. x\<lparr>type_of := TL_WRITE_ONLY\<rparr>) s2 | [] \<Rightarrow> s2)"
    unfolding thr_abort_locks_def Let_def s1_def[symmetric] s2_def[symmetric] by (simp add: s2(1))
  show ?thesis
  proof (cases "writes ?L")
    case Nil
    show ?thesis unfolding eq Nil list.case by (rule lock_inv_step[OF inv only ok2]) (simp add: s2 lock_awake_def)
  next
    case (Cons w ws)
    let ?s3 = "upd_data w (\<lambda>x. x\<lparr>type_of := TL_WRITE_ONLY\<rparr>) s2"
    have w2: "writes (locks s2 l) = w # ws" using Cons by (simp add: s2)
    have mem: "w \<in> set (members ?L)" using Cons by (simp add: members_def)
    have "only_lock l s ?s3" using only ok_lock_of[OF ok mem] by (simp add: only_lock_def)
    moreover have "lock_ok l (locks ?s3 l) (datas ?s3)"
      using lock_ok_strengthen[OF ok2 w2, of TL_WRITE_ONLY] tl_top by simp
    moreover have "lock_awake (locks ?s3 l)" using w2 by (simp add: lock_awake_def)
    ultimately show ?thesis unfolding eq Cons list.case by (rule lock_inv_step[OF inv])
  qed
qed

lemma abort_thread_loop_ok:
  assumes "lock_ok l (locks s l) (datas s)" "set ds \<inter> set (reads (locks s l)) = {}" "\<And>x. x \<in> set ds \<Longrightarrow> lock_of (datas s x) = l"
    and "abort_thread_loop s l thr ds found = (s', found')"
  shows "lock_ok l (locks s' l) (datas s') \<and> only_lock l s s' \<and> reads (locks s' l) = reads (locks s l)"
  using assms
proof (induction ds arbitrary: s found)
  case Nil
  then show ?case by simp
next
  case (Cons d ds)
  show ?case
  proof (cases "thread (infos s (owner_info s (owner_at s d))) = thr")
    case False
    then show ?thesis using Cons.prems by (intro Cons.IH[of s found]) auto
  next
    case True
    let ?s1 = "upd_lock l (unlink d)
               (upd_data d (\<lambda>x. x\<lparr>cond := False\<rparr>) (log_call (Signal d) (upd_data d (\<lambda>x. x\<lparr>type_of := TL_UNLOCK\<rparr>) s)))"
    have d: "d \<notin> set (reads (locks s l))" using Cons.prems(2) by simp
    have r: "reads (locks ?s1 l) = reads (locks s l)" using d by (simp add: unlink_def)
    have ok1: "lock_ok l (locks ?s1 l) (datas ?s1)"
      using lock_ok_drop[OF Cons.prems(1) d, of "datas ?s1"] by simp
    have o: "only_lock l s ?s1" using Cons.prems(3)[of d] by (simp add: only_lock_def)
    have "lock_ok l (locks s' l) (datas s') \<and> only_lock l ?s1 s' \<and> reads (locks s' l) = reads (locks ?s1 l)"
    proof (rule Cons.IH[OF ok1])
      show "set ds \<inter> set (reads (locks ?s1 l)) = {}" using Cons.prems(2) r by auto
      show "lock_of (datas ?s1 x) = l" if "x \<in> set ds" for x using Cons.prems(3)[of x] Cons.prems(3)[of d] that by simp
      show "abort_thread_loop ?s1 l thr ds True = (s', found')" using Cons.prems(4) True by simp
    qed
    then show ?thesis using only_lock_trans[OF o] r by simp
  qed
qed

lemma thr_abort_locks_for_thread_inv:
  assumes inv: "lock_inv s"
  shows "lock_inv (fst (thr_abort_locks_for_thread s l thr))"
proof -
  note ok = lock_invD(1)[OF inv, of l]
  obtain s1 f1 where l1: "abort_thread_loop s l thr (read_wait (locks s l)) False = (s1, f1)" by fastforce
  obtain s2 f2 where l2: "abort_thread_loop s1 l thr (write_wait (locks s1 l)) f1 = (s2, f2)" by fastforce
  have eq: "fst (thr_abort_locks_for_thread s l thr) = wake_up_waiters s2 l"
    unfolding thr_abort_locks_for_thread_def l1 prod.case Let_def l2 fst_conv ..
  have 1: "lock_ok l (locks s1 l) (datas s1) \<and> only_lock l s s1 \<and> reads (locks s1 l) = reads (locks s l)"
    using waiting_not_granted[OF ok] ok_lock_of[OF ok] by (intro abort_thread_loop_ok[OF ok _ _ l1]) (auto simp: members_def)
  then have ok1: "lock_ok l (locks s1 l) (datas s1)" by blast
  have 2: "lock_ok l (locks s2 l) (datas s2) \<and> only_lock l s1 s2 \<and> reads (locks s2 l) = reads (locks s1 l)"
    using waiting_not_granted[OF ok1] ok_lock_of[OF ok1] by (intro abort_thread_loop_ok[OF ok1 _ _ l2]) (auto simp: members_def)
  show ?thesis unfolding eq using 1 2 only_lock_trans by (intro wake_up_inv[OF inv]) blast+
qed

subsection \<open>Delayed inserts\<close>

lemma lock_ok_requeue:
  assumes ok: "lock_ok l L D" and d: "d \<in> set (writes L)" and D': "\<And>x. x \<noteq> d \<Longrightarrow> D' x = D x"
    and new: "lock_of (D' d) = l" "cond (D' d)" "type_of (D' d) = TL_WRITE \<or> type_of (D' d) = TL_WRITE_DELAYED"
  shows "lock_ok l ((unlink d L)\<lparr>write_wait := d # write_wait (unlink d L)\<rparr>) D'"
proof (rule lock_ok_add_wait[where write_queue = True])
  have r: "d \<notin> set (reads L)" and mem: "d \<in> set (members L)" using ok_distinct[OF ok] d by (auto simp: members_def)
  show "lock_ok l (unlink d L) D'" by (rule lock_ok_drop[OF ok r D'])
  show "length (members (unlink d L)) < 2 ^ 32 - 1"
    using lock_okD(1)[OF ok] length_removeAll_less[OF mem] unfolding members_unlink ok_members_def by linarith
  show "d \<notin> set (members (unlink d L))" by (simp add: members_unlink)
qed (use new in \<open>auto simp: unlink_def tl_order\<close>)

lemma upgrade_inv:
  assumes inv: "lock_inv s" and l: "lock_of (datas s d) = l"
    and d: "type_at s d \<noteq> TL_UNLOCK \<Longrightarrow> \<not> TL_WRITE_LOW_PRIORITY \<le> type_at s d \<Longrightarrow>
      type_at s d = TL_WRITE_DELAYED \<and> (d \<in> set (write_wait (locks s l)) \<or> writes (locks s l) \<noteq> [] \<and> d = hd (writes (locks s l)))"
  shows "lock_inv (fst (thr_upgrade_write_delay_lock s d))"
proof (cases "type_at s d = TL_UNLOCK \<or> TL_WRITE_LOW_PRIORITY \<le> type_at s d")
  case True
  then show ?thesis using inv by (auto simp: thr_upgrade_write_delay_lock_def Let_def)
next
  case False
  let ?L = "locks s l"
  note ok = lock_invD(1)[OF inv, of l]
  have ty: "type_at s d = TL_WRITE_DELAYED" using d False by blast
  let ?s1 = "upd_data d (\<lambda>x. x\<lparr>type_of := TL_WRITE\<rparr>) s"
  let ?s2 = "upd_lock l (\<lambda>L. (unlink d L)\<lparr>write_wait := d # write_wait (unlink d L)\<rparr>) ?s1"
  have eq: "fst (thr_upgrade_write_delay_lock s d) =
     (if \<not> cond (datas s d) then
        if reads ?L = [] then call_get_status l d 0 ?s1 else upd_data d (\<lambda>x. x\<lparr>cond := True\<rparr>) ?s2
      else upd_data d (\<lambda>x. x\<lparr>cond := True\<rparr>) ?s1)"
    using False by (auto simp: thr_upgrade_write_delay_lock_def Let_def l wait_for_lock_enter_def)
  consider (queue) "d \<in> set (write_wait ?L)" | (front) ws where "writes ?L = d # ws"
    using d False by (cases "writes ?L") auto
  then show ?thesis
  proof cases
    case queue
    then have c: "cond (datas s d)" using lock_okD(3)[OF ok] by (simp add: ok_conds_def)
    let ?s3 = "upd_data d (\<lambda>x. x\<lparr>cond := True\<rparr>) ?s1"
    have "datas ?s3 = (datas s)(d := (datas s d)\<lparr>type_of := TL_WRITE\<rparr>)" using c by (cases "datas s d") simp
    then have "lock_ok l (locks ?s3 l) (datas ?s3)" using lock_ok_retype[OF ok queue, of TL_WRITE] by (simp add: tl_order)
    moreover have "only_lock l s ?s3" using l by (simp add: only_lock_def)
    ultimately show ?thesis unfolding eq using c lock_inv_step[OF inv, of l ?s3] lock_invD(2)[OF inv] by simp
  next
    case front
    then have mem: "d \<in> set (writes ?L)" by simp
    then have c: "\<not> cond (datas s d)" using lock_okD(3)[OF ok] by (auto simp: ok_conds_def)
    have le: "type_at s x \<le> TL_WRITE" if "x \<in> set ws" for x
      using ok_writesD(2)[OF lock_okD(5)[OF ok]] front that ty by (auto intro: order_trans simp: tl_order)
    have own: "owner_at s x = owner_at s d" if "x \<in> set ws" for x
      using ok_writesD(1)[OF lock_okD(5)[OF ok]] mem ty that front by (metis list.set_intros(2) thr_lock_type.distinct)
    show ?thesis
    proof (cases "reads ?L = []")
      case True
      have "lock_ok l (locks ?s1 l) (datas ?s1)"
        using lock_ok_strengthen[OF ok front, of TL_WRITE] le own True by simp
      moreover have "only_lock l s ?s1" using l by (simp add: only_lock_def)
      ultimately have "lock_inv ?s1" using lock_inv_step[OF inv, of l ?s1] lock_invD(2)[OF inv] by simp
      then show ?thesis unfolding eq using c True by (simp add: lock_inv_def)
    next
      case False
      let ?s3 = "upd_data d (\<lambda>x. x\<lparr>cond := True\<rparr>) ?s2"
      have "lock_ok l (locks ?s3 l) (datas ?s3)" using lock_ok_requeue[OF ok mem, of "datas ?s3"] l by simp
      moreover have "d \<notin> set (reads ?L)" using ok_distinct[OF ok] mem by (auto simp: members_def)
      then have "lock_awake (locks ?s3 l)" using False by (simp add: lock_awake_def unlink_def)
      moreover have "only_lock l s ?s3" using l by (simp add: only_lock_def)
      ultimately show ?thesis unfolding eq using c False lock_inv_step[OF inv, of l ?s3] by simp
    qed
  qed
qed

lemma reschedule_inv:
  assumes inv: "lock_inv s" and l: "lock_of (datas s d) = l" and w: "writes (locks s l) = [d]"
  shows "lock_inv (fst (thr_reschedule_write_lock s d))"
proof (cases "read_wait (locks s l) = []")
  case True
  then show ?thesis using inv l by (simp add: thr_reschedule_write_lock_def)
next
  case False
  let ?L = "locks s l"
  note ok = lock_invD(1)[OF inv, of l]
  define s1 where "s1 = upd_data d (\<lambda>x. x\<lparr>type_of := TL_WRITE_DELAYED\<rparr>) s"
  define s2 where "s2 = (if update_status (locks s1 l) then log_call (Update_status (status_param (datas s1 d))) s1 else s1)"
  define s4 where "s4 = upd_data d (\<lambda>x. x\<lparr>cond := True\<rparr>)
    (upd_lock l (\<lambda>L. (unlink d L)\<lparr>write_wait := d # write_wait (unlink d L)\<rparr>) s2)"
  define s5 where "s5 = free_all_read_locks s4 l False"
  have eq: "thr_reschedule_write_lock s d = thr_upgrade_write_delay_lock s5 d"
    using False unfolding thr_reschedule_write_lock_def Let_def l s5_def s4_def s2_def s1_def by simp
  have s2: "locks s2 = locks s" "datas s2 = datas s1"
    "thr_upgraded_concurrent_insert_lock s2 = thr_upgraded_concurrent_insert_lock s" by (simp_all add: s2_def s1_def)
  have L4: "locks s4 l = (unlink d ?L)\<lparr>write_wait := d # write_wait (unlink d ?L)\<rparr>"
    and D4: "datas s4 = (datas s)(d := (datas s d)\<lparr>type_of := TL_WRITE_DELAYED, cond := True\<rparr>)"
    by (simp_all add: s4_def s2 s1_def)
  have ok4: "lock_ok l (locks s4 l) (datas s4)"
    unfolding L4 by (rule lock_ok_requeue[OF ok]) (simp_all add: w D4 l)
  have nr: "d \<notin> set (read_wait ?L)" using ok_distinct[OF ok] w by (auto simp: members_def)
  have L4': "writes (locks s4 l) = []" "read_wait (locks s4 l) = read_wait ?L" "write_wait (locks s4 l) = d # removeAll d (write_wait ?L)"
    unfolding L4 using w nr by (simp_all add: unlink_def)
  have g: "good_step l s4 s5" unfolding s5_def using L4' False by (intro free_all_good[OF ok4]) simp_all
  have "only_lock l s s4" using l by (simp add: only_lock_def D4) (simp add: s4_def s2)
  then have inv5: "lock_inv s5"
    using g only_lock_trans[OF _ good_only_lock[OF ok4 g]] by (intro lock_inv_step[OF inv]) (auto simp: good_step_def)
  have "type_at s5 d = TL_WRITE_DELAYED" "lock_of (datas s5 d) = l" "d \<in> set (write_wait (locks s5 l))"
    unfolding s5_def free_all_data free_all_writes(2) L4' using l by (simp_all add: D4)
  then show ?thesis unfolding eq by (intro upgrade_inv[OF inv5]) auto
qed

subsection \<open>Requests\<close>

text \<open>A change to an instance that is in no list.\<close>

lemma lock_inv_outside:
  assumes inv: "lock_inv s" and d: "d \<notin> set (members (locks s (lock_of (datas s d))))"
    and s': "locks s' = locks s" "thr_upgraded_concurrent_insert_lock s' = thr_upgraded_concurrent_insert_lock s"
      "\<And>x. x \<noteq> d \<Longrightarrow> datas s' x = datas s x"
  shows "lock_inv s'"
proof -
  have "d \<notin> set (members (locks s k))" for k
    using d ok_lock_of[OF lock_invD(1)[OF inv, of k], of d] by auto
  then have "lock_ok k (locks s' k) (datas s')" for k
    unfolding s'(1) using s'(3) by (intro lock_ok_agree[OF lock_invD(1)[OF inv]]) metis
  then show ?thesis using inv s' by (simp add: lock_inv_def)
qed

text \<open>The situation of a request once the instance has its owner and type.\<close>

definition requesting :: "thr_state \<Rightarrow> nat \<Rightarrow> nat \<Rightarrow> bool" where
  "requesting s l d \<longleftrightarrow> lock_inv s \<and> lock_of (datas s d) = l \<and> d \<notin> set (members (locks s l)) \<and>
     length (members (locks s l)) < 2 ^ 32 - 1 \<and> \<not> cond (datas s d)"

lemma requestingD:
  assumes "requesting s l d"
  shows "lock_inv s" "lock_ok l (locks s l) (datas s)" "lock_awake (locks s l)" "lock_of (datas s d) = l"
    "d \<notin> set (members (locks s l))" "length (members (locks s l)) < 2 ^ 32 - 1" "\<not> cond (datas s d)"
  using assms by (simp_all add: requesting_def lock_invD)

lemma requesting_retype: "requesting s l d \<Longrightarrow> requesting (upd_data d (\<lambda>x. x\<lparr>type_of := t\<rparr>) s) l d"
  using lock_inv_outside[of s d "upd_data d (\<lambda>x. x\<lparr>type_of := t\<rparr>) s"] by (simp add: requesting_def)

lemma grant_read_inv:
  assumes req: "requesting s l d" and t: "TL_READ \<le> type_at s d" "type_at s d \<le> TL_READ_NO_INSERT"
    and beside: "\<And>w. w \<in> set (writes (locks s l)) \<Longrightarrow> owner_at s d \<noteq> owner_at s w \<Longrightarrow>
        (type_at s w \<le> TL_WRITE_DELAYED \<or> type_at s w = TL_WRITE_ONLY) \<and>
        \<not> (type_at s w = TL_WRITE_CONCURRENT_INSERT \<and> type_at s d = TL_READ_NO_INSERT)"
  shows "lock_inv (grant_read s l d (type_at s d))"
proof -
  let ?s' = "grant_read s l d (type_at s d)"
  have s': "datas ?s' = datas s" "locks ?s' = (locks s)(l := (locks s l)\<lparr>reads := reads (locks s l) @ [d],
      read_no_write_count := read_no_write_count (locks s l) + (if type_at s d = TL_READ_NO_INSERT then 1 else 0)\<rparr>)"
    by (simp_all add: grant_read_def Let_def)
  have "only_lock l s ?s'" by (simp add: only_lock_def s') (simp add: grant_read_def Let_def)
  moreover have "lock_ok l (locks ?s' l) (datas ?s')"
    unfolding s' fun_upd_same by (rule lock_ok_add_read[OF requestingD(2,5,6,4,7)[OF req] t beside]) simp_all
  moreover have "lock_awake (locks ?s' l)" using requestingD(3)[OF req] by (simp add: s' lock_awake_def)
  ultimately show ?thesis by (rule lock_inv_step[OF requestingD(1)[OF req]])
qed

lemma wait_inv:
  assumes req: "requesting s l d"
    and t: "if write_queue then TL_WRITE_ALLOW_WRITE \<le> type_at s d \<and> type_at s d \<noteq> TL_WRITE_DEFAULT \<and>
           (type_at s d = TL_WRITE_CONCURRENT_INSERT \<longrightarrow> check_status (locks s l) \<noteq> None)
      else TL_READ \<le> type_at s d \<and> type_at s d \<le> TL_READ_NO_INSERT"
    and busy: "writes (locks s l) \<noteq> [] \<or> reads (locks s l) \<noteq> [] \<and> (write_queue \<or> write_wait (locks s l) \<noteq> [])"
  shows "lock_inv (wait_for_lock_enter s write_queue l d False)"
proof -
  let ?s' = "wait_for_lock_enter s write_queue l d False"
  have s': "datas ?s' = (datas s)(d := (datas s d)\<lparr>cond := True\<rparr>)"
    "locks ?s' = (locks s)(l := (if write_queue then (locks s l)\<lparr>write_wait := write_wait (locks s l) @ [d]\<rparr>
       else (locks s l)\<lparr>read_wait := read_wait (locks s l) @ [d]\<rparr>))"
    by (simp_all add: wait_for_lock_enter_def Let_def)
  have "only_lock l s ?s'" using requestingD(4)[OF req] by (simp add: only_lock_def s') (simp add: wait_for_lock_enter_def Let_def)
  moreover have "lock_ok l (locks s l) (datas ?s')"
    unfolding s' using requestingD(5)[OF req] by (intro lock_ok_agree[OF requestingD(2)[OF req]]) auto
  then have "lock_ok l (locks ?s' l) (datas ?s')"
    using requestingD(4-7)[OF req] t unfolding s' fun_upd_same
    by (elim lock_ok_add_wait[where write_queue = write_queue and d = d]) (simp_all split: if_splits)
  moreover have "lock_awake (locks ?s' l)" using busy by (auto simp: s' lock_awake_def)
  ultimately show ?thesis by (rule lock_inv_step[OF requestingD(1)[OF req]])
qed

lemma deadlock_or_wait_cases:
  "fst (deadlock_or_wait s write_queue l d own) = s \<or>
   fst (deadlock_or_wait s write_queue l d own) = wait_for_lock_enter s write_queue l d False"
  by (simp add: deadlock_or_wait_def Let_def split: list.split option.split)

lemma deadlock_or_wait_inv:
  assumes req: "requesting s l d"
    and t: "if write_queue then TL_WRITE_ALLOW_WRITE \<le> type_at s d \<and> type_at s d \<noteq> TL_WRITE_DEFAULT \<and>
           (type_at s d = TL_WRITE_CONCURRENT_INSERT \<longrightarrow> check_status (locks s l) \<noteq> None)
      else TL_READ \<le> type_at s d \<and> type_at s d \<le> TL_READ_NO_INSERT"
    and busy: "writes (locks s l) \<noteq> [] \<or> reads (locks s l) \<noteq> [] \<and> (write_queue \<or> write_wait (locks s l) \<noteq> [])"
  shows "lock_inv (fst (deadlock_or_wait s write_queue l d own))"
  using deadlock_or_wait_cases[of s write_queue l d own] wait_inv[OF req t busy] requestingD(1)[OF req] by auto

lemma awake_waiter_reads:
  "lock_awake L \<Longrightarrow> writes L = [] \<Longrightarrow> write_wait L \<noteq> [] \<Longrightarrow> reads L \<noteq> []"
  by (auto simp: lock_awake_def)

text \<open>All granted write locks are weaker than the first; those of other owners than its are \<open>TL_WRITE_ALLOW_WRITE\<close>.\<close>

lemma first_writer:
  assumes ok: "ok_writes L D" and w: "writes L = w # ws" and x: "x \<in> set (writes L)"
  shows "type_of (D x) \<le> type_of (D w)"
    "owner (D x) \<noteq> owner (D w) \<Longrightarrow> type_of (D x) = TL_WRITE_ALLOW_WRITE \<or> type_of (D x) = TL_WRITE_ONLY"
proof -
  show "type_of (D x) \<le> type_of (D w)" using ok_writesD(2)[OF ok] x by (auto simp: w)
  have "w \<in> set (writes L)" by (simp add: w)
  then show "owner (D x) \<noteq> owner (D w) \<Longrightarrow> type_of (D x) = TL_WRITE_ALLOW_WRITE \<or> type_of (D x) = TL_WRITE_ONLY"
    using ok_writesD(1)[OF ok] x by blast
qed

lemma thr_lock_read_inv:
  assumes req: "requesting s l d" and t: "TL_READ \<le> type_at s d" "type_at s d \<le> TL_READ_NO_INSERT"
  shows "lock_inv (fst (thr_lock_read s l d own (type_at s d)))"
proof (cases "writes (locks s l)")
  case Nil
  have "lock_inv (grant_read s l d (type_at s d))" by (rule grant_read_inv[OF req t]) (simp add: Nil)
  moreover have "lock_inv (fst (deadlock_or_wait s False l d own))" if "write_wait (locks s l) \<noteq> []"
    using awake_waiter_reads[OF requestingD(3)[OF req] Nil that] that t by (intro deadlock_or_wait_inv[OF req]) auto
  ultimately show ?thesis unfolding thr_lock_read_def Let_def Nil list.case
    by (cases "write_wait (locks s l)") auto
next
  case (Cons w ws)
  note okw = lock_okD(5)[OF requestingD(2)[OF req]]
  note first = first_writer[OF okw Cons]
  let ?c = "owner_at s d = owner_at s w \<or> (type_at s w \<le> TL_WRITE_DELAYED \<and>
      (type_at s d \<le> TL_READ_HIGH_PRIORITY \<or> (type_at s w \<noteq> TL_WRITE_CONCURRENT_INSERT \<and> type_at s w \<noteq> TL_WRITE_ALLOW_READ)))"
  have "lock_inv (grant_read s l d (type_at s d))" if c: ?c
  proof (rule grant_read_inv[OF req t])
    fix x assume x: "x \<in> set (writes (locks s l))" and o: "owner_at s d \<noteq> owner_at s x"
    show "(type_at s x \<le> TL_WRITE_DELAYED \<or> type_at s x = TL_WRITE_ONLY) \<and>
        \<not> (type_at s x = TL_WRITE_CONCURRENT_INSERT \<and> type_at s d = TL_READ_NO_INSERT)"
    proof (cases "owner_at s d = owner_at s w")
      case True
      then have "type_at s x = TL_WRITE_ALLOW_WRITE \<or> type_at s x = TL_WRITE_ONLY" using first(2)[OF x] o by simp
      then show ?thesis by (auto simp: tl_order)
    next
      case False
      then have le: "type_at s w \<le> TL_WRITE_DELAYED" "type_at s x \<le> TL_WRITE_DELAYED" using c first(1)[OF x] by (auto intro: order_trans)
      have "type_at s d \<noteq> TL_READ_NO_INSERT" if ci: "type_at s x = TL_WRITE_CONCURRENT_INSERT"
      proof
        assume "type_at s d = TL_READ_NO_INSERT"
        then have "type_at s w \<noteq> TL_WRITE_CONCURRENT_INSERT" using c False by (auto simp: tl_order)
        then have "type_at s w = TL_WRITE_DELAYED" using le(1) first(1)[OF x] ci by (cases "type_at s w") (simp_all add: tl_order)
        then show False using ok_writesD(3)[OF okw _ _ x] ci Cons by auto
      qed
      then show ?thesis using le by blast
    qed
  qed
  moreover have "lock_inv (upd_data d (\<lambda>x. x\<lparr>type_of := TL_UNLOCK\<rparr>) s)"
    using requestingD(1)[OF requesting_retype[OF req]] .
  moreover have "lock_inv (fst (deadlock_or_wait s False l d own))"
    using t Cons by (intro deadlock_or_wait_inv[OF req]) auto
  ultimately show ?thesis unfolding thr_lock_read_def Let_def Cons list.case by simp
qed

lemma grant_write_inv:
  assumes req: "requesting s l d"
    and t: "TL_WRITE_ALLOW_WRITE \<le> type_at s d" "type_at s d \<noteq> TL_WRITE_DEFAULT"
      "type_at s d = TL_WRITE_CONCURRENT_INSERT \<Longrightarrow> check_status (locks s l) \<noteq> None"
    and weaker: "\<And>w. w \<in> set (writes (locks s l)) \<Longrightarrow> type_at s d \<le> type_at s w \<and>
        (type_at s d = TL_WRITE_CONCURRENT_INSERT \<longrightarrow> type_at s w \<noteq> TL_WRITE_DELAYED)"
    and own: "(\<forall>w \<in> set (writes (locks s l)). owner_at s w = owner_at s d) \<or>
        type_at s d = TL_WRITE_ALLOW_WRITE \<and> (\<forall>w \<in> set (writes (locks s l)). type_at s w = TL_WRITE_ALLOW_WRITE)"
    and beside: "\<And>r. r \<in> set (reads (locks s l)) \<Longrightarrow> owner_at s r \<noteq> owner_at s d \<Longrightarrow>
        (type_at s d \<le> TL_WRITE_DELAYED \<or> type_at s d = TL_WRITE_ONLY) \<and>
        \<not> (type_at s d = TL_WRITE_CONCURRENT_INSERT \<and> type_at s r = TL_READ_NO_INSERT)"
  shows "lock_inv (grant_write s l d ci)"
proof -
  let ?s' = "grant_write s l d ci"
  have s': "datas ?s' = datas s" "locks ?s' = (locks s)(l := (locks s l)\<lparr>writes := writes (locks s l) @ [d]\<rparr>)"
    by (simp_all add: grant_write_def)
  have "only_lock l s ?s'" by (simp add: only_lock_def s') (simp add: grant_write_def)
  moreover have "lock_ok l (locks ?s' l) (datas ?s')"
    unfolding s' fun_upd_same by (rule lock_ok_add_write[OF requestingD(2,5,6,4,7)[OF req] t weaker own beside])
  moreover have "lock_awake (locks ?s' l)" by (simp add: s' lock_awake_def)
  ultimately show ?thesis by (rule lock_inv_step[OF requestingD(1)[OF req]])
qed

text \<open>Types a writer may have, and the discipline of an owner that already holds write locks.\<close>

definition write_type :: "thr_state \<Rightarrow> nat \<Rightarrow> thr_lock_type \<Rightarrow> bool" where
  "write_type s l t \<longleftrightarrow> TL_WRITE_ALLOW_WRITE \<le> t \<and> t \<noteq> TL_WRITE_DEFAULT \<and>
     (t = TL_WRITE_CONCURRENT_INSERT \<longrightarrow> check_status (locks s l) \<noteq> None)"

definition weaker_than_held :: "thr_state \<Rightarrow> nat \<Rightarrow> nat \<Rightarrow> thr_lock_type \<Rightarrow> bool" where
  "weaker_than_held s l own t \<longleftrightarrow>
     (writes (locks s l) \<noteq> [] \<and> own = owner_at s (hd (writes (locks s l))) \<longrightarrow>
      (\<forall>w \<in> set (writes (locks s l)). t \<le> type_at s w \<and>
         (t = TL_WRITE_CONCURRENT_INSERT \<longrightarrow> type_at s w \<noteq> TL_WRITE_DELAYED)))"

lemma grant_same_owner_inv:
  assumes req: "requesting s l d" and t: "write_type s l (type_at s d)" and cons: "writes (locks s l) = w # ws"
    and o: "owner_at s d = owner_at s w" and wo: "type_at s w \<noteq> TL_WRITE_ONLY"
    and weaker: "weaker_than_held s l (owner_at s d) (type_at s d)"
  shows "lock_inv (grant_write s l d ci)"
proof (rule grant_write_inv[OF req])
  note ok = requestingD(2)[OF req]
  have wk: "type_at s d \<le> type_at s x \<and> (type_at s d = TL_WRITE_CONCURRENT_INSERT \<longrightarrow> type_at s x \<noteq> TL_WRITE_DELAYED)"
    if "x \<in> set (writes (locks s l))" for x
    using weaker o cons that by (auto simp: weaker_than_held_def)
  then show "type_at s d \<le> type_at s x \<and> (type_at s d = TL_WRITE_CONCURRENT_INSERT \<longrightarrow> type_at s x \<noteq> TL_WRITE_DELAYED)"
    if "x \<in> set (writes (locks s l))" for x using that by blast
  have w: "w \<in> set (writes (locks s l))" using cons by simp
  show "(\<forall>x \<in> set (writes (locks s l)). owner_at s x = owner_at s d) \<or>
        type_at s d = TL_WRITE_ALLOW_WRITE \<and> (\<forall>x \<in> set (writes (locks s l)). type_at s x = TL_WRITE_ALLOW_WRITE)"
    using ok_writesD(1)[OF lock_okD(5)[OF ok]]
  proof
    assume "\<forall>a \<in> set (writes (locks s l)). \<forall>b \<in> set (writes (locks s l)). owner_at s a = owner_at s b"
    then have "\<forall>x \<in> set (writes (locks s l)). owner_at s x = owner_at s d" using w o by metis
    then show ?thesis ..
  next
    assume all: "\<forall>a \<in> set (writes (locks s l)). type_at s a = TL_WRITE_ALLOW_WRITE \<or> type_at s a = TL_WRITE_ONLY"
    then have aw: "type_at s w = TL_WRITE_ALLOW_WRITE" using w wo by blast
    have "type_at s x = TL_WRITE_ALLOW_WRITE" if "x \<in> set (writes (locks s l))" for x
      using all that first_writer(1)[OF lock_okD(5)[OF ok] cons that] aw by (auto simp: tl_order)
    moreover have "type_at s d = TL_WRITE_ALLOW_WRITE" using wk[OF w] aw t by (simp add: write_type_def)
    ultimately show ?thesis by blast
  qed
  show "(type_at s d \<le> TL_WRITE_DELAYED \<or> type_at s d = TL_WRITE_ONLY) \<and>
        \<not> (type_at s d = TL_WRITE_CONCURRENT_INSERT \<and> type_at s r = TL_READ_NO_INSERT)"
    if r: "r \<in> set (reads (locks s l))" and ne: "owner_at s r \<noteq> owner_at s d" for r
  proof -
    have b: "type_at s w \<le> TL_WRITE_DELAYED" "\<not> (type_at s w = TL_WRITE_CONCURRENT_INSERT \<and> type_at s r = TL_READ_NO_INSERT)"
      using lock_okD(6)[OF ok] w r ne o wo unfolding ok_beside_def by metis+
    have "type_at s w = TL_WRITE_CONCURRENT_INSERT" if "type_at s d = TL_WRITE_CONCURRENT_INSERT"
      using b(1) wk[OF w] that by (cases "type_at s w") (simp_all add: tl_order)
    then show ?thesis using b wk[OF w] order_trans by blast
  qed
qed (use t in \<open>simp_all add: write_type_def\<close>)

lemma grant_allow_write_inv:
  assumes req: "requesting s l d" and t: "type_at s d = TL_WRITE_ALLOW_WRITE" and cons: "writes (locks s l) = w # ws"
    and aw: "type_at s w = TL_WRITE_ALLOW_WRITE"
  shows "lock_inv (grant_write s l d ci)"
proof -
  note ok = requestingD(2)[OF req]
  have all: "type_at s x = TL_WRITE_ALLOW_WRITE" if "x \<in> set (writes (locks s l))" for x
    using first_writer(1)[OF lock_okD(5)[OF ok] cons that] ok_types_write[OF lock_okD(2)[OF ok], of x] that aw by simp
  then show ?thesis using t by (intro grant_write_inv[OF req]) (auto simp: tl_order)
qed

lemma grant_first_write_inv:
  assumes req: "requesting s l d" and t: "write_type s l (type_at s d)" and nil: "writes (locks s l) = []"
    and beside: "reads (locks s l) = [] \<or> write_beside_reads s l (type_at s d)"
  shows "lock_inv (grant_write s l d ci)"
proof (rule grant_write_inv[OF req])
  show "(type_at s d \<le> TL_WRITE_DELAYED \<or> type_at s d = TL_WRITE_ONLY) \<and>
        \<not> (type_at s d = TL_WRITE_CONCURRENT_INSERT \<and> type_at s r = TL_READ_NO_INSERT)"
    if r: "r \<in> set (reads (locks s l))" for r
  proof -
    have b: "write_beside_reads s l (type_at s d)" using beside r by auto
    have "type_at s r \<noteq> TL_READ_NO_INSERT" if "read_no_write_count (locks s l) = 0"
      using lock_okD(4)[OF requestingD(2)[OF req]] that r by (auto simp: ok_count_def filter_empty_conv)
    then show ?thesis using b by (auto simp: write_beside_reads_def)
  qed
qed (use t nil in \<open>simp_all add: write_type_def\<close>)

lemma thr_lock_write_inv:
  assumes req: "requesting s l d" and t: "write_type s l (type_at s d)"
    and weaker: "weaker_than_held s l (owner_at s d) (type_at s d)"
  shows "lock_inv (fst (thr_lock_write s l d own (type_at s d)))"
proof (cases "writes (locks s l)")
  case (Cons w ws)
  have "lock_inv (grant_write s l d 0)"
    if "type_at s w \<noteq> TL_WRITE_ONLY" "owner_at s d = owner_at s w \<or>
      (type_at s d = TL_WRITE_ALLOW_WRITE \<and> write_wait (locks s l) = [] \<and> type_at s w = TL_WRITE_ALLOW_WRITE)"
    using that grant_same_owner_inv[OF req t Cons _ _ weaker] grant_allow_write_inv[OF req _ Cons] by blast
  moreover have "lock_inv (fst (deadlock_or_wait s True l d own))"
    using t Cons by (intro deadlock_or_wait_inv[OF req]) (auto simp: write_type_def)
  moreover have "lock_inv (upd_data d (\<lambda>x. x\<lparr>type_of := TL_UNLOCK\<rparr>) s)" using requestingD(1)[OF requesting_retype[OF req]] .
  ultimately show ?thesis unfolding thr_lock_write_def Let_def Cons list.case by simp
next
  case Nil
  show ?thesis
  proof (cases "write_wait (locks s l) = []")
    case False
    have "lock_inv (fst (deadlock_or_wait s True l d own))"
      using t awake_waiter_reads[OF requestingD(3)[OF req] Nil False] by (intro deadlock_or_wait_inv[OF req]) (auto simp: write_type_def)
    then show ?thesis using False unfolding thr_lock_write_def Let_def Nil list.case by simp
  next
    case True
    define upgrade where "upgrade = (type_at s d = TL_WRITE_CONCURRENT_INSERT \<and> call_check_status s l d)"
    define lt where "lt = (if upgrade then thr_upgraded_concurrent_insert_lock s else type_at s d)"
    define s1 where "s1 = upd_data d (\<lambda>x. x\<lparr>type_of := lt\<rparr>) s"
    have req1: "requesting s1 l d" unfolding s1_def by (rule requesting_retype[OF req])
    have ty1: "type_at s1 d = lt" "locks s1 = locks s" by (simp_all add: s1_def)
    have up: "thr_upgraded_concurrent_insert_lock s \<in> {TL_WRITE_LOW_PRIORITY, TL_WRITE}" using requestingD(1)[OF req] by (simp add: lock_inv_def)
    then have t1: "write_type s1 l (type_at s1 d)"
      using t unfolding ty1(1) by (auto simp: lt_def write_type_def ty1(2) tl_order)
    have eq: "fst (thr_lock_write s l d own (type_at s d)) = (if reads (locks s l) = [] \<or> write_beside_reads s1 l lt
       then grant_write s1 l d (if type_at s d = TL_WRITE_CONCURRENT_INSERT \<and> \<not> upgrade then 1 else 0)
       else fst (deadlock_or_wait s1 True l d own))"
      unfolding thr_lock_write_def Let_def Nil list.case if_P[OF True] upgrade_def[symmetric] lt_def[symmetric] s1_def[symmetric] by simp
    have "lock_inv (fst (deadlock_or_wait s1 True l d own))" if "reads (locks s l) \<noteq> []"
      using t1 that by (intro deadlock_or_wait_inv[OF req1]) (auto simp: write_type_def ty1)
    then show ?thesis unfolding eq using grant_first_write_inv[OF req1 t1] Nil ty1 by auto
  qed
qed

end
