(* ===== verification/Lock_Steps.thy ===== *)
theory Lock_Steps
  imports Lock_Ops
begin

text \<open>
  The system of all threads that use the table locks. A step is one call of the lock manager
  under the mutex of its lock, or the return of a thread from the wait in \<open>wait_for_lock\<close>; any
  interleaving is a sequence of steps. The guards are what the callers of the lock manager
  keep to: an instance is requested once and released while it is held, an owner that holds
  write locks on a table only asks for weaker ones (\<open>thr_multi_lock\<close> sorts its requests
  strongest first), and the delayed insert calls are made by the holder of the delayed lock.
\<close>

subsection \<open>A request keeps the invariant\<close>

definition effective_type :: "thr_state \<Rightarrow> nat \<Rightarrow> thr_lock_type \<Rightarrow> thr_lock_type" where
  "effective_type s l t =
     (if t = TL_WRITE_CONCURRENT_INSERT \<and> check_status (locks s l) = None
      then thr_upgraded_concurrent_insert_lock s else t)"

definition may_request :: "thr_state \<Rightarrow> nat \<Rightarrow> nat \<Rightarrow> thr_lock_type \<Rightarrow> bool" where
  "may_request s l own t \<longleftrightarrow> TL_READ \<le> t \<and> t \<noteq> TL_WRITE_DEFAULT \<and>
     (TL_WRITE_ALLOW_WRITE \<le> t \<longrightarrow> weaker_than_held s l own (effective_type s l t))"

lemma read_or_write: "t \<le> TL_READ_NO_INSERT \<or> TL_WRITE_ALLOW_WRITE \<le> t"
  by (cases t) (simp_all add: tl_order)

lemma weaker_than_held_cong:
  assumes "locks s' = locks s" "\<And>x. x \<in> set (writes (locks s l)) \<Longrightarrow> datas s' x = datas s x"
  shows "weaker_than_held s' l own t = weaker_than_held s l own t"
  using assms by (cases "writes (locks s l)") (auto simp: weaker_than_held_def)

lemma requesting_start:
  assumes inv: "lock_inv s" and l: "lock_of (datas s d) = l" and d: "d \<notin> set (members (locks s l))"
    and n: "length (members (locks s l)) < 2 ^ 32 - 1"
  shows "requesting (upd_data d (\<lambda>x. x\<lparr>cond := False, type_of := t, owner := own\<rparr>) s) l d"
  using lock_inv_outside[OF inv, of d "upd_data d (\<lambda>x. x\<lparr>cond := False, type_of := t, owner := own\<rparr>) s"] l d n
  by (simp add: requesting_def)

lemma thr_lock_inv:
  assumes inv: "lock_inv s0" and l: "lock_of (datas s0 d) = l" and d: "d \<notin> set (members (locks s0 l))"
    and n: "length (members (locks s0 l)) < 2 ^ 32 - 1" and may: "may_request s0 l own t"
  shows "lock_inv (fst (thr_lock s0 d own t))"
proof -
  define s where "s = upd_data d (\<lambda>x. x\<lparr>cond := False, type_of := t, owner := own\<rparr>) s0"
  have req: "requesting s l d" unfolding s_def by (rule requesting_start[OF inv l d n])
  have s: "locks s = locks s0" "type_at s d = t" "owner_at s d = own" by (simp_all add: s_def)
  have wk: "weaker_than_held s l own u = weaker_than_held s0 l own u" for u
    using d by (intro weaker_than_held_cong) (auto simp: s_def members_def)
  show ?thesis
  proof (cases "t \<le> TL_READ_NO_INSERT")
    case True
    then have "fst (thr_lock s0 d own t) = fst (thr_lock_read s l d own (type_at s d))"
      unfolding thr_lock_def Let_def l s_def[symmetric] s(2) by simp
    moreover have "TL_READ \<le> type_at s d" "type_at s d \<le> TL_READ_NO_INSERT" using may True s(2) by (simp_all add: may_request_def)
    ultimately show ?thesis using thr_lock_read_inv[OF req] by simp
  next
    case False
    then have w: "TL_WRITE_ALLOW_WRITE \<le> t" "t \<noteq> TL_WRITE_DEFAULT" "weaker_than_held s l own (effective_type s0 l t)"
      using may read_or_write[of t] unfolding wk by (auto simp: may_request_def)
    have plain: "lock_inv (fst (thr_lock_write s l d own t))"
      if "t \<noteq> TL_WRITE_CONCURRENT_INSERT \<or> check_status (locks s l) \<noteq> None"
    proof -
      have "write_type s l t" using w that by (auto simp: write_type_def)
      moreover have "effective_type s0 l t = t" using that by (auto simp: effective_type_def s(1))
      ultimately show ?thesis using thr_lock_write_inv[OF req, of own] w(3) by (simp add: s)
    qed
    have abort: "lock_inv (upd_data d (\<lambda>x. x\<lparr>type_of := TL_UNLOCK\<rparr>) s)" using requestingD(1)[OF requesting_retype[OF req]] .
    have delayed: "lock_inv ((upd_data d (\<lambda>x. x\<lparr>cond := True\<rparr>) (upd_lock l (\<lambda>L. L\<lparr>write_wait := write_wait L @ [d]\<rparr>) s))
          \<lparr>locks_immediate := locks_immediate s + 1\<rparr>)"
      if "t = TL_WRITE_DELAYED" "writes (locks s l) \<noteq> [] \<or> reads (locks s l) \<noteq> []"
      using wait_inv[OF req, of True] that s(2) by (simp add: wait_for_lock_enter_def lock_inv_def tl_order)
    have upgraded: "lock_inv (fst (thr_lock_write (upd_data d (\<lambda>x. x\<lparr>type_of := u\<rparr>) s) l d own u))"
      if "t = TL_WRITE_CONCURRENT_INSERT" "check_status (locks s l) = None" "u = thr_upgraded_concurrent_insert_lock s" for u
    proof -
      let ?s1 = "upd_data d (\<lambda>x. x\<lparr>type_of := u\<rparr>) s"
      have "write_type ?s1 l u" using requestingD(1)[OF req] that(3) by (auto simp: lock_inv_def write_type_def tl_order)
      moreover have "weaker_than_held ?s1 l own u = weaker_than_held s l own u"
        using requestingD(5)[OF req] by (intro weaker_than_held_cong) (auto simp: members_def)
      moreover have "effective_type s0 l t = u" using that by (simp add: effective_type_def s(1)) (simp add: s_def)
      ultimately show ?thesis using thr_lock_write_inv[OF requesting_retype[OF req, of u], of own] w(3) by (simp add: s)
    qed
    show ?thesis unfolding thr_lock_def Let_def l s_def[symmetric]
      using False plain abort delayed upgraded by auto
  qed
qed

subsection \<open>The step relation\<close>

definition idle :: "thr_state \<Rightarrow> nat \<Rightarrow> bool" where
  "idle s d \<longleftrightarrow> d \<notin> set (members (locks s (lock_of (datas s d))))"

inductive thr_step :: "thr_state \<Rightarrow> thr_state \<Rightarrow> bool" where
  init_lock: "members (locks s l) = [] \<Longrightarrow> thr_step s (thr_lock_init s l)"
| delete_lock: "thr_step s (thr_lock_delete s l)"
| set_callbacks: "members (locks s l) = [] \<Longrightarrow>
    thr_step s (upd_lock l (\<lambda>L. L\<lparr>get_status := g, copy_status := c, update_status := u, restore_status := r, check_status := k\<rparr>) s)"
| init_info: "thr_step s (thr_lock_info_init s i self self_id)"
| init_data: "idle s d \<Longrightarrow> thr_step s (thr_lock_data_init s l d param)"
| set_type: "idle s d \<Longrightarrow> thr_step s (upd_data d (\<lambda>x. x\<lparr>type_of := t\<rparr>) s)"
| request: "idle s d \<Longrightarrow> length (members (locks s (lock_of (datas s d)))) < 2 ^ 32 - 1 \<Longrightarrow>
    may_request s (lock_of (datas s d)) own t \<Longrightarrow> thr_step s (fst (thr_lock s d own t))"
| release: "l = lock_of (datas s d) \<Longrightarrow>
    d \<in> set (reads (locks s l)) \<union> set (writes (locks s l)) \<union> set (write_wait (locks s l)) \<Longrightarrow> thr_step s (thr_unlock s d)"
| wake: "l = lock_of (datas s d) \<Longrightarrow>
    (cond (datas s d) \<Longrightarrow> d \<in> set (read_wait (locks s l)) \<union> set (write_wait (locks s l))) \<Longrightarrow>
    thr_step s (fst (wait_for_lock_wake s d timed_out))"
| abort: "thr_step s (thr_abort_locks s l)"
| abort_thread: "thr_step s (fst (thr_abort_locks_for_thread s l thr))"
| upgrade: "l = lock_of (datas s d) \<Longrightarrow>
    (type_at s d \<noteq> TL_UNLOCK \<Longrightarrow> \<not> TL_WRITE_LOW_PRIORITY \<le> type_at s d \<Longrightarrow> type_at s d = TL_WRITE_DELAYED \<and>
       (d \<in> set (write_wait (locks s l)) \<or> writes (locks s l) \<noteq> [] \<and> d = hd (writes (locks s l)))) \<Longrightarrow>
    thr_step s (fst (thr_upgrade_write_delay_lock s d))"
| reschedule: "writes (locks s (lock_of (datas s d))) = [d] \<Longrightarrow> thr_step s (fst (thr_reschedule_write_lock s d))"

inductive reachable :: "thr_state \<Rightarrow> bool" where
  start: "(\<And>l. members (locks s l) = []) \<Longrightarrow> (\<And>l. read_no_write_count (locks s l) = 0) \<Longrightarrow>
    thr_upgraded_concurrent_insert_lock s \<in> {TL_WRITE_LOW_PRIORITY, TL_WRITE} \<Longrightarrow> reachable s"
| step: "reachable s \<Longrightarrow> thr_step s s' \<Longrightarrow> reachable s'"

lemma lock_ok_empty: "members L = [] \<Longrightarrow> read_no_write_count L = 0 \<Longrightarrow> lock_ok l L D"
  by (auto simp: lock_ok_def ok_defs members_def)

lemma lock_awake_empty: "members L = [] \<Longrightarrow> lock_awake L"
  by (auto simp: lock_awake_def members_def)

lemma ok_empty_count: "lock_ok l L D \<Longrightarrow> members L = [] \<Longrightarrow> read_no_write_count L = 0"
  by (simp add: lock_ok_def ok_count_def members_def)

lemma members_callbacks:
  "members (L\<lparr>get_status := g, copy_status := c, update_status := u, restore_status := r, check_status := k\<rparr>) = members L"
  by (simp add: members_def)

lemma thr_step_inv: "thr_step s s' \<Longrightarrow> lock_inv s \<Longrightarrow> lock_inv s'"
proof (induction rule: thr_step.induct)
  case (init_lock s l)
  show ?case
    by (rule lock_inv_step[OF init_lock.prems, of l])
      (auto simp: only_lock_def thr_lock_init_def members_def intro!: lock_ok_empty lock_awake_empty)
next
  case (set_callbacks s l g c u r k)
  have "read_no_write_count (locks s l) = 0" using ok_empty_count[OF lock_invD(1)[OF set_callbacks.prems] set_callbacks.hyps] .
  then show ?case using set_callbacks.hyps
    by (intro lock_inv_step[OF set_callbacks.prems only_lock_upd(1)] lock_ok_empty lock_awake_empty) (simp_all add: members_callbacks)
next
  case (init_data s d l param)
  then show ?case
    by (intro lock_inv_outside[OF init_data.prems, of d]) (auto simp: idle_def thr_lock_data_init_def)
next
  case (set_type s d t)
  then show ?case by (intro lock_inv_outside[OF set_type.prems, of d]) (auto simp: idle_def)
next
  case (request s d own t)
  then show ?case using thr_lock_inv[OF request.prems refl] by (simp add: idle_def)
next
  case (delete_lock s l)
  then show ?case by (simp add: lock_inv_def thr_lock_delete_def)
next
  case (init_info s i self self_id)
  then show ?case by (simp add: lock_inv_def thr_lock_info_init_def)
qed (simp_all add: thr_unlock_inv[OF _ refl] wait_for_lock_wake_inv[OF _ refl] thr_abort_locks_inv
      thr_abort_locks_for_thread_inv upgrade_inv[OF _ refl] reschedule_inv[OF _ refl])

lemma reachable_inv: "reachable s \<Longrightarrow> lock_inv s"
proof (induction rule: reachable.induct)
  case (start s)
  then show ?case by (simp add: lock_inv_def lock_ok_empty lock_awake_empty)
next
  case (step s s')
  then show ?case using thr_step_inv by blast
qed

subsection \<open>What the lock manager guarantees\<close>

text \<open>A first state: lock 0 of a table with concurrent inserts, instances and owners unused.\<close>

definition quiet :: thr_state where
  "quiet = \<lparr>locks = (\<lambda>_. \<lparr>read_wait = [], reads = [], write_wait = [], writes = [], write_lock_count = 0,
       read_no_write_count = 0, get_status = True, copy_status = True, update_status = True, restore_status = True,
       check_status = Some (\<lambda>_. False)\<rparr>),
     datas = (\<lambda>d. \<lparr>owner = 0, lock_of = 0, cond = False, type_of = TL_UNLOCK, status_param = d\<rparr>),
     owner_info = (\<lambda>n. n), infos = (\<lambda>i. \<lparr>thread = i, thread_id = i, n_cursors = 0\<rparr>), thr_lock_thread_list = [0],
     max_write_lock_count = 4294967295, thr_upgraded_concurrent_insert_lock = TL_WRITE,
     locks_immediate = 0, locks_waited = 0, calls = []\<rparr>"

text \<open>Requests (instance, owner, type) one after the other.\<close>

fun ask :: "thr_state \<Rightarrow> (nat \<times> nat \<times> thr_lock_type) list \<Rightarrow> thr_state" where
  "ask s [] = s"
| "ask s ((d, own, t) # rs) = ask (fst (thr_lock s d own t)) rs"

lemma reachable_quiet: "reachable quiet"
  by (rule reachable.start) (simp_all add: quiet_def members_def)

fun ask_ok :: "thr_state \<Rightarrow> (nat \<times> nat \<times> thr_lock_type) list \<Rightarrow> bool" where
  "ask_ok s [] = True"
| "ask_ok s ((d, own, t) # rs) = (idle s d \<and> length (members (locks s (lock_of (datas s d)))) < 2 ^ 32 - 1 \<and>
     may_request s (lock_of (datas s d)) own t \<and> ask_ok (fst (thr_lock s d own t)) rs)"

lemma reachable_ask: "reachable s \<Longrightarrow> ask_ok s rs \<Longrightarrow> reachable (ask s rs)"
proof (induction s rs rule: ask.induct)
  case (2 s d own t rs)
  then have "thr_step s (fst (thr_lock s d own t))" by (intro thr_step.request) simp_all
  then show ?case using 2 reachable.step by simp
qed simp

lemmas lock_eval = quiet_def idle_def members_def may_request_def effective_type_def weaker_than_held_def thr_lock_def
  thr_lock_read_def thr_lock_write_def grant_read_def grant_write_def call_get_status_def log_call_def upd_lock_def upd_data_def
  write_beside_reads_def call_check_status_def deadlock_or_wait_def wait_for_lock_enter_def Let_def tl_order

text \<open>C7. In every reachable state, if two owners hold write locks on the same table at the same time, both hold
  them with \<open>TL_WRITE_ALLOW_WRITE\<close> (which leaves row locking to the engine), or with the \<open>TL_WRITE_ONLY\<close> that an
  abort of the table's locks leaves behind.\<close>

theorem write_locks_exclusive:
  assumes "reachable s" "a \<in> set (writes (locks s l))" "b \<in> set (writes (locks s l))" "owner_at s a \<noteq> owner_at s b"
  shows "type_at s a \<in> {TL_WRITE_ALLOW_WRITE, TL_WRITE_ONLY} \<and> type_at s b \<in> {TL_WRITE_ALLOW_WRITE, TL_WRITE_ONLY}"
  using ok_writesD(1)[OF lock_okD(5)[OF lock_invD(1)[OF reachable_inv[OF assms(1)]]], of l] assms(2-) by blast

theorem write_locks_exclusive_witness:
  "let s = ask quiet [(1, 10, TL_WRITE_ALLOW_WRITE), (2, 20, TL_WRITE_ALLOW_WRITE)]
   in type_at s 1 \<in> {TL_WRITE_ALLOW_WRITE, TL_WRITE_ONLY} \<and> type_at s 2 \<in> {TL_WRITE_ALLOW_WRITE, TL_WRITE_ONLY}"
proof -
  let ?rs = "[(1, 10, TL_WRITE_ALLOW_WRITE), (2, 20, TL_WRITE_ALLOW_WRITE)]"
  have r: "reachable (ask quiet ?rs)" by (rule reachable_ask[OF reachable_quiet]) (simp add: lock_eval)
  show ?thesis unfolding Let_def by (rule write_locks_exclusive[OF r, where l = 0]) (simp_all add: lock_eval)
qed

text \<open>C8. In every reachable state, a read lock held beside the write lock of another owner means that the write
  lock is one that lets readers in, and a reader that excludes inserts (\<open>TL_READ_NO_INSERT\<close>) is never beside a
  concurrent insert.\<close>

theorem readers_beside_writers:
  assumes "reachable s" "w \<in> set (writes (locks s l))" "r \<in> set (reads (locks s l))" "owner_at s r \<noteq> owner_at s w"
  shows "(type_at s w \<le> TL_WRITE_DELAYED \<or> type_at s w = TL_WRITE_ONLY) \<and>
    \<not> (type_at s w = TL_WRITE_CONCURRENT_INSERT \<and> type_at s r = TL_READ_NO_INSERT)"
  using lock_okD(6)[OF lock_invD(1)[OF reachable_inv[OF assms(1)]], of l] assms(2-) unfolding ok_beside_def by blast

theorem readers_beside_writers_witness:
  "let s = ask quiet [(1, 10, TL_WRITE_CONCURRENT_INSERT), (2, 20, TL_READ)]
   in (type_at s 1 \<le> TL_WRITE_DELAYED \<or> type_at s 1 = TL_WRITE_ONLY) \<and>
      \<not> (type_at s 1 = TL_WRITE_CONCURRENT_INSERT \<and> type_at s 2 = TL_READ_NO_INSERT)"
proof -
  let ?rs = "[(1, 10, TL_WRITE_CONCURRENT_INSERT), (2, 20, TL_READ)]"
  have r: "reachable (ask quiet ?rs)" by (rule reachable_ask[OF reachable_quiet]) (simp add: lock_eval)
  show ?thesis unfolding Let_def by (rule readers_beside_writers[OF r, where l = 0]) (simp_all add: lock_eval)
qed

text \<open>C9. No lost wake-up: in every reachable state a lock that nobody holds has nobody waiting for it, and readers
  wait only while a write lock is held or requested.\<close>

theorem no_lost_wakeup:
  assumes "reachable s"
  shows "(writes (locks s l) = [] \<and> reads (locks s l) = [] \<longrightarrow> write_wait (locks s l) = [] \<and> read_wait (locks s l) = []) \<and>
    (writes (locks s l) = [] \<and> write_wait (locks s l) = [] \<longrightarrow> read_wait (locks s l) = [])"
  using lock_invD(2)[OF reachable_inv[OF assms], of l] by (simp only: lock_awake_def)

theorem no_lost_wakeup_witness:
  "let s = thr_unlock (ask quiet [(1, 10, TL_WRITE), (2, 20, TL_READ)]) 1
   in reads (locks s 0) = [2] \<and> (writes (locks s 0) = [] \<and> write_wait (locks s 0) = [] \<longrightarrow> read_wait (locks s 0) = [])"
proof -
  let ?s = "ask quiet [(1, 10, TL_WRITE), (2, 20, TL_READ)]"
  have "reachable ?s" by (rule reachable_ask[OF reachable_quiet]) (simp add: lock_eval)
  then have r: "reachable (thr_unlock ?s 1)"
    by (rule reachable.step) (rule thr_step.release[OF refl], simp add: lock_eval)
  have "reads (locks (thr_unlock ?s 1) 0) = [2]"
    by (simp add: lock_eval thr_unlock_def unlink_def wake_up_waiters_def wake_when_free_def free_all_read_locks_def)
  then show ?thesis unfolding Let_def using no_lost_wakeup[OF r, of 0] by blast
qed

subsection \<open>No request is lost\<close>

lemma free_all_members: "mset (members (locks (free_all_read_locks s l ci) l)) = mset (members (locks s l))"
proof -
  let ?P = "\<lambda>d. type_at s d = TL_READ_NO_INSERT \<and> ci"
  have "mset (filter (\<lambda>d. \<not> ?P d) (read_wait (locks s l))) + mset (filter ?P (read_wait (locks s l))) = mset (read_wait (locks s l))"
    using multiset_partition[of "mset (read_wait (locks s l))" ?P] by (simp add: union_commute)
  then show ?thesis by (simp add: members_def free_all_reads free_all_read_wait free_all_writes)
qed

lemma granted_members:
  "granted l gs rest s s' \<Longrightarrow> write_wait (locks s l) = gs @ rest \<Longrightarrow> mset (members (locks s' l)) = mset (members (locks s l))"
  by (drule granted_lock) (simp add: members_def)

lemma wake_free_members: "mset (members (locks (wake_when_free s l) l)) = mset (members (locks s l))"
proof (cases "write_wait (locks s l)")
  case Nil
  then show ?thesis by (simp add: wake_when_free_def free_all_members)
next
  case (Cons d ws)
  let ?over = "max_write_lock_count s < write_lock_count (locks s l)"
  let ?s1 = "upd_lock l (\<lambda>L. L\<lparr>write_lock_count := (if ?over then 0 else write_lock_count L + 1)\<rparr>) s"
  note cnt = set_write_lock_count[where l = l and s = s and n = "\<lambda>L. if ?over then 0 else write_lock_count L + 1"]
  obtain s2 d2 where g2: "grant_writes_alone ?s1 l ws d = (s2, d2)" by fastforce
  obtain gs rest where gs: "d # ws = gs @ rest" "granted l gs rest ?s1 s2" "d2 = last gs"
    using grant_writes_alone_granted[OF g2] by blast
  have q: "write_wait (locks ?s1 l) = gs @ rest" using Cons gs(1) by (simp add: cnt(1))
  have m2: "mset (members (locks s2 l)) = mset (members (locks s l))" using granted_members[OF gs(2) q] by (simp only: cnt(4))
  have m1: "mset (members (locks (free_all_read_locks ?s1 l False) l)) = mset (members (locks s l))"
    unfolding free_all_members cnt(4) ..
  show ?thesis
    unfolding wake_when_free_def Let_def Cons list.case g2 prod.case using m1 m2
    by (simp only: free_all_members split: if_split) blast
qed

lemma wake_beside_members: "mset (members (locks (wake_beside_reads s l) l)) = mset (members (locks s l))"
proof (cases "write_wait (locks s l)")
  case Nil
  then show ?thesis by (simp add: wake_beside_reads_def free_all_members)
next
  case (Cons d ws)
  define s2 where "s2 = grant_writes_beside s l (type_at s d) (d # ws)"
  let ?s1 = "upd_data d (\<lambda>x. x\<lparr>type_of := TL_WRITE\<rparr>) s"
  obtain gs rest where gs: "d # ws = gs @ rest" "granted l gs rest s s2"
    unfolding s2_def using grant_writes_beside_granted[where s = s and d = d and ws = ws and l = l, OF refl] by blast
  have m2: "mset (members (locks s2 l)) = mset (members (locks s l))" using granted_members[OF gs(2)] Cons gs(1) by simp
  have m1: "mset (members (locks (free_all_read_locks ?s1 l False) l)) = mset (members (locks s l))"
    "mset (members (locks ?s1 l)) = mset (members (locks s l))" unfolding free_all_members by simp_all
  show ?thesis
    unfolding wake_beside_reads_def Let_def Cons list.case s2_def[symmetric] using m1 m2
    by (simp only: free_all_members split: if_split) blast
qed

lemma wake_up_members: "mset (members (locks (wake_up_waiters s l) l)) = mset (members (locks s l))"
  by (simp add: wake_up_waiters_def wake_free_members wake_beside_members)


subsection \<open>The outcome of a request\<close>

definition joined :: "nat \<Rightarrow> THR_LOCK \<Rightarrow> THR_LOCK \<Rightarrow> (THR_LOCK \<Rightarrow> nat list) \<Rightarrow> bool" where
  "joined d L L' q \<longleftrightarrow> q L' = q L @ [d] \<and> mset (members L') = add_mset d (mset (members L))"

definition outcome_ok :: "nat \<Rightarrow> thr_lock_type \<Rightarrow> THR_LOCK \<Rightarrow> THR_LOCK \<Rightarrow> THR_LOCK_DATA \<Rightarrow> lock_outcome \<Rightarrow> bool" where
  "outcome_ok d t L L' D out = (case out of
       Result THR_LOCK_SUCCESS \<Rightarrow>
         (if t \<le> TL_READ_NO_INSERT then joined d L L' reads
          else joined d L L' writes \<or> t = TL_WRITE_DELAYED \<and> joined d L L' write_wait)
     | Blocked \<Rightarrow> joined d L L' (if t \<le> TL_READ_NO_INSERT then read_wait else write_wait) \<and> cond D
     | _ \<Rightarrow> members L' = members L)"

lemma joined_grant:
  "joined d (locks s l) (locks (grant_read s l d t) l) reads"
  "joined d (locks s l) (locks (grant_write s l d ci) l) writes"
  by (simp_all add: joined_def grant_read_def grant_write_def Let_def members_def)

lemma joined_wait:
  "joined d (locks s l) (locks (wait_for_lock_enter s write_queue l d False) l) (if write_queue then write_wait else read_wait)"
  "cond (datas (wait_for_lock_enter s write_queue l d False) d)"
  by (simp_all add: joined_def wait_for_lock_enter_def Let_def members_def)

text \<open>The parts of a request, each with the state and outcome it returns.\<close>

definition ends_ok :: "nat \<Rightarrow> thr_lock_type \<Rightarrow> nat \<Rightarrow> thr_state \<Rightarrow> thr_state \<times> lock_outcome \<Rightarrow> bool" where
  "ends_ok d t l s r = outcome_ok d t (locks s l) (locks (fst r) l) (datas (fst r) d) (snd r)"

lemma ends_ok_cong: "locks s1 = locks s \<Longrightarrow> ends_ok d t l s1 r = ends_ok d t l s r"
  by (simp add: ends_ok_def)

lemma ends_ok_abort: "ends_ok d t l s (upd_data d f s, Result THR_LOCK_ABORTED)"
  by (simp add: ends_ok_def outcome_ok_def)

lemma ends_ok_wait:
  assumes "write_queue \<longleftrightarrow> \<not> t \<le> TL_READ_NO_INSERT"
  shows "ends_ok d t l s (deadlock_or_wait s write_queue l d own)"
proof -
  have "deadlock_or_wait s write_queue l d own = (s, Result THR_LOCK_DEADLOCK) \<or>
      deadlock_or_wait s write_queue l d own = (wait_for_lock_enter s write_queue l d False, Blocked)"
    by (auto simp: deadlock_or_wait_def Let_def split: list.splits)
  then show ?thesis using assms joined_wait[where s = s and l = l and d = d and write_queue = write_queue]
    by (auto simp: ends_ok_def outcome_ok_def split: if_splits)
qed

lemma ends_ok_grant:
  "t \<le> TL_READ_NO_INSERT \<Longrightarrow> ends_ok d t l s (grant_read s l d t, Result THR_LOCK_SUCCESS)"
  "\<not> t \<le> TL_READ_NO_INSERT \<Longrightarrow> ends_ok d t l s (grant_write s l d ci, Result THR_LOCK_SUCCESS)"
  by (simp_all add: ends_ok_def outcome_ok_def joined_grant)

lemma ends_ok_read: "t \<le> TL_READ_NO_INSERT \<Longrightarrow> ends_ok d t l s (thr_lock_read s l d own t)"
  by (simp add: thr_lock_read_def Let_def ends_ok_abort ends_ok_wait ends_ok_grant split: list.split)

lemma ends_ok_write:
  assumes t: "\<not> t \<le> TL_READ_NO_INSERT"
  shows "ends_ok d t l s (thr_lock_write s l d own u)"
proof -
  have 1: "ends_ok d t l s (deadlock_or_wait (upd_data d f s) True l d own)"
    "ends_ok d t l s (grant_write (upd_data d f s) l d ci, Result THR_LOCK_SUCCESS)" for f ci
    using ends_ok_wait[of True t d l "upd_data d f s" own] ends_ok_grant(2)[OF t, of d l "upd_data d f s" ci] t
    by (simp_all add: ends_ok_cong[of "upd_data d f s" s])
  have 2: "ends_ok d t l s (deadlock_or_wait s True l d own)" using ends_ok_wait[of True t] t by simp
  show ?thesis unfolding thr_lock_write_def Let_def
    by (simp only: 1 2 ends_ok_abort ends_ok_grant(2)[OF t] split: list.split if_split) simp
qed



subsection \<open>The locking order of several locks\<close>

lemma LOCK_CMP_trans: "\<not> LOCK_CMP s b a \<Longrightarrow> \<not> LOCK_CMP s c b \<Longrightarrow> \<not> LOCK_CMP s c a"
  by (simp add: LOCK_CMP_def)

lemma sort_insert_mset: "mset (sort_insert s x ps) = add_mset x (mset ps)"
  by (induction ps) auto

lemma sort_insert_sorted:
  "sorted_wrt (\<lambda>a b. \<not> LOCK_CMP s a b) ps \<Longrightarrow> sorted_wrt (\<lambda>a b. \<not> LOCK_CMP s a b) (sort_insert s x ps)"
proof (induction ps)
  case (Cons p ps)
  have "set (sort_insert s x ps) = insert x (set ps)" using sort_insert_mset[of s x ps] by (metis set_mset_add_mset_insert set_mset_mset)
  then show ?case using Cons by (auto simp: LOCK_CMP_def)
qed simp

lemma sort_locks_fold:
  "sorted_wrt (\<lambda>a b. \<not> LOCK_CMP s a b) acc \<Longrightarrow>
     sorted_wrt (\<lambda>a b. \<not> LOCK_CMP s a b) (foldl (\<lambda>sorted tmp. sort_insert s tmp sorted) acc ds) \<and>
     mset (foldl (\<lambda>sorted tmp. sort_insert s tmp sorted) acc ds) = mset acc + mset ds"
  by (induction ds arbitrary: acc) (auto simp: sort_insert_sorted sort_insert_mset)

lemma tl_code_range: "t \<noteq> TL_IGNORE \<Longrightarrow> tl_code t mod 2 ^ 32 = tl_code t \<and> 0 \<le> tl_code t \<and> tl_code t \<le> 12"
  by (cases t) simp_all

text \<open>C12. \<open>sort_locks\<close> permutes the requests of a statement into the order that all threads use: by the address of the
  lock, and for the same lock the strongest type first. (The address of a lock less the code of a type stays
  between neighbouring locks, which are more than thirteen bytes apart; \<open>TL_IGNORE\<close> is never requested.)\<close>

theorem sort_locks_order:
  assumes "\<forall>a \<in> set ds. type_at s a \<noteq> TL_IGNORE"
    "\<forall>a \<in> set ds. \<forall>b \<in> set ds. lock_of (datas s a) < lock_of (datas s b) \<longrightarrow> lock_of (datas s a) + 13 < lock_of (datas s b)"
  shows "mset (sort_locks s ds) = mset ds \<and>
    sorted_wrt (\<lambda>a b. lock_of (datas s a) < lock_of (datas s b) \<or>
      lock_of (datas s a) = lock_of (datas s b) \<and> type_at s b \<le> type_at s a) (sort_locks s ds)"
proof -
  have m: "mset (sort_locks s ds) = mset ds" and srt: "sorted_wrt (\<lambda>a b. \<not> LOCK_CMP s b a) (sort_locks s ds)"
    using sort_locks_fold[of s "[]" ds] by (simp_all add: sort_locks_def sorted_wrt_rev)
  have set: "set (sort_locks s ds) = set ds" using mset_eq_setD[OF m] .
  have "lock_of (datas s a) < lock_of (datas s b) \<or> lock_of (datas s a) = lock_of (datas s b) \<and> type_at s b \<le> type_at s a"
    if that: "a \<in> set ds" "b \<in> set ds" "\<not> LOCK_CMP s b a" for a b
  proof -
    note code = tl_code_range[OF assms(1)[rule_format, OF that(1)]] tl_code_range[OF assms(1)[rule_format, OF that(2)]]
    show ?thesis
    proof (cases "lock_of (datas s b) < lock_of (datas s a)")
    case True
    then have "lock_of (datas s b) + 13 < lock_of (datas s a)" using assms(2) that by blast
    then show ?thesis using that(3) code by (simp add: LOCK_CMP_def)
  next
    case False
    then show ?thesis using that(3) code by (auto simp: LOCK_CMP_def less_eq_thr_lock_type_def)
    qed
  qed
  then have "sorted_wrt (\<lambda>a b. lock_of (datas s a) < lock_of (datas s b) \<or>
      lock_of (datas s a) = lock_of (datas s b) \<and> type_at s b \<le> type_at s a) (sort_locks s ds)"
    by (intro sorted_wrt_mono_rel[OF _ srt]) (simp add: set)
  then show ?thesis using m by blast
qed

theorem sort_locks_order_witness:
  "let s = upd_data 2 (\<lambda>x. x\<lparr>type_of := TL_WRITE\<rparr>) (upd_data 1 (\<lambda>x. x\<lparr>type_of := TL_READ, lock_of := 400\<rparr>) quiet)
   in mset (sort_locks s [1, 3, 2]) = mset [1, 3, 2] \<and>
    sorted_wrt (\<lambda>a b. lock_of (datas s a) < lock_of (datas s b) \<or>
      lock_of (datas s a) = lock_of (datas s b) \<and> type_at s b \<le> type_at s a) (sort_locks s [1, 3, 2])"
  unfolding Let_def by (rule sort_locks_order) (simp_all add: quiet_def)

text \<open>C13. The comment of \<open>thr_lock\<close> and the consistency checker rule out a \<open>TL_READ_NO_INSERT\<close> lock beside another
  owner's \<open>TL_WRITE_ALLOW_WRITE\<close> lock, but the condition in the code grants it: two requests reach a state in which
  both are held and \<open>check_locks\<close> counts an error.\<close>

theorem read_no_insert_beside_allow_write:
  "let s = ask quiet [(1, 10, TL_WRITE_ALLOW_WRITE), (2, 20, TL_READ_NO_INSERT)]
   in reachable s \<and> writes (locks s 0) = [1] \<and> reads (locks s 0) = [2] \<and>
      type_at s 1 = TL_WRITE_ALLOW_WRITE \<and> type_at s 2 = TL_READ_NO_INSERT \<and> owner_at s 1 \<noteq> owner_at s 2 \<and>
      check_locks s 0 True 0 = 1"
proof -
  have "reachable (ask quiet [(1, 10, TL_WRITE_ALLOW_WRITE), (2, 20, TL_READ_NO_INSERT)])"
    by (rule reachable_ask[OF reachable_quiet]) (simp add: lock_eval)
  then show ?thesis
    by (simp add: lock_eval check_locks_def check_lock_def check_counts_def check_write_held_def)
qed

end
