(* ===== verification/RB_Tree.thy ===== *)
theory RB_Tree
  imports Prelude
begin

text \<open>
  The red-black trees of \<open>mysys/tree.c\<close>, used for memory tables, full-text search and sorting
  with duplicates.

  A \<open>TREE_ELEMENT\<close> is a node with colour, key and count, or the sentinel \<open>null_element\<close>. The
  array \<open>parents\<close> of links from the root down to the current node is a list of frames, nearest
  first: \<open>Left_of\<close> (\<open>Right_of\<close>) is the left (right) link of its node together with the rest of
  that node, so writing through \<open>parent[0]\<close> is replacing the focused subtree. The array has
  \<open>MAX_TREE_HEIGHT\<close> entries; a descent past it, and a read through a null pointer, is \<open>None\<close>.
  Sizes are those of a 64-bit platform. The memory pool is not modelled: whether an allocation
  succeeds is an argument; the calls of the free callback are recorded in \<open>freed\<close>.
\<close>

subsection \<open>Elements, links and rotations\<close>

datatype colour = RED | BLACK

datatype 'k TREE_ELEMENT = Null_element | Element colour "'k TREE_ELEMENT" 'k nat "'k TREE_ELEMENT"

datatype 'k frame = Left_of colour 'k nat "'k TREE_ELEMENT" | Right_of colour "'k TREE_ELEMENT" 'k nat

fun colour_of :: "'k TREE_ELEMENT \<Rightarrow> colour" where
  "colour_of Null_element = BLACK"
| "colour_of (Element c l k n r) = c"

fun paint :: "colour \<Rightarrow> 'k TREE_ELEMENT \<Rightarrow> 'k TREE_ELEMENT" where
  "paint c Null_element = Null_element"
| "paint c (Element c' l k n r) = Element c l k n r"

fun frame_colour :: "'k frame \<Rightarrow> colour" where
  "frame_colour (Left_of c k n r) = c"
| "frame_colour (Right_of c l k n) = c"

fun link :: "'k frame \<Rightarrow> 'k TREE_ELEMENT \<Rightarrow> 'k TREE_ELEMENT" where
  "link (Left_of c k n r) t = Element c t k n r"
| "link (Right_of c l k n) t = Element c l k n t"

fun unwind :: "'k TREE_ELEMENT \<Rightarrow> 'k frame list \<Rightarrow> 'k TREE_ELEMENT" where
  "unwind t [] = t"
| "unwind t (f # fs) = unwind (link f t) fs"

fun left_rotate :: "'k TREE_ELEMENT \<Rightarrow> 'k TREE_ELEMENT option" where
  "left_rotate (Element c a k n (Element c' b k' n' d)) = Some (Element c' (Element c a k n b) k' n' d)"
| "left_rotate _ = None"

fun right_rotate :: "'k TREE_ELEMENT \<Rightarrow> 'k TREE_ELEMENT option" where
  "right_rotate (Element c (Element c' a k' n' b) k n d) = Some (Element c' a k' n' (Element c b k n d))"
| "right_rotate _ = None"

subsection \<open>The tree\<close>

datatype 'k free_event = Free_init | Free_free 'k | Free_end

record 'k TREE =
  root :: "'k TREE_ELEMENT"
  offset_to_key :: uint32
  elements_in_tree :: uint32
  size_of_element :: uint32
  memory_limit :: ulonglong
  allocated :: ulonglong
  with_delete :: bool
  free_fn :: bool
  flag :: uint32
  mem_root :: "(uint32 \<times> uint32) option"
  freed :: "'k free_event list"

definition MAX_TREE_HEIGHT :: nat where "MAX_TREE_HEIGHT = 64"

definition TREE_NO_DUPS :: uint32 where "TREE_NO_DUPS = 1"

definition sizeof_TREE_ELEMENT :: nat where "sizeof_TREE_ELEMENT = 24"

definition init_tree :: "ulonglong \<Rightarrow> ulonglong \<Rightarrow> int \<Rightarrow> bool \<Rightarrow> bool \<Rightarrow> 'k TREE" where
  "init_tree default_alloc_size limit sz wdel free_element =
     (let s1 = MY_ALIGN (if default_alloc_size < 8192 then 8192 else default_alloc_size) 8192;
          soe = (if sz > 0 then word_of_int sz else 0 :: uint32);
          usize = (word_of_int sz :: uint32);
          inline = (\<not> free_element \<and> sz \<ge> 0 \<and> (usize \<le> 8 \<or> usize AND 7 \<noteq> 0));
          esize = (word_of_nat sizeof_TREE_ELEMENT + word_of_int sz :: ulonglong);
          s2 = (if inline then (if s1 div esize = 0 then 1 else s1 div esize) * esize else s1);
          soe2 = (if inline then soe else soe + 8)
      in \<lparr>root = Null_element, offset_to_key = (if inline then word_of_nat sizeof_TREE_ELEMENT else 0), elements_in_tree = 0,
          size_of_element = soe2, memory_limit = limit, allocated = 0, with_delete = wdel, free_fn = free_element, flag = 0,
          mem_root = (if wdel then None else Some (ucast s2, word_of_nat sizeof_TREE_ELEMENT + soe2)), freed = []\<rparr>)"

fun delete_tree_element :: "bool \<Rightarrow> 'k TREE_ELEMENT \<Rightarrow> 'k free_event list" where
  "delete_tree_element fr Null_element = []"
| "delete_tree_element fr (Element c l k n r) =
     delete_tree_element fr l @ (if fr then [Free_free k] else []) @ delete_tree_element fr r"

definition free_tree :: "'k TREE \<Rightarrow> 'k TREE" where
  "free_tree t =
     (let evs = (if with_delete t then delete_tree_element (free_fn t) (root t)
                 else if free_fn t then
                   (if memory_limit t \<noteq> 0 then [Free_init] else []) @ delete_tree_element True (root t) @
                   (if memory_limit t \<noteq> 0 then [Free_end] else [])
                 else [])
      in t\<lparr>root := Null_element, elements_in_tree := 0, allocated := 0, freed := freed t @ evs\<rparr>)"

definition delete_tree :: "'k TREE \<Rightarrow> 'k TREE" where "delete_tree t = free_tree t"

definition reset_tree :: "'k TREE \<Rightarrow> 'k TREE" where "reset_tree t = free_tree t"

subsection \<open>Insertion\<close>

text \<open>The search loop of insertion and deletion: the focused link and the links above it.\<close>

fun descend :: "('k \<Rightarrow> 'k \<Rightarrow> int) \<Rightarrow> 'k \<Rightarrow> 'k TREE_ELEMENT \<Rightarrow> 'k frame list \<Rightarrow> ('k TREE_ELEMENT \<times> 'k frame list) option" where
  "descend cmp key Null_element fs = Some (Null_element, fs)"
| "descend cmp key (Element c l k n r) fs =
     (let d = cmp k key in
      if d = 0 then Some (Element c l k n r, fs)
      else if length fs + 1 < MAX_TREE_HEIGHT then
        if d < 0 then descend cmp key r (Right_of c l k n # fs)
        else descend cmp key l (Left_of c k n r # fs)
      else None)"

text \<open>\<open>rb_insert\<close>: \<open>leaf\<close> is red, its parent is in the first frame, its grandparent in the second.\<close>

fun rb_insert_loop :: "'k TREE_ELEMENT \<Rightarrow> 'k frame list \<Rightarrow> 'k TREE_ELEMENT option" where
  "rb_insert_loop leaf [] = Some leaf"
| "rb_insert_loop leaf [f] = (if frame_colour f = RED then None else Some (link f leaf))"
| "rb_insert_loop leaf (f # g # fs) =
     (if frame_colour f \<noteq> RED then Some (unwind leaf (f # g # fs))
      else case g of
        Left_of c2 k2 n2 y \<Rightarrow>
          if colour_of y = RED
          then rb_insert_loop (Element RED (paint BLACK (link f leaf)) k2 n2 (paint BLACK y)) fs
          else do {
            par \<leftarrow> (case f of Right_of _ _ _ _ \<Rightarrow> left_rotate (link f leaf) | Left_of _ _ _ _ \<Rightarrow> Some (link f leaf));
            t \<leftarrow> right_rotate (Element RED (paint BLACK par) k2 n2 y);
            Some (unwind t fs)
          }
      | Right_of c2 y k2 n2 \<Rightarrow>
          if colour_of y = RED
          then rb_insert_loop (Element RED (paint BLACK y) k2 n2 (paint BLACK (link f leaf))) fs
          else do {
            par \<leftarrow> (case f of Left_of _ _ _ _ \<Rightarrow> right_rotate (link f leaf) | Right_of _ _ _ _ \<Rightarrow> Some (link f leaf));
            t \<leftarrow> left_rotate (Element RED y k2 n2 (paint BLACK par));
            Some (unwind t fs)
          })"

definition rb_insert :: "'k TREE_ELEMENT \<Rightarrow> 'k frame list \<Rightarrow> 'k TREE_ELEMENT option" where
  "rb_insert leaf fs = map_option (paint BLACK) (rb_insert_loop (paint RED leaf) fs)"

text \<open>The 31-bit count of an element that is inserted again.\<close>

definition count_up :: "nat \<Rightarrow> nat" where
  "count_up n = (let m = (n + 1) mod 2 ^ 31 in if m = 0 then 2 ^ 31 - 1 else m)"

definition alloc_size :: "'k TREE \<Rightarrow> uint32 \<Rightarrow> uint32" where
  "alloc_size t key_size = word_of_nat sizeof_TREE_ELEMENT + key_size + size_of_element t"

text \<open>The result pairs the tree with the key and count of the element returned, \<open>None\<close> for \<open>NULL\<close>.\<close>

function tree_insert :: "('k \<Rightarrow> 'k \<Rightarrow> int) \<Rightarrow> bool \<Rightarrow> 'k TREE \<Rightarrow> 'k \<Rightarrow> uint32 \<Rightarrow> ('k TREE \<times> ('k \<times> nat) option) option" where
  "tree_insert cmp malloc_ok t key key_size =
     (case descend cmp key (root t) [] of
        None \<Rightarrow> None
      | Some (Null_element, fs) \<Rightarrow>
          (let t1 = t\<lparr>allocated := allocated t + ucast (alloc_size t key_size)\<rparr> in
           if memory_limit t1 \<noteq> 0 \<and> elements_in_tree t1 \<noteq> 0 \<and> allocated t1 > memory_limit t1
           then tree_insert cmp malloc_ok (reset_tree t1) key key_size
           else if \<not> malloc_ok then Some (t1, None)
           else do {
             r \<leftarrow> rb_insert (Element RED Null_element key 1 Null_element) fs;
             Some (t1\<lparr>root := r, elements_in_tree := elements_in_tree t1 + 1\<rparr>, Some (key, 1))
           })
      | Some (Element c l k n r, fs) \<Rightarrow>
          if flag t AND TREE_NO_DUPS \<noteq> 0 then Some (t, None)
          else Some (t\<lparr>root := unwind (Element c l k (count_up n) r) fs\<rparr>, Some (k, count_up n)))"
  by pat_completeness auto
termination
  by (relation "measure (\<lambda>(cmp, m, t, key, ks). unat (elements_in_tree t))")
    (auto simp: reset_tree_def free_tree_def Let_def unat_gt_0)

declare tree_insert.simps [simp del]

subsection \<open>Deletion\<close>

text \<open>
  One round of \<open>rb_delete_fixup\<close> for a black \<open>x\<close> whose parent is in the first frame. A red
  sibling is first rotated above the parent (\<open>sibling_up\<close>); then the sibling is recoloured and
  the loop goes on at the parent (\<open>Up\<close>), or rotations finish the work (\<open>Done\<close>).
\<close>

fun sibling_up :: "'k frame \<Rightarrow> 'k frame list \<Rightarrow> ('k frame \<times> 'k frame list) option" where
  "sibling_up (Left_of c k n w) fs =
     (case w of
        Element RED wl wk wn wr \<Rightarrow>
          if length fs + 2 < MAX_TREE_HEIGHT then Some (Left_of RED k n wl, Left_of BLACK wk wn wr # fs) else None
      | _ \<Rightarrow> Some (Left_of c k n w, fs))"
| "sibling_up (Right_of c w k n) fs =
     (case w of
        Element RED wl wk wn wr \<Rightarrow>
          if length fs + 2 < MAX_TREE_HEIGHT then Some (Right_of RED wr k n, Right_of BLACK wl wk wn # fs) else None
      | _ \<Rightarrow> Some (Right_of c w k n, fs))"

datatype 'k fixup = Up "'k TREE_ELEMENT" | Done "'k TREE_ELEMENT"

fun fix_sibling :: "'k TREE_ELEMENT \<Rightarrow> 'k frame \<Rightarrow> 'k fixup option" where
  "fix_sibling x (Left_of c k n w) =
     (case w of
        Null_element \<Rightarrow> None
      | Element wc wl wk wn wr \<Rightarrow>
          if colour_of wl = BLACK \<and> colour_of wr = BLACK then Some (Up (Element c x k n (Element RED wl wk wn wr)))
          else do {
            w1 \<leftarrow> (if colour_of wr = BLACK then right_rotate (Element RED (paint BLACK wl) wk wn wr) else Some w);
            (case w1 of
               Null_element \<Rightarrow> None
             | Element _ l1 k1 n1 r1 \<Rightarrow>
                 map_option Done (left_rotate (Element BLACK x k n (Element c l1 k1 n1 (paint BLACK r1)))))
          })"
| "fix_sibling x (Right_of c w k n) =
     (case w of
        Null_element \<Rightarrow> None
      | Element wc wl wk wn wr \<Rightarrow>
          if colour_of wr = BLACK \<and> colour_of wl = BLACK then Some (Up (Element c (Element RED wl wk wn wr) k n x))
          else do {
            w1 \<leftarrow> (if colour_of wl = BLACK then left_rotate (Element RED wl wk wn (paint BLACK wr)) else Some w);
            (case w1 of
               Null_element \<Rightarrow> None
             | Element _ l1 k1 n1 r1 \<Rightarrow>
                 map_option Done (right_rotate (Element BLACK (Element c (paint BLACK l1) k1 n1 r1) k n x)))
          })"

lemma sibling_up_colour: "sibling_up f fs = Some (f', fs') \<Longrightarrow> fs' = fs \<or> frame_colour f' = RED \<and> length fs' = length fs + 1"
  by (cases f) (auto split: TREE_ELEMENT.splits colour.splits if_splits)

lemma fix_sibling_colour: "fix_sibling x f = Some (Up t) \<Longrightarrow> colour_of t = frame_colour f"
  by (cases f) (auto split: TREE_ELEMENT.splits if_splits bind_splits)

function rb_delete_fixup :: "'k TREE_ELEMENT \<Rightarrow> 'k frame list \<Rightarrow> 'k TREE_ELEMENT option" where
  "rb_delete_fixup x [] = Some (paint BLACK x)"
| "rb_delete_fixup x (f # fs) =
     (if colour_of x = RED then Some (unwind (paint BLACK x) (f # fs))
      else case sibling_up f fs of
        None \<Rightarrow> None
      | Some (f', fs') \<Rightarrow>
          (case fix_sibling x f' of
             None \<Rightarrow> None
           | Some (Done t) \<Rightarrow> Some (paint BLACK (unwind t fs'))
           | Some (Up t) \<Rightarrow> rb_delete_fixup t fs'))"
  by pat_completeness auto
termination
proof (relation "measure (\<lambda>(x, fs). 2 * length fs + (if colour_of x = RED then 0 else 1))")
  fix x :: "'k TREE_ELEMENT" and f fs r f' fs' y t
  assume "colour_of x \<noteq> RED" "sibling_up f fs = Some r" "(f', fs') = r" "fix_sibling x f' = Some y" "y = Up t"
  then show "((t, fs'), x, f # fs) \<in> measure (\<lambda>(x, fs). 2 * length fs + (if colour_of x = RED then 0 else 1))"
    using sibling_up_colour[of f fs f' fs'] fix_sibling_colour[of x f' t] by auto
qed simp

text \<open>The successor of a node with two children is the leftmost node of its right subtree.\<close>

fun leftmost :: "'k TREE_ELEMENT \<Rightarrow> 'k frame list \<Rightarrow> ('k TREE_ELEMENT \<times> 'k frame list) option" where
  "leftmost (Element c l k n r) fs =
     (if l = Null_element then Some (Element c l k n r, fs)
      else if length fs + 1 < MAX_TREE_HEIGHT then leftmost l (Left_of c k n r # fs) else None)"
| "leftmost Null_element fs = None"

text \<open>Unlinking an element: the subtree put in its place, the links above it and the colour removed.\<close>

definition unlink_element ::
  "'k TREE_ELEMENT \<Rightarrow> 'k frame list \<Rightarrow> ('k TREE_ELEMENT \<times> 'k frame list \<times> colour) option" where
  "unlink_element e fs =
     (case e of
        Null_element \<Rightarrow> None
      | Element c l k n r \<Rightarrow>
          if l = Null_element then Some (r, fs, c)
          else if r = Null_element then Some (l, fs, c)
          else if length fs + 1 < MAX_TREE_HEIGHT then
            (case leftmost r [] of
               Some (Element nc nl nk nn nr, gs) \<Rightarrow>
                 if length gs + (length fs + 1) < MAX_TREE_HEIGHT
                 then Some (nr, gs @ Right_of c l nk nn # fs, nc) else None
             | _ \<Rightarrow> None)
          else None)"

definition tree_delete :: "('k \<Rightarrow> 'k \<Rightarrow> int) \<Rightarrow> 'k TREE \<Rightarrow> 'k \<Rightarrow> uint32 \<Rightarrow> ('k TREE \<times> int) option" where
  "tree_delete cmp t key key_size =
     (if \<not> with_delete t then Some (t, 1)
      else case descend cmp key (root t) [] of
        None \<Rightarrow> None
      | Some (Null_element, fs) \<Rightarrow> Some (t, 1)
      | Some (Element c l k n r, fs) \<Rightarrow>
          (case unlink_element (Element c l k n r) fs of
             None \<Rightarrow> None
           | Some (x, gs, remove_colour) \<Rightarrow> do {
               r' \<leftarrow> (if remove_colour = BLACK then rb_delete_fixup x gs else Some (unwind x gs));
               Some (t\<lparr>root := r', freed := freed t @ (if free_fn t then [Free_free k] else []),
                       allocated := allocated t - (word_of_nat sizeof_TREE_ELEMENT + ucast (size_of_element t) + ucast key_size),
                       elements_in_tree := elements_in_tree t - 1\<rparr>, 0)
             }))"

subsection \<open>Searching and walking\<close>

fun tree_search :: "('k \<Rightarrow> 'k \<Rightarrow> int) \<Rightarrow> 'k TREE_ELEMENT \<Rightarrow> 'k \<Rightarrow> 'k option" where
  "tree_search cmp Null_element key = None"
| "tree_search cmp (Element c l k n r) key =
     (let d = cmp k key in if d = 0 then Some k else if d < 0 then tree_search cmp r key else tree_search cmp l key)"

datatype ha_rkey_function =
    HA_READ_KEY_EXACT | HA_READ_KEY_OR_NEXT | HA_READ_KEY_OR_PREV | HA_READ_AFTER_KEY | HA_READ_BEFORE_KEY
  | HA_READ_PREFIX | HA_READ_PREFIX_LAST | HA_READ_PREFIX_LAST_OR_PREV | HA_READ_MBR_CONTAIN
  | HA_READ_MBR_INTERSECT | HA_READ_MBR_WITHIN | HA_READ_MBR_DISJOINT | HA_READ_MBR_EQUAL

text \<open>A position in the tree: an element with the links above it (\<open>last_pos\<close> and the array below it).\<close>

type_synonym 'k tree_pos = "'k TREE_ELEMENT \<times> 'k frame list"

fun pos_key :: "'k tree_pos \<Rightarrow> 'k option" where
  "pos_key (Element c l k n r, fs) = Some k"
| "pos_key (Null_element, fs) = None"

text \<open>
  The loop of \<open>tree_search_key\<close> with its three remembered positions. \<open>Inl ()\<close> is the early
  return for a flag that the function does not support.
\<close>

fun search_key_loop :: "('k \<Rightarrow> 'k \<Rightarrow> int) \<Rightarrow> ha_rkey_function \<Rightarrow> 'k \<Rightarrow> 'k TREE_ELEMENT \<Rightarrow> 'k frame list \<Rightarrow>
    'k tree_pos option \<Rightarrow> 'k tree_pos option \<Rightarrow> 'k tree_pos option \<Rightarrow>
    unit + 'k tree_pos option \<times> 'k tree_pos option \<times> 'k tree_pos option" where
  "search_key_loop cmp fl key Null_element fs lft rgt eql = Inr (lft, rgt, eql)"
| "search_key_loop cmp fl key (Element c l k n r) fs lft rgt eql =
     (let here = Some (Element c l k n r, fs);
          go_right = (\<lambda>e. search_key_loop cmp fl key r (Right_of c l k n # fs) lft here e);
          go_left = (\<lambda>e. search_key_loop cmp fl key l (Left_of c k n r # fs) here rgt e);
          d = cmp k key
      in if d = 0 then
           if fl \<in> {HA_READ_KEY_EXACT, HA_READ_KEY_OR_NEXT, HA_READ_BEFORE_KEY} then go_left here
           else if fl = HA_READ_AFTER_KEY then go_right eql
           else if fl \<in> {HA_READ_PREFIX_LAST, HA_READ_PREFIX_LAST_OR_PREV} then go_right here
           else Inl ()
         else if d < 0 then go_right eql else go_left eql)"

definition tree_search_key :: "('k \<Rightarrow> 'k \<Rightarrow> int) \<Rightarrow> 'k TREE_ELEMENT \<Rightarrow> 'k \<Rightarrow> ha_rkey_function \<Rightarrow> 'k tree_pos option" where
  "tree_search_key cmp rt key fl =
     (case search_key_loop cmp fl key rt [] None None None of
        Inl _ \<Rightarrow> None
      | Inr (lft, rgt, eql) \<Rightarrow>
          if fl \<in> {HA_READ_KEY_EXACT, HA_READ_PREFIX_LAST} then eql
          else if fl = HA_READ_KEY_OR_NEXT then (if eql \<noteq> None then eql else lft)
          else if fl = HA_READ_AFTER_KEY then lft
          else if fl = HA_READ_PREFIX_LAST_OR_PREV then (if eql \<noteq> None then eql else rgt)
          else if fl = HA_READ_BEFORE_KEY then rgt
          else None)"

text \<open>\<open>ELEMENT_CHILD\<close> with the offset of \<open>left\<close> or of \<open>right\<close>.\<close>

datatype side = Lft | Rgt

fun ELEMENT_CHILD :: "'k TREE_ELEMENT \<Rightarrow> side \<Rightarrow> 'k TREE_ELEMENT" where
  "ELEMENT_CHILD (Element c l k n r) Lft = l"
| "ELEMENT_CHILD (Element c l k n r) Rgt = r"
| "ELEMENT_CHILD Null_element s = Null_element"

fun child_frame :: "'k TREE_ELEMENT \<Rightarrow> side \<Rightarrow> 'k frame list" where
  "child_frame (Element c l k n r) Lft = [Left_of c k n r]"
| "child_frame (Element c l k n r) Rgt = [Right_of c l k n]"
| "child_frame Null_element s = []"

fun frame_side :: "'k frame \<Rightarrow> side" where
  "frame_side (Left_of c k n r) = Lft"
| "frame_side (Right_of c l k n) = Rgt"

fun tree_search_edge :: "side \<Rightarrow> 'k TREE_ELEMENT \<Rightarrow> 'k frame list \<Rightarrow> 'k tree_pos option" where
  "tree_search_edge s Null_element fs = None"
| "tree_search_edge s (Element c l k n r) fs =
     (let e = Element c l k n r in
      case ELEMENT_CHILD e s of
        Null_element \<Rightarrow> Some (e, fs)
      | _ \<Rightarrow> (case s of Lft \<Rightarrow> tree_search_edge s l (Left_of c k n r # fs)
                       | Rgt \<Rightarrow> tree_search_edge s r (Right_of c l k n # fs)))"

text \<open>\<open>tree_search_next\<close>: down the \<open>r_offs\<close> child and to its edge, or up while coming from \<open>r_offs\<close>.\<close>

fun climb :: "side \<Rightarrow> 'k TREE_ELEMENT \<Rightarrow> 'k frame list \<Rightarrow> 'k tree_pos option" where
  "climb r x [] = None"
| "climb r x (f # fs) = (if frame_side f = r then climb r (link f x) fs else Some (link f x, fs))"

definition tree_search_next :: "side \<Rightarrow> side \<Rightarrow> 'k tree_pos \<Rightarrow> 'k tree_pos option" where
  "tree_search_next l_offs r_offs p =
     (case p of (x, fs) \<Rightarrow>
        if ELEMENT_CHILD x r_offs \<noteq> Null_element
        then tree_search_edge l_offs (ELEMENT_CHILD x r_offs) (child_frame x r_offs @ fs)
        else climb r_offs x fs)"

fun tree_walk_left_root_right :: "('k \<Rightarrow> nat \<Rightarrow> 's \<Rightarrow> int \<times> 's) \<Rightarrow> 'k TREE_ELEMENT \<Rightarrow> 's \<Rightarrow> int \<times> 's" where
  "tree_walk_left_root_right action Null_element s = (0, s)"
| "tree_walk_left_root_right action (Element c l k n r) s =
     (let (e1, s1) = tree_walk_left_root_right action l s in
      if e1 \<noteq> 0 then (e1, s1)
      else let (e2, s2) = action k n s1 in
        if e2 \<noteq> 0 then (e2, s2) else tree_walk_left_root_right action r s2)"

fun tree_walk_right_root_left :: "('k \<Rightarrow> nat \<Rightarrow> 's \<Rightarrow> int \<times> 's) \<Rightarrow> 'k TREE_ELEMENT \<Rightarrow> 's \<Rightarrow> int \<times> 's" where
  "tree_walk_right_root_left action Null_element s = (0, s)"
| "tree_walk_right_root_left action (Element c l k n r) s =
     (let (e1, s1) = tree_walk_right_root_left action r s in
      if e1 \<noteq> 0 then (e1, s1)
      else let (e2, s2) = action k n s1 in
        if e2 \<noteq> 0 then (e2, s2) else tree_walk_right_root_left action l s2)"

datatype TREE_WALK = left_root_right | right_root_left

definition tree_walk :: "('k \<Rightarrow> nat \<Rightarrow> 's \<Rightarrow> int \<times> 's) \<Rightarrow> 'k TREE \<Rightarrow> 's \<Rightarrow> TREE_WALK \<Rightarrow> int \<times> 's" where
  "tree_walk action t s visit =
     (case visit of left_root_right \<Rightarrow> tree_walk_left_root_right action (root t) s
      | right_root_left \<Rightarrow> tree_walk_right_root_left action (root t) s)"

text \<open>The debug check: the number of black nodes on every path, or \<open>-1\<close>.\<close>

fun test_rb_tree :: "'k TREE_ELEMENT \<Rightarrow> int" where
  "test_rb_tree Null_element = 0"
| "test_rb_tree (Element c l k n r) =
     (if c = RED \<and> (colour_of l = RED \<or> colour_of r = RED) then -1
      else
        let count_l = test_rb_tree l; count_r = test_rb_tree r in
        if count_l \<ge> 0 \<and> count_r \<ge> 0 then
          if count_l = count_r then count_l + (if c = BLACK then 1 else 0) else -1
        else -1)"

end
