(* ===== verification/RB_Tree_Props.thy ===== *)
theory RB_Tree_Props
  imports RB_Tree
begin

text \<open>
  What the red-black trees of \<open>RB_Tree\<close> guarantee. The invariant is the usual one: the elements
  are strictly ordered by the comparison function, no red node has a red child, every path has
  the same number of black nodes and the root is black. \<open>path_ok\<close> is the part of the colour
  invariant that lies outside the focused subtree, so that the loops that walk the \<open>parents\<close>
  array upwards are proved one frame at a time.
\<close>

subsection \<open>Contents and colour invariant\<close>

fun inorder :: "'k TREE_ELEMENT \<Rightarrow> ('k \<times> nat) list" where
  "inorder Null_element = []"
| "inorder (Element c l k n r) = inorder l @ (k, n) # inorder r"

fun ctx_left :: "'k frame list \<Rightarrow> ('k \<times> nat) list" where
  "ctx_left [] = []"
| "ctx_left (Left_of c k n r # fs) = ctx_left fs"
| "ctx_left (Right_of c l k n # fs) = ctx_left fs @ inorder l @ [(k, n)]"

fun ctx_right :: "'k frame list \<Rightarrow> ('k \<times> nat) list" where
  "ctx_right [] = []"
| "ctx_right (Left_of c k n r # fs) = (k, n) # inorder r @ ctx_right fs"
| "ctx_right (Right_of c l k n # fs) = ctx_right fs"

lemma inorder_unwind [simp]: "inorder (unwind t fs) = ctx_left fs @ inorder t @ ctx_right fs"
proof (induction fs arbitrary: t)
  case (Cons f fs)
  then show ?case by (cases f) simp_all
qed simp

lemma inorder_paint [simp]: "inorder (paint c t) = inorder t"
  by (cases t) simp_all

lemma unwind_append: "unwind t (fs @ gs) = unwind (unwind t fs) gs"
  by (induction fs arbitrary: t) simp_all

lemma ctx_append: "ctx_left (fs @ gs) = ctx_left gs @ ctx_left fs" "ctx_right (fs @ gs) = ctx_right fs @ ctx_right gs"
proof (induction fs)
  case (Cons f fs)
  { case 1 show ?case using Cons by (cases f) simp_all }
  { case 2 show ?case using Cons by (cases f) simp_all }
qed simp_all

fun bheight :: "'k TREE_ELEMENT \<Rightarrow> nat" where
  "bheight Null_element = 0"
| "bheight (Element c l k n r) = bheight l + (if c = BLACK then 1 else 0)"

fun rb_wf :: "'k TREE_ELEMENT \<Rightarrow> bool" where
  "rb_wf Null_element = True"
| "rb_wf (Element c l k n r) \<longleftrightarrow> rb_wf l \<and> rb_wf r \<and> bheight l = bheight r \<and>
     (c = RED \<longrightarrow> colour_of l = BLACK \<and> colour_of r = BLACK)"

fun frame_sibling :: "'k frame \<Rightarrow> 'k TREE_ELEMENT" where
  "frame_sibling (Left_of c k n r) = r"
| "frame_sibling (Right_of c l k n) = l"

fun path_ok :: "nat \<Rightarrow> colour \<Rightarrow> 'k frame list \<Rightarrow> bool" where
  "path_ok n c [] = True"
| "path_ok n c (f # fs) \<longleftrightarrow> rb_wf (frame_sibling f) \<and> bheight (frame_sibling f) = n \<and>
     (frame_colour f = RED \<longrightarrow> c = BLACK \<and> colour_of (frame_sibling f) = BLACK) \<and>
     path_ok (n + (if frame_colour f = BLACK then 1 else 0)) (frame_colour f) fs"

lemma colour_simps [simp]: "c \<noteq> RED \<longleftrightarrow> c = BLACK" "c \<noteq> BLACK \<longleftrightarrow> c = RED"
  by (cases c; simp)+

lemma path_ok_weaken: "path_ok n c fs \<Longrightarrow> path_ok n BLACK fs"
  by (cases fs) auto

lemma rb_wf_unwind: "rb_wf (unwind t fs) \<longleftrightarrow> rb_wf t \<and> path_ok (bheight t) (colour_of t) fs"
proof (induction fs arbitrary: t)
  case (Cons f fs)
  show ?case by (cases f) (auto simp: Cons.IH)
qed simp

lemma bheight_paint_red: "colour_of t = BLACK \<Longrightarrow> t \<noteq> Null_element \<Longrightarrow> bheight t = Suc (bheight (paint RED t))"
  by (cases t) simp_all

lemma paint_simps [simp]:
  "colour_of t = c \<Longrightarrow> paint c t = t" "colour_of (paint BLACK t) = BLACK" "paint c (paint c' t) = paint c t"
  "paint c t = Null_element \<longleftrightarrow> t = Null_element"
  by (cases t; simp)+

lemma rb_wf_paint: "rb_wf t \<Longrightarrow> rb_wf (paint BLACK t)" "colour_of t = RED \<Longrightarrow> bheight (paint BLACK t) = Suc (bheight t)"
  by (cases t; simp)+

lemma colour_unwind: "colour_of (unwind t fs) = (if fs = [] then colour_of t else frame_colour (last fs))"
proof (induction fs arbitrary: t)
  case (Cons f fs)
  have "colour_of (link f t) = frame_colour f" by (cases f) simp_all
  then show ?case using Cons by simp
qed simp

text \<open>The debug check of the source decides the invariant.\<close>

lemma test_rb_tree_wf: "rb_wf t \<Longrightarrow> test_rb_tree t = int (bheight t)"
  by (induction t) (auto simp: Let_def)

lemma test_rb_tree_ge: "0 \<le> test_rb_tree t \<Longrightarrow> rb_wf t"
proof (induction t)
  case (Element c l k n r)
  then have "0 \<le> test_rb_tree l" "0 \<le> test_rb_tree r" "test_rb_tree l = test_rb_tree r"
    "c = RED \<longrightarrow> colour_of l = BLACK \<and> colour_of r = BLACK"
    by (auto simp: Let_def split: if_splits)
  then show ?case using Element.IH test_rb_tree_wf[of l] test_rb_tree_wf[of r] by auto
qed simp

subsection \<open>Height\<close>

fun height :: "'k TREE_ELEMENT \<Rightarrow> nat" where
  "height Null_element = 0"
| "height (Element c l k n r) = Suc (max (height l) (height r))"

lemma height_bheight: "rb_wf t \<Longrightarrow> height t \<le> 2 * bheight t + (if colour_of t = RED then 1 else 0)"
  by (induction t) (auto split: if_splits)

lemma bheight_size: "rb_wf t \<Longrightarrow> 2 ^ bheight t \<le> length (inorder t) + 1"
  by (induction t) auto

lemma height_bound:
  assumes "rb_wf t" "colour_of t = BLACK" "length (inorder t) < 2 ^ 31"
  shows "height t \<le> 62"
proof -
  have "(2::nat) ^ bheight t \<le> 2 ^ 31" using bheight_size[OF assms(1)] assms(3) by linarith
  then have "bheight t \<le> 31" by (simp only: power_increasing_iff)
  then show ?thesis using height_bheight[OF assms(1)] assms(2) by simp
qed

subsection \<open>Rebalancing after an insertion\<close>

lemma rb_insert_loop_ok:
  assumes "path_ok n BLACK fs" "rb_wf leaf" "bheight leaf = n" "colour_of leaf = RED"
    and "fs \<noteq> [] \<Longrightarrow> frame_colour (last fs) = BLACK"
  shows "\<exists>t. rb_insert_loop leaf fs = Some t \<and> rb_wf t \<and> inorder t = ctx_left fs @ inorder leaf @ ctx_right fs"
  using assms
proof (induction leaf fs arbitrary: n rule: rb_insert_loop.induct)
  case (2 leaf f)
  then show ?case by (cases f) auto
next
  case (3 leaf f g fs)
  show ?case
  proof (cases "frame_colour f = RED")
    case False
    then have "rb_insert_loop leaf (f # g # fs) = Some (unwind leaf (f # g # fs))" by simp
    moreover have "rb_wf (unwind leaf (f # g # fs))"
      using "3.prems" False unfolding rb_wf_unwind by simp
    ultimately show ?thesis using inorder_unwind[of leaf "f # g # fs"] by (simp del: unwind.simps ctx_left.simps ctx_right.simps)
  next
    case red: True
    have g: "frame_colour g = BLACK" "rb_wf (frame_sibling g)" "bheight (frame_sibling g) = n" "path_ok (Suc n) BLACK fs"
      and f: "rb_wf (frame_sibling f)" "bheight (frame_sibling f) = n" "colour_of (frame_sibling f) = BLACK"
      using "3.prems"(1) red by (cases "frame_colour g"; simp)+
    have last: "fs \<noteq> [] \<Longrightarrow> frame_colour (last fs) = BLACK" using "3.prems"(5) by simp
    have linked: "rb_wf (paint BLACK (link f leaf))" "bheight (paint BLACK (link f leaf)) = Suc n"
      using f "3.prems"(2,3) red by (cases f; simp)+
    obtain c1 a1 k1 n1 b1 where leaf: "leaf = Element RED a1 k1 n1 b1" using "3.prems"(4) by (cases leaf) auto
    show ?thesis
    proof (cases g)
      case gl: (Left_of c2 k2 n2 y)
      show ?thesis
      proof (cases "colour_of y = RED")
        case True
        let ?up = "Element RED (paint BLACK (link f leaf)) k2 n2 (paint BLACK y)"
        have "\<exists>t. rb_insert_loop ?up fs = Some t \<and> rb_wf t \<and> inorder t = ctx_left fs @ inorder ?up @ ctx_right fs"
          using "3.IH"(1)[of c2 k2 n2 y "Suc n"] red gl True g linked last by (simp add: rb_wf_paint)
        moreover have "rb_insert_loop leaf (f # g # fs) = rb_insert_loop ?up fs" using red gl True by simp
        ultimately show ?thesis using gl by (cases f) auto
      next
        case False
        have wf: "rb_wf t \<Longrightarrow> bheight t = Suc n \<Longrightarrow> colour_of t = BLACK \<Longrightarrow> rb_wf (unwind t fs)" for t
          using g(4) by (simp add: rb_wf_unwind)
        show ?thesis
          using red gl False f g "3.prems"(2-4) leaf by (cases f) (auto intro!: wf)
      qed
    next
      case gr: (Right_of c2 y k2 n2)
      show ?thesis
      proof (cases "colour_of y = RED")
        case True
        let ?up = "Element RED (paint BLACK y) k2 n2 (paint BLACK (link f leaf))"
        have "\<exists>t. rb_insert_loop ?up fs = Some t \<and> rb_wf t \<and> inorder t = ctx_left fs @ inorder ?up @ ctx_right fs"
          using "3.IH"(2)[of c2 y k2 n2 "Suc n"] red gr True g linked last by (simp add: rb_wf_paint)
        moreover have "rb_insert_loop leaf (f # g # fs) = rb_insert_loop ?up fs" using red gr True by simp
        ultimately show ?thesis using gr by (cases f) auto
      next
        case False
        have wf: "rb_wf t \<Longrightarrow> bheight t = Suc n \<Longrightarrow> colour_of t = BLACK \<Longrightarrow> rb_wf (unwind t fs)" for t
          using g(4) by (simp add: rb_wf_unwind)
        show ?thesis
          using red gr False f g "3.prems"(2-4) leaf by (cases f) (auto intro!: wf)
      qed
    qed
  qed
qed simp

lemma rb_insert_ok:
  assumes wf: "rb_wf (unwind Null_element fs)" and black: "colour_of (unwind Null_element fs) = BLACK"
  shows "\<exists>t. rb_insert (Element RED Null_element key 1 Null_element) fs = Some t \<and> rb_wf t \<and> colour_of t = BLACK \<and>
    inorder t = ctx_left fs @ (key, 1) # ctx_right fs"
proof -
  have "path_ok 0 BLACK fs" using wf by (simp add: rb_wf_unwind)
  moreover have "fs \<noteq> [] \<Longrightarrow> frame_colour (last fs) = BLACK" using black by (simp add: colour_unwind)
  ultimately show ?thesis
    using rb_insert_loop_ok[of 0 fs "Element RED Null_element key 1 Null_element"]
    by (auto simp: rb_insert_def rb_wf_paint)
qed

subsection \<open>Rebalancing after a deletion\<close>

text \<open>After \<open>sibling_up\<close> the sibling of the deficient subtree is a black node.\<close>

lemma sibling_up_ok:
  assumes "path_ok (Suc n) BLACK (f # fs)" "length fs + 2 < MAX_TREE_HEIGHT"
  shows "\<exists>f' fs'. sibling_up f fs = Some (f', fs') \<and> path_ok (Suc n) BLACK (f' # fs') \<and>
    (\<exists>a k m b. frame_sibling f' = Element BLACK a k m b) \<and> ctx_left (f' # fs') = ctx_left (f # fs) \<and> ctx_right (f' # fs') = ctx_right (f # fs) \<and>
    (frame_colour f' = RED \<or> fs' = fs)"
proof -
  obtain c a k m b where sib: "frame_sibling f = Element c a k m b" using assms(1) by (cases "frame_sibling f") auto
  show ?thesis
  proof (cases c)
    case BLACK
    then show ?thesis using assms sib by (cases f) auto
  next
    case RED
    then have col: "frame_colour f = BLACK" "colour_of a = BLACK" "colour_of b = BLACK" "bheight a = Suc n" "rb_wf a" "rb_wf b" "bheight b = Suc n"
      using assms(1) sib by (cases "frame_colour f"; simp)+
    moreover obtain a1 k1 m1 a2 where "a = Element BLACK a1 k1 m1 a2" using col(2,4) by (cases a) auto
    moreover obtain b1 k2 m2 b2 where "b = Element BLACK b1 k2 m2 b2" using col(3,7) by (cases b) auto
    ultimately show ?thesis using assms sib RED by (cases f) auto
  qed
qed

text \<open>Then the step either finishes with the right black height or moves the deficit up by one node.\<close>

lemma fix_sibling_ok:
  assumes path: "path_ok (Suc n) BLACK (f # fs)" and sib: "frame_sibling f = Element BLACK a k m b"
    and x: "rb_wf x" "bheight x = n" "colour_of x = BLACK"
  shows "\<exists>r. fix_sibling x f = Some r \<and>
    (case r of
       Up t \<Rightarrow> rb_wf (paint BLACK t) \<and> colour_of t = frame_colour f \<and> path_ok (Suc (bheight t)) BLACK fs \<and>
         ctx_left fs @ inorder t @ ctx_right fs = ctx_left (f # fs) @ inorder x @ ctx_right (f # fs)
     | Done t \<Rightarrow> rb_wf (unwind t fs) \<and>
         ctx_left fs @ inorder t @ ctx_right fs = ctx_left (f # fs) @ inorder x @ ctx_right (f # fs))"
proof -
  have w: "rb_wf a" "rb_wf b" "bheight a = n" "bheight b = n" using path sib by auto
  have up: "path_ok (Suc n + (if frame_colour f = BLACK then 1 else 0)) (frame_colour f) fs" using path by simp
  have fin: "rb_wf t \<Longrightarrow> bheight t = Suc n + (if frame_colour f = BLACK then 1 else 0) \<Longrightarrow> colour_of t = frame_colour f \<Longrightarrow> rb_wf (unwind t fs)" for t
    using up by (simp add: rb_wf_unwind)
  show ?thesis
  proof (cases "colour_of a = BLACK \<and> colour_of b = BLACK")
    case True
    then show ?thesis using w x sib up path_ok_weaken[OF up] by (cases f) auto
  next
    case False
    consider (near) a1 k1 m1 b1 where "frame_side f = Lft" "colour_of b = BLACK" "a = Element RED a1 k1 m1 b1"
      | (far) a1 k1 m1 b1 where "frame_side f = Lft" "b = Element RED a1 k1 m1 b1"
      | (near') a1 k1 m1 b1 where "frame_side f = Rgt" "colour_of a = BLACK" "b = Element RED a1 k1 m1 b1"
      | (far') a1 k1 m1 b1 where "frame_side f = Rgt" "a = Element RED a1 k1 m1 b1"
      using False by (cases f; cases "colour_of a"; cases "colour_of b"; cases a; cases b) auto
    then show ?thesis
    proof cases
      case near
      then show ?thesis using w x sib by (cases f) (auto intro!: fin)
    next
      case far
      then show ?thesis using w x sib by (cases f) (auto intro!: fin)
    next
      case near'
      then show ?thesis using w x sib by (cases f) (auto intro!: fin)
    next
      case far'
      then show ?thesis using w x sib by (cases f) (auto intro!: fin)
    qed
  qed
qed

lemma rb_delete_fixup_ok:
  assumes "path_ok (Suc (bheight x)) BLACK fs" "rb_wf (paint BLACK x)" "colour_of x = RED \<or> length fs \<le> 62"
    and "fs \<noteq> [] \<Longrightarrow> frame_colour (last fs) = BLACK"
  shows "\<exists>t. rb_delete_fixup x fs = Some t \<and> rb_wf t \<and> colour_of t = BLACK \<and> inorder t = ctx_left fs @ inorder x @ ctx_right fs"
  using assms
proof (induction x fs rule: rb_delete_fixup.induct)
  case (2 x f fs)
  show ?case
  proof (cases "colour_of x = RED")
    case True
    have wf: "rb_wf (unwind (paint BLACK x) (f # fs))"
      using "2.prems"(1,2) True by (subst rb_wf_unwind) (simp add: rb_wf_paint(2))
    have "colour_of (unwind (paint BLACK x) (f # fs)) = BLACK" using "2.prems"(4) by (subst colour_unwind) simp
    moreover have "rb_delete_fixup x (f # fs) = Some (unwind (paint BLACK x) (f # fs))" using True by simp
    ultimately show ?thesis using wf inorder_unwind[of "paint BLACK x" "f # fs"]
      by (simp del: unwind.simps ctx_left.simps ctx_right.simps)
  next
    case False
    then have x: "rb_wf x" "colour_of x = BLACK" using "2.prems"(2) by simp_all
    have "length fs + 2 < MAX_TREE_HEIGHT" using "2.prems"(3) False by (auto simp: MAX_TREE_HEIGHT_def)
    then obtain f' fs' a k m b where up: "sibling_up f fs = Some (f', fs')" "path_ok (Suc (bheight x)) BLACK (f' # fs')"
      "frame_sibling f' = Element BLACK a k m b" "ctx_left (f' # fs') = ctx_left (f # fs)" "ctx_right (f' # fs') = ctx_right (f # fs)"
      "frame_colour f' = RED \<or> fs' = fs"
      using sibling_up_ok[OF "2.prems"(1)] by blast
    have last: "fs' \<noteq> [] \<Longrightarrow> frame_colour (last fs') = BLACK" "fs' = [] \<Longrightarrow> frame_colour f' = BLACK"
      using up(1) "2.prems"(4) by (cases f; auto split: TREE_ELEMENT.splits colour.splits if_splits)+
    obtain r where r: "fix_sibling x f' = Some r"
      "case r of Up t \<Rightarrow> rb_wf (paint BLACK t) \<and> colour_of t = frame_colour f' \<and> path_ok (Suc (bheight t)) BLACK fs' \<and>
         ctx_left fs' @ inorder t @ ctx_right fs' = ctx_left (f' # fs') @ inorder x @ ctx_right (f' # fs')
       | Done t \<Rightarrow> rb_wf (unwind t fs') \<and>
         ctx_left fs' @ inorder t @ ctx_right fs' = ctx_left (f' # fs') @ inorder x @ ctx_right (f' # fs')"
      using fix_sibling_ok[OF up(2,3) x(1) refl x(2)] by blast
    show ?thesis
    proof (cases r)
      case (Done t)
      then have "rb_delete_fixup x (f # fs) = Some (paint BLACK (unwind t fs'))" using False up(1) r(1) by simp
      then show ?thesis using r(2) Done up(4,5) rb_wf_paint(1)[of "unwind t fs'"] by (simp del: rb_delete_fixup.simps)
    next
      case (Up t)
      have eq: "rb_delete_fixup x (f # fs) = rb_delete_fixup t fs'" using False up(1) r(1) Up by simp
      have len: "colour_of t = RED \<or> length fs' \<le> 62" using r(2) Up up(6) "2.prems"(3) False by auto
      have "\<exists>u. rb_delete_fixup t fs' = Some u \<and> rb_wf u \<and> colour_of u = BLACK \<and> inorder u = ctx_left fs' @ inorder t @ ctx_right fs'"
        using r(2) Up len last(1) False by (intro "2.IH"[OF _ up(1) refl r(1)]) auto
      then show ?thesis using eq r(2) Up up(4,5) by simp
    qed
  qed
qed simp

subsection \<open>Unlinking an element\<close>

lemma leftmost_ok:
  assumes "t \<noteq> Null_element" "height t + length fs \<le> 64"
  shows "\<exists>nc nk nn nr gs. leftmost t fs = Some (Element nc Null_element nk nn nr, gs @ fs) \<and>
    unwind (Element nc Null_element nk nn nr) gs = t \<and> ctx_left gs = [] \<and> length gs < height t"
  using assms
proof (induction t arbitrary: fs)
  case (Element c l k n r)
  show ?case
  proof (cases "l = Null_element")
    case True
    then show ?thesis by (auto intro!: exI[of _ "[]"])
  next
    case False
    then have "1 \<le> height l" by (cases l) auto
    then have len: "length fs + 1 < MAX_TREE_HEIGHT" using Element.prems(2) by (simp add: MAX_TREE_HEIGHT_def)
    obtain nc nk nn nr gs where "leftmost l (Left_of c k n r # fs) = Some (Element nc Null_element nk nn nr, gs @ Left_of c k n r # fs)"
      "unwind (Element nc Null_element nk nn nr) gs = l" "ctx_left gs = []" "length gs < height l"
      using Element.IH(1)[OF False, of "Left_of c k n r # fs"] Element.prems(2) by (fastforce simp: max_def split: if_splits)
    then show ?thesis using False len
      by (intro exI[of _ nc] exI[of _ nk] exI[of _ nn] exI[of _ nr] exI[of _ "gs @ [Left_of c k n r]"])
        (auto simp: unwind_append ctx_append)
  qed
qed simp

lemma path_ok_key: "path_ok n c (gs @ Right_of d l k m # fs) = path_ok n c (gs @ Right_of d l k' m' # fs)"
  by (induction gs arbitrary: n c) simp_all

text \<open>The links \<open>gs\<close> above the hole left by an unlinked element, and what a repair has to restore.\<close>

lemma unlink_element_ok:
  assumes e: "e = Element c l k n r" and wf: "rb_wf (unwind e fs)" and black: "colour_of (unwind e fs) = BLACK"
    and h: "height e + length fs \<le> 62"
  shows "\<exists>x gs rc. unlink_element e fs = Some (x, gs, rc) \<and> rb_wf x \<and> length gs \<le> 62 \<and>
    (gs \<noteq> [] \<longrightarrow> frame_colour (last gs) = BLACK) \<and>
    path_ok (bheight x + (if rc = BLACK then 1 else 0)) rc gs \<and> (rc = RED \<longrightarrow> colour_of x = BLACK) \<and> (gs = [] \<longrightarrow> rc = BLACK) \<and>
    ctx_left gs @ inorder x @ ctx_right gs = ctx_left fs @ inorder l @ inorder r @ ctx_right fs"
proof -
  have ok: "rb_wf e" "path_ok (bheight e) (colour_of e) fs" using wf by (simp_all add: rb_wf_unwind)
  have last: "fs \<noteq> [] \<Longrightarrow> frame_colour (last fs) = BLACK" "fs = [] \<Longrightarrow> c = BLACK"
    using black e by (simp_all add: colour_unwind)
  consider (left) "l = Null_element" | (right) "l \<noteq> Null_element" "r = Null_element" | (both) "l \<noteq> Null_element" "r \<noteq> Null_element" by blast
  then show ?thesis
  proof cases
    case left
    then show ?thesis using e ok h last by (auto simp: unlink_element_def)
  next
    case right
    then show ?thesis using e ok h last by (auto simp: unlink_element_def)
  next
    case both
    have "height r + length ([]::'a frame list) \<le> 64" using h e by simp
    from leftmost_ok[OF both(2) this] obtain nc nk nn nr gs where lm: "leftmost r [] = Some (Element nc Null_element nk nn nr, gs)"
      "unwind (Element nc Null_element nk nn nr) gs = r" "ctx_left gs = []" "length gs < height r" by auto
    have whole: "unwind e fs = unwind (Element nc Null_element nk nn nr) (gs @ Right_of c l k n # fs)"
      using lm(2) e by (simp add: unwind_append)
    have len: "length gs + (length fs + 1) \<le> 62" using h e lm(4) by simp
    have "path_ok (bheight (Element nc Null_element nk nn nr)) nc (gs @ Right_of c l k n # fs)" "rb_wf (Element nc Null_element nk nn nr)"
      using wf unfolding whole rb_wf_unwind by simp_all
    moreover have "frame_colour (last (gs @ Right_of c l nk nn # fs)) = BLACK"
      using black unfolding whole colour_unwind by (cases "fs = []") simp_all
    moreover have "inorder r = (nk, nn) # inorder nr @ ctx_right gs" using lm(2,3) inorder_unwind[of _ gs] by (metis append_Cons append_Nil inorder.simps)
    ultimately show ?thesis using lm len both e
      by (auto simp: unlink_element_def MAX_TREE_HEIGHT_def ctx_append path_ok_key[of _ _ gs c l nk nn fs k n])
  qed
qed

end
