(* ===== verification/RB_Tree_Spec.thy ===== *)
theory RB_Tree_Spec
  imports RB_Tree_Props
begin

text \<open>
  The tree operations refine operations on an ordered list of keys with counts: \<open>ins_items\<close> is
  insertion, \<open>del_items\<close> deletion, \<open>search_spec\<close> the search by read flag. The statements also say
  that the \<open>parents\<close> array is never overrun while the tree has fewer than \<open>2 ^ 31\<close> elements.
\<close>

subsection \<open>Ordered lists of keys with counts\<close>

fun ins_items :: "('k \<Rightarrow> 'k \<Rightarrow> int) \<Rightarrow> 'k \<Rightarrow> ('k \<times> nat) list \<Rightarrow> ('k \<times> nat) list" where
  "ins_items cmp key [] = [(key, 1)]"
| "ins_items cmp key ((k, n) # xs) =
     (if cmp k key = 0 then (k, count_up n) # xs
      else if cmp k key < 0 then (k, n) # ins_items cmp key xs
      else (key, 1) # (k, n) # xs)"

definition del_items :: "('k \<Rightarrow> 'k \<Rightarrow> int) \<Rightarrow> 'k \<Rightarrow> ('k \<times> nat) list \<Rightarrow> ('k \<times> nat) list" where
  "del_items cmp key xs = filter (\<lambda>x. cmp (fst x) key \<noteq> 0) xs"

definition has_key :: "('k \<Rightarrow> 'k \<Rightarrow> int) \<Rightarrow> 'k \<Rightarrow> ('k \<times> nat) list \<Rightarrow> bool" where
  "has_key cmp key xs \<longleftrightarrow> (\<exists>x \<in> set xs. cmp (fst x) key = 0)"

definition ordered :: "('k \<Rightarrow> 'k \<Rightarrow> int) \<Rightarrow> ('k \<times> nat) list \<Rightarrow> bool" where
  "ordered cmp xs \<longleftrightarrow> sorted_wrt (\<lambda>x y. cmp (fst x) (fst y) < 0) xs"

lemma ins_items_absent:
  "\<forall>x \<in> set xs. cmp (fst x) key < 0 \<Longrightarrow> \<forall>y \<in> set ys. 0 < cmp (fst y) key \<Longrightarrow>
     ins_items cmp key (xs @ ys) = xs @ (key, 1) # ys"
proof (induction xs)
  case Nil
  then show ?case by (cases ys) auto
qed auto

lemma ins_items_present:
  "\<forall>x \<in> set xs. cmp (fst x) key < 0 \<Longrightarrow> cmp k key = 0 \<Longrightarrow>
     ins_items cmp key (xs @ (k, n) # ys) = xs @ (k, count_up n) # ys"
  by (induction xs) auto

lemma del_items_split:
  "\<forall>x \<in> set xs \<union> set ys. cmp (fst x) key \<noteq> 0 \<Longrightarrow> del_items cmp key (xs @ ys) = xs @ ys"
  by (simp add: del_items_def filter_id_conv)

text \<open>The invariant of a tree.\<close>

definition tree_inv :: "('k \<Rightarrow> 'k \<Rightarrow> int) \<Rightarrow> 'k TREE \<Rightarrow> bool" where
  "tree_inv cmp t \<longleftrightarrow> rb_wf (root t) \<and> colour_of (root t) = BLACK \<and> ordered cmp (inorder (root t)) \<and>
     unat (elements_in_tree t) = length (inorder (root t))"

lemma tree_invD:
  assumes "tree_inv cmp t"
  shows "rb_wf (root t)" "colour_of (root t) = BLACK" "ordered cmp (inorder (root t))"
    "unat (elements_in_tree t) = length (inorder (root t))"
  using assms by (simp_all add: tree_inv_def)

text \<open>The three ways an insertion goes.\<close>

definition over_limit :: "'k TREE \<Rightarrow> uint32 \<Rightarrow> bool" where
  "over_limit t ks \<longleftrightarrow> memory_limit t \<noteq> 0 \<and> elements_in_tree t \<noteq> 0 \<and> allocated t + ucast (alloc_size t ks) > memory_limit t"

definition add_allocated :: "'k TREE \<Rightarrow> uint32 \<Rightarrow> 'k TREE" where
  "add_allocated t ks = t\<lparr>allocated := allocated t + ucast (alloc_size t ks)\<rparr>"

lemma tree_insert_cases:
  "descend cmp key (root t) [] = Some (Null_element, gs) \<Longrightarrow> over_limit t ks \<Longrightarrow>
     tree_insert cmp m t key ks = tree_insert cmp m (reset_tree (add_allocated t ks)) key ks"
  "descend cmp key (root t) [] = Some (Null_element, gs) \<Longrightarrow> \<not> over_limit t ks \<Longrightarrow>
     tree_insert cmp m t key ks =
       (if \<not> m then Some (add_allocated t ks, None)
        else do {
          r \<leftarrow> rb_insert (Element RED Null_element key 1 Null_element) gs;
          Some ((add_allocated t ks)\<lparr>root := r, elements_in_tree := elements_in_tree t + 1\<rparr>, Some (key, 1))
        })"
  "descend cmp key (root t) [] = Some (Element c l k n r, gs) \<Longrightarrow>
     tree_insert cmp m t key ks =
       (if flag t AND TREE_NO_DUPS \<noteq> 0 then Some (t, None)
        else Some (t\<lparr>root := unwind (Element c l k (count_up n) r) gs\<rparr>, Some (k, count_up n)))"
  by (subst tree_insert.simps; auto simp: over_limit_def add_allocated_def Let_def)+

lemma descend_eq: "descend cmp key t fs = Some (Element c l k n r, gs) \<Longrightarrow> cmp k key = 0"
  by (induction cmp key t fs rule: descend.induct) (auto simp: Let_def split: if_splits)

context comparator
begin

lemma less_trans: "cmp x y < 0 \<Longrightarrow> cmp y z < 0 \<Longrightarrow> cmp x z < 0"
  using cmp_less_le_trans by fastforce

lemma less_equal: "cmp x y < 0 \<Longrightarrow> cmp y z = 0 \<Longrightarrow> cmp x z < 0"
  using cmp_less_le_trans by fastforce

lemma greater_equal: "cmp y x < 0 \<Longrightarrow> cmp y z = 0 \<Longrightarrow> 0 < cmp x z"
  using cmp_neg_iff[of y x] cmp_eq_left[of y z x] cmp_neg_iff[of z x] by (simp add: sgn_if split: if_splits)

lemma greater_trans: "cmp y x < 0 \<Longrightarrow> 0 < cmp y z \<Longrightarrow> 0 < cmp x z"
  using less_trans[of z y x] cmp_neg_iff[of z y] cmp_neg_iff[of z x] by simp

text \<open>The descent finds the key or the place where it belongs.\<close>

lemma descend_ok:
  assumes "ordered cmp (ctx_left fs @ inorder t @ ctx_right fs)" "height t + length fs \<le> 63"
    and "\<forall>x \<in> set (ctx_left fs). cmp (fst x) key < 0" "\<forall>x \<in> set (ctx_right fs). 0 < cmp (fst x) key"
  shows "\<exists>e gs. descend cmp key t fs = Some (e, gs) \<and> unwind e gs = unwind t fs \<and> height e + length gs \<le> height t + length fs \<and>
    (\<forall>x \<in> set (ctx_left gs). cmp (fst x) key < 0) \<and> (\<forall>x \<in> set (ctx_right gs). 0 < cmp (fst x) key) \<and>
    (e = Null_element \<or> (\<exists>c l k n r. e = Element c l k n r \<and> cmp k key = 0 \<and>
       (\<forall>x \<in> set (inorder l). cmp (fst x) key < 0) \<and> (\<forall>x \<in> set (inorder r). 0 < cmp (fst x) key)))"
  using assms
proof (induction t arbitrary: fs)
  case (Element c l k n r)
  have l: "\<forall>x \<in> set (inorder l). cmp (fst x) k < 0" and r: "\<forall>x \<in> set (inorder r). cmp k (fst x) < 0"
    using Element.prems(1) by (auto simp: ordered_def sorted_wrt_append)
  have len: "length fs + 1 < MAX_TREE_HEIGHT" using Element.prems(2) by (simp add: MAX_TREE_HEIGHT_def)
  consider (eq) "cmp k key = 0" | (lt) "cmp k key < 0" | (gt) "0 < cmp k key" by linarith
  then show ?case
  proof cases
    case eq
    then show ?thesis using Element.prems l r less_equal greater_equal by auto
  next
    case lt
    have "descend cmp key (Element c l k n r) fs = descend cmp key r (Right_of c l k n # fs)" using lt len by simp
    moreover have "\<forall>x \<in> set (ctx_left (Right_of c l k n # fs)). cmp (fst x) key < 0" using Element.prems(3) l lt less_trans by auto
    moreover have "height r + length (Right_of c l k n # fs) \<le> 63" using Element.prems(2) by simp
    ultimately show ?thesis using Element.IH(2)[of "Right_of c l k n # fs"] Element.prems(1,4) by fastforce
  next
    case gt
    have "descend cmp key (Element c l k n r) fs = descend cmp key l (Left_of c k n r # fs)" using gt len by simp
    moreover have "\<forall>x \<in> set (ctx_right (Left_of c k n r # fs)). 0 < cmp (fst x) key" using Element.prems(4) r gt greater_trans by auto
    moreover have "height l + length (Left_of c k n r # fs) \<le> 63" using Element.prems(2) by simp
    ultimately show ?thesis using Element.IH(1)[of "Left_of c k n r # fs"] Element.prems(1,3) by fastforce
  qed
qed simp

lemma descend_root:
  assumes inv: "tree_inv cmp t" and small: "length (inorder (root t)) < 2 ^ 31"
  obtains (absent) gs where "descend cmp key (root t) [] = Some (Null_element, gs)" "unwind Null_element gs = root t"
      "inorder (root t) = ctx_left gs @ ctx_right gs" "\<not> has_key cmp key (inorder (root t))"
      "ins_items cmp key (inorder (root t)) = ctx_left gs @ (key, 1) # ctx_right gs"
      "ordered cmp (ctx_left gs @ (key, 1) # ctx_right gs)"
    | (found) c l k n r gs where "descend cmp key (root t) [] = Some (Element c l k n r, gs)"
      "unwind (Element c l k n r) gs = root t" "has_key cmp key (inorder (root t))"
      "ins_items cmp key (inorder (root t)) = ctx_left gs @ inorder l @ (k, count_up n) # inorder r @ ctx_right gs"
      "del_items cmp key (inorder (root t)) = ctx_left gs @ inorder l @ inorder r @ ctx_right gs"
      "height (Element c l k n r) + length gs \<le> 62"
proof -
  note ord = tree_invD(3)[OF inv]
  have h: "height (root t) \<le> 62" using height_bound[OF tree_invD(1,2)[OF inv] small] .
  obtain e gs where d: "descend cmp key (root t) [] = Some (e, gs)" "unwind e gs = root t" "height e + length gs \<le> height (root t)"
    and L: "\<forall>x \<in> set (ctx_left gs). cmp (fst x) key < 0" and R: "\<forall>x \<in> set (ctx_right gs). 0 < cmp (fst x) key"
    and e: "e = Null_element \<or> (\<exists>c l k n r. e = Element c l k n r \<and> cmp k key = 0 \<and>
       (\<forall>x \<in> set (inorder l). cmp (fst x) key < 0) \<and> (\<forall>x \<in> set (inorder r). 0 < cmp (fst x) key))"
    using descend_ok[of "[]" "root t" key] ord h by auto
  have items: "inorder (root t) = ctx_left gs @ inorder e @ ctx_right gs" using d(2) inorder_unwind[of e gs] by simp
  from e show thesis
  proof (elim disjE exE conjE)
    assume n: "e = Null_element"
    have "ordered cmp (ctx_left gs @ (key, 1) # ctx_right gs)"
      using ord L R cmp_neg_iff unfolding items n by (auto simp: ordered_def sorted_wrt_append)
    then show thesis using d items n L R absent[of gs] ins_items_absent[where cmp = cmp and key = key and xs = "ctx_left gs" and ys = "ctx_right gs"] by (force simp: has_key_def)
  next
    fix c l k n r
    assume el: "e = Element c l k n r" and k: "cmp k key = 0"
      and l: "\<forall>x \<in> set (inorder l). cmp (fst x) key < 0" and r: "\<forall>x \<in> set (inorder r). 0 < cmp (fst x) key"
    have ins: "ins_items cmp key ((ctx_left gs @ inorder l) @ (k, n) # inorder r @ ctx_right gs)
        = (ctx_left gs @ inorder l) @ (k, count_up n) # inorder r @ ctx_right gs"
      by (rule ins_items_present) (use L l k in auto)
    have "del_items cmp key (ctx_left gs @ inorder l) = ctx_left gs @ inorder l"
      by (rule del_items_split) (use L l in auto)
    moreover have "del_items cmp key (inorder r @ ctx_right gs) = inorder r @ ctx_right gs"
      by (rule del_items_split) (use R r in auto)
    ultimately have "del_items cmp key (inorder (root t)) = ctx_left gs @ inorder l @ inorder r @ ctx_right gs"
      using k unfolding items el del_items_def by simp
    then show thesis using d items el k h ins by (intro found[of c l k n r gs]) (auto simp: has_key_def)
  qed
qed

lemma ordered_keys: "map fst xs = map fst ys \<Longrightarrow> ordered cmp xs = ordered cmp ys"
  using sorted_wrt_map[of "\<lambda>x y. cmp x y < 0" fst xs] sorted_wrt_map[of "\<lambda>x y. cmp x y < 0" fst ys] by (simp add: ordered_def)

lemma ordered_del: "ordered cmp xs \<Longrightarrow> ordered cmp (del_items cmp key xs)"
  by (simp add: ordered_def del_items_def sorted_wrt_filter)

lemma insert_ok:
  assumes inv: "tree_inv cmp t" and small: "length (inorder (root t)) < 2 ^ 31"
    and lim: "\<not> over_limit t ks \<or> has_key cmp key (inorder (root t))" and dups: "flag t AND TREE_NO_DUPS = 0 \<or> \<not> has_key cmp key (inorder (root t))"
  shows "\<exists>t' e. tree_insert cmp True t key ks = Some (t', Some e) \<and> tree_inv cmp t' \<and>
    inorder (root t') = ins_items cmp key (inorder (root t)) \<and> cmp (fst e) key = 0 \<and> e \<in> set (inorder (root t'))"
proof (rule descend_root[OF inv small, of key], goal_cases absent found)
  case (absent gs)
  obtain r where r: "rb_insert (Element RED Null_element key 1 Null_element) gs = Some r" "rb_wf r" "colour_of r = BLACK"
    "inorder r = ctx_left gs @ (key, 1) # ctx_right gs"
    using rb_insert_ok[of gs key] tree_invD(1,2)[OF inv] absent(2) by auto
  have "tree_insert cmp True t key ks =
      Some ((add_allocated t ks)\<lparr>root := r, elements_in_tree := elements_in_tree t + 1\<rparr>, Some (key, 1))"
    using tree_insert_cases(2)[OF absent(1)] lim absent(4) r(1) by simp
  moreover have "unat (elements_in_tree t + 1) = Suc (length (inorder (root t)))"
    using tree_invD(4)[OF inv] small by (simp add: unat_word_ariths)
  ultimately show ?case using r absent cmp_refl by (auto simp: tree_inv_def)
next
  case (found c l k n r gs)
  have "tree_insert cmp True t key ks = Some (t\<lparr>root := unwind (Element c l k (count_up n) r) gs\<rparr>, Some (k, count_up n))"
    using tree_insert_cases(3)[OF found(1)] dups found(3) by auto
  moreover have "rb_wf (unwind (Element c l k (count_up n) r) gs) = rb_wf (unwind (Element c l k n r) gs)"
    "colour_of (unwind (Element c l k (count_up n) r) gs) = colour_of (unwind (Element c l k n r) gs)"
    by (simp_all add: rb_wf_unwind colour_unwind)
  moreover have items: "inorder (root t) = ctx_left gs @ inorder (Element c l k n r) @ ctx_right gs"
    using found(2) inorder_unwind[of "Element c l k n r" gs] by simp
  moreover have "ordered cmp (ctx_left gs @ inorder l @ (k, count_up n) # inorder r @ ctx_right gs)"
    using tree_invD(3)[OF inv] items by (subst ordered_keys[of _ "inorder (root t)"]) simp_all
  moreover have "cmp k key = 0" using found(1) by (rule descend_eq)
  ultimately show ?case using inv found by (auto simp: tree_inv_def)
qed

lemma reset_inv: "tree_inv cmp (reset_tree t)" "inorder (root (reset_tree t)) = []" "\<not> over_limit (reset_tree t) ks"
  by (simp_all add: tree_inv_def reset_tree_def free_tree_def Let_def ordered_def over_limit_def)

lemma has_key_ins: "ordered cmp xs \<Longrightarrow> has_key cmp key (ins_items cmp key xs)"
  using cmp_refl by (induction cmp key xs rule: ins_items.induct) (auto simp: has_key_def ordered_def)

lemma delete_ok:
  assumes inv: "tree_inv cmp t" and small: "length (inorder (root t)) < 2 ^ 31" and wd: "with_delete t"
  shows "\<exists>t'. tree_delete cmp t key ks = Some (t', if has_key cmp key (inorder (root t)) then 0 else 1) \<and> tree_inv cmp t' \<and>
    inorder (root t') = del_items cmp key (inorder (root t))"
proof (rule descend_root[OF inv small, of key], goal_cases absent found)
  case (absent gs)
  then have "del_items cmp key (inorder (root t)) = inorder (root t)" by (auto simp: del_items_def filter_id_conv has_key_def)
  then show ?case using absent inv wd by (simp add: tree_delete_def)
next
  case (found c l k n r gs)
  let ?e = "Element c l k n r"
  have whole: "rb_wf (unwind ?e gs)" "colour_of (unwind ?e gs) = BLACK" using tree_invD(1,2)[OF inv] found(2) by simp_all
  obtain x hs rc where u: "unlink_element ?e gs = Some (x, hs, rc)" "rb_wf x" "length hs \<le> 62" "hs \<noteq> [] \<longrightarrow> frame_colour (last hs) = BLACK"
    "path_ok (bheight x + (if rc = BLACK then 1 else 0)) rc hs" "rc = RED \<longrightarrow> colour_of x = BLACK" "hs = [] \<longrightarrow> rc = BLACK"
    "ctx_left hs @ inorder x @ ctx_right hs = ctx_left gs @ inorder l @ inorder r @ ctx_right gs"
    using unlink_element_ok[OF refl whole found(6)] by blast
  obtain r' where r': "(if rc = BLACK then rb_delete_fixup x hs else Some (unwind x hs)) = Some r'" "rb_wf r'" "colour_of r' = BLACK"
    "inorder r' = ctx_left hs @ inorder x @ ctx_right hs"
  proof (cases rc)
    case BLACK
    then show thesis using that rb_delete_fixup_ok[of x hs] u rb_wf_paint(1) by auto
  next
    case RED
    then have "rb_wf (unwind x hs)" "colour_of (unwind x hs) = BLACK"
      using u path_ok_weaken by (auto simp: rb_wf_unwind colour_unwind)
    then show thesis using that RED by simp
  qed
  have len: "length (inorder (root t)) = Suc (length (inorder r'))"
    using arg_cong[OF found(2), of "\<lambda>t. length (inorder t)"] r'(4) arg_cong[OF u(8), of length] by simp
  have "unat (elements_in_tree t - 1) = length (inorder r')"
    using tree_invD(4)[OF inv] len by (subst unat_sub) (auto simp: word_le_nat_alt)
  moreover have "ordered cmp (inorder r')"
    using ordered_del[OF tree_invD(3)[OF inv], of key] found(5) r'(4) u(8) by simp
  ultimately show ?case using found u(1,8) r' wd by (auto simp: tree_delete_def tree_inv_def)
qed

end

subsection \<open>What insertion and deletion guarantee\<close>

text \<open>C14. Insertion: with a comparison function that is a total preorder, inserting a key into a well-formed tree of fewer
  than \<open>2 ^ 31\<close> elements stays inside the \<open>parents\<close> array, returns an element with the key, keeps the red-black
  invariant, the order and the element count, and changes the contents exactly as insertion into an ordered
  list does: a new key with count one, or the count of the equal key raised. When the new element would exceed the memory
  limit the tree is emptied first.\<close>

theorem tree_insert_correct:
  assumes "comparator cmp" "tree_inv cmp t" "length (inorder (root t)) < 2 ^ 31" "flag t AND TREE_NO_DUPS = 0"
  shows "\<exists>t' e. tree_insert cmp True t key ks = Some (t', Some e) \<and> tree_inv cmp t' \<and> e \<in> set (inorder (root t')) \<and> cmp (fst e) key = 0 \<and>
    inorder (root t') = (if over_limit t ks \<and> \<not> has_key cmp key (inorder (root t)) then [(key, 1)] else ins_items cmp key (inorder (root t)))"
proof (cases "over_limit t ks \<and> \<not> has_key cmp key (inorder (root t))")
  case False
  then show ?thesis using comparator.insert_ok[OF assms(1-3), of ks key] assms(4) by auto
next
  case True
  let ?t0 = "reset_tree (add_allocated t ks)"
  obtain gs where d: "descend cmp key (root t) [] = Some (Null_element, gs)"
    using comparator.descend_root[OF assms(1-3), of key] True by metis
  have eq: "tree_insert cmp True t key ks = tree_insert cmp True ?t0 key ks" using True by (intro tree_insert_cases(1)[OF d]) simp
  have "flag ?t0 AND TREE_NO_DUPS = 0" using assms(4) by (simp add: reset_tree_def free_tree_def Let_def add_allocated_def)
  then have "\<exists>t' e. tree_insert cmp True ?t0 key ks = Some (t', Some e) \<and> tree_inv cmp t' \<and>
      inorder (root t') = ins_items cmp key (inorder (root ?t0)) \<and> cmp (fst e) key = 0 \<and> e \<in> set (inorder (root t'))"
    using comparator.reset_inv[OF assms(1)] by (intro comparator.insert_ok[OF assms(1)]) auto
  then show ?thesis using eq True comparator.reset_inv(2)[OF assms(1)] by auto
qed

lemma comparator_difference: "comparator (\<lambda>x y. x - y :: int)"
  by unfold_locales (auto simp: sgn_if)

definition sample_tree :: "int TREE" where
  "sample_tree = (init_tree 0 0 0 True False)\<lparr>root := Element BLACK (Element RED Null_element 10 1 Null_element) 20 2 Null_element,
     elements_in_tree := 2\<rparr>"

lemmas sample_simps = sample_tree_def init_tree_def Let_def tree_inv_def ordered_def TREE_NO_DUPS_def

theorem tree_insert_correct_witness:
  "\<exists>t' e. tree_insert (\<lambda>x y. x - y) True sample_tree 15 4 = Some (t', Some e) \<and> tree_inv (\<lambda>x y. x - y) t' \<and>
     e \<in> set (inorder (root t')) \<and> fst e - 15 = 0 \<and>
     inorder (root t') = (if over_limit sample_tree 4 \<and> \<not> has_key (\<lambda>x y. x - y) 15 (inorder (root sample_tree)) then [(15, 1)]
       else ins_items (\<lambda>x y. x - y) 15 (inorder (root sample_tree)))"
  by (rule tree_insert_correct[OF comparator_difference]) (simp_all add: sample_simps)

text \<open>C15. Deletion: under the same conditions, deleting from a tree that allows it stays inside the \<open>parents\<close> array,
  dereferences no null link while it rebalances, returns 0 exactly when an equal key was there, and leaves a
  well-formed tree with the other elements unchanged.\<close>

theorem tree_delete_correct:
  assumes "comparator cmp" "tree_inv cmp t" "length (inorder (root t)) < 2 ^ 31" "with_delete t"
  shows "\<exists>t'. tree_delete cmp t key ks = Some (t', if has_key cmp key (inorder (root t)) then 0 else 1) \<and> tree_inv cmp t' \<and>
    inorder (root t') = del_items cmp key (inorder (root t))"
  by (rule comparator.delete_ok[OF assms])

theorem tree_delete_correct_witness:
  "\<exists>t'. tree_delete (\<lambda>x y. x - y) sample_tree 20 4 = Some (t', if has_key (\<lambda>x y. x - y) 20 (inorder (root sample_tree)) then 0 else 1) \<and>
     tree_inv (\<lambda>x y. x - y) t' \<and> inorder (root t') = del_items (\<lambda>x y. x - y) 20 (inorder (root sample_tree))"
  by (rule tree_delete_correct[OF comparator_difference]) (simp_all add: sample_simps)

text \<open>C16. The debug check \<open>test_rb_tree\<close> decides the red-black invariant: it reports an error (a negative count) exactly for
  the trees that violate it, and otherwise returns the number of black nodes on every path.\<close>

theorem test_rb_tree_decides: "test_rb_tree t = (if rb_wf t then int (bheight t) else -1)"
proof (cases "rb_wf t")
  case False
  have "test_rb_tree t \<ge> 0 \<or> test_rb_tree t = -1" by (cases t) (auto simp: Let_def)
  then show ?thesis using False test_rb_tree_ge by auto
qed (simp add: test_rb_tree_wf)

end
