(* ===== verification/RB_Tree_Search.thy ===== *)
theory RB_Tree_Search
  imports RB_Tree_Spec
begin

text \<open>
  Reading a red-black tree: the search by read flag, the cursor that steps to the next or the
  previous element, and the two walks. A position is an element with the links above it;
  \<open>at_pos\<close> relates it to the split of the ordered contents around that element.
\<close>

subsection \<open>Positions\<close>

definition at_pos :: "'k tree_pos \<Rightarrow> ('k \<times> nat) list \<Rightarrow> 'k \<times> nat \<Rightarrow> ('k \<times> nat) list \<Rightarrow> bool" where
  "at_pos p xs x ys \<longleftrightarrow> (\<exists>c l k n r fs. p = (Element c l k n r, fs) \<and> xs = ctx_left fs @ inorder l \<and> x = (k, n) \<and> ys = inorder r @ ctx_right fs)"

lemma at_posI: "at_pos (Element c l k n r, fs) (ctx_left fs @ inorder l) (k, n) (inorder r @ ctx_right fs)"
  by (auto simp: at_pos_def)

lemma at_pos_Element: "at_pos (Element c l k n r, fs) xs x ys \<longleftrightarrow> xs = ctx_left fs @ inorder l \<and> x = (k, n) \<and> ys = inorder r @ ctx_right fs"
  by (auto simp: at_pos_def)

lemma at_pos_whole: "at_pos p xs x ys \<Longrightarrow> inorder (unwind (fst p) (snd p)) = xs @ x # ys"
  by (auto simp: at_pos_def)

lemma at_pos_key: "at_pos p xs x ys \<Longrightarrow> pos_key p = Some (fst x)"
  by (auto simp: at_pos_def)

text \<open>A remembered position is the first element right of the focus, or the last one left of it.\<close>

definition first_of :: "'k tree_pos option \<Rightarrow> ('k \<times> nat) list \<Rightarrow> ('k \<times> nat) list \<Rightarrow> bool" where
  "first_of po xs ys \<longleftrightarrow> (case ys of [] \<Rightarrow> po = None | y # ys' \<Rightarrow> \<exists>p. po = Some p \<and> at_pos p xs y ys')"

definition last_of :: "'k tree_pos option \<Rightarrow> ('k \<times> nat) list \<Rightarrow> ('k \<times> nat) list \<Rightarrow> bool" where
  "last_of po xs ys \<longleftrightarrow> (xs = [] \<and> po = None \<or> (\<exists>p xs' x. xs = xs' @ [x] \<and> po = Some p \<and> at_pos p xs' x ys))"

lemma first_of_Cons [simp]: "first_of (Some p) xs (y # ys) \<longleftrightarrow> at_pos p xs y ys"
  by (simp add: first_of_def)

lemma last_of_snoc [simp]: "last_of (Some p) (xs @ [x]) ys \<longleftrightarrow> at_pos p xs x ys"
  by (auto simp: last_of_def)

lemma first_of_key: "first_of po xs ys \<Longrightarrow> Option.bind po pos_key = (case ys of [] \<Rightarrow> None | y # _ \<Rightarrow> Some (fst y))"
  by (auto simp: first_of_def at_pos_key split: list.splits)

lemma last_of_key: "last_of po xs ys \<Longrightarrow> Option.bind po pos_key = (if xs = [] then None else Some (fst (last xs)))"
  by (auto simp: last_of_def at_pos_key)

lemma last_of_last: "last_of po xs ys \<Longrightarrow> po = None \<longleftrightarrow> xs = []"
  by (auto simp: last_of_def)

subsection \<open>Search by flag\<close>

text \<open>
  Flags that go left at an equal key, and those that go right. Left of the final gap every
  key compares below the search key (or not above it), right of it every key does not.
\<close>

lemma sgn_order:
  fixes a b :: int
  assumes "sgn a \<le> sgn b"
  shows "b < 0 \<Longrightarrow> a < 0" "0 \<le> a \<Longrightarrow> 0 \<le> b" "0 < a \<Longrightarrow> 0 < b" "b \<le> 0 \<Longrightarrow> a \<le> 0"
  using assms by (simp_all add: sgn_if split: if_splits)

lemma search_left:
  assumes fl: "fl \<in> {HA_READ_KEY_EXACT, HA_READ_KEY_OR_NEXT, HA_READ_BEFORE_KEY}"
    and "sorted_wrt (\<lambda>x y. sgn (cmp (fst x) key) \<le> sgn (cmp (fst y) key)) (ctx_left fs @ inorder t @ ctx_right fs)"
    and "\<forall>x \<in> set (ctx_left fs). cmp (fst x) key < 0" "\<forall>x \<in> set (ctx_right fs). 0 \<le> cmp (fst x) key"
    and "first_of lft (ctx_left fs @ inorder t) (ctx_right fs)" "last_of rgt (ctx_left fs) (inorder t @ ctx_right fs)"
    and "eql = (if ctx_right fs \<noteq> [] \<and> cmp (fst (hd (ctx_right fs))) key = 0 then lft else None)"
  shows "\<exists>lft' rgt' xs ys. search_key_loop cmp fl key t fs lft rgt eql =
      Inr (lft', rgt', if ys \<noteq> [] \<and> cmp (fst (hd ys)) key = 0 then lft' else None) \<and>
    xs @ ys = ctx_left fs @ inorder t @ ctx_right fs \<and> (\<forall>x \<in> set xs. cmp (fst x) key < 0) \<and> (\<forall>x \<in> set ys. 0 \<le> cmp (fst x) key) \<and>
    first_of lft' xs ys \<and> last_of rgt' xs ys"
  using assms(2-)
proof (induction t arbitrary: fs lft rgt eql)
  case Null_element
  then show ?case by (intro exI[of _ lft] exI[of _ rgt] exI[of _ "ctx_left fs"] exI[of _ "ctx_right fs"] conjI) simp_all
next
  case (Element c l k n r)
  let ?e = "Element c l k n r" and ?R = "Right_of c l k n # fs" and ?L = "Left_of c k n r # fs"
  have left: "ctx_left fs @ inorder ?e @ ctx_right fs = ctx_left ?L @ inorder l @ ctx_right ?L" by simp
  have right: "ctx_left fs @ inorder ?e @ ctx_right fs = ctx_left ?R @ inorder r @ ctx_right ?R" by simp
  have here: "last_of (Some (?e, fs)) (ctx_left ?R) (inorder r @ ctx_right ?R)"
    using last_of_snoc[of "(?e, fs)" "ctx_left fs @ inorder l" "(k, n)"] by (simp add: at_pos_Element)
  have mono: "\<forall>x \<in> set (inorder l). sgn (cmp (fst x) key) \<le> sgn (cmp k key)" "\<forall>x \<in> set (inorder r). sgn (cmp k key) \<le> sgn (cmp (fst x) key)"
    "\<forall>x \<in> set (ctx_right fs). sgn (cmp k key) \<le> sgn (cmp (fst x) key)"
    using Element.prems(1) by (auto simp: sorted_wrt_append)
  show ?case
  proof (cases "cmp k key < 0")
    case True
    then have l: "\<forall>x \<in> set (inorder l). cmp (fst x) key < 0" using sgn_order(1)[OF mono(1)[rule_format]] True by blast
    have eq: "search_key_loop cmp fl key ?e fs lft rgt eql = search_key_loop cmp fl key r ?R lft (Some (?e, fs)) eql"
      using True by (simp add: Let_def)
    show ?thesis unfolding eq right
    proof (rule Element.IH(2))
      show "last_of (Some (?e, fs)) (ctx_left ?R) (inorder r @ ctx_right ?R)" by (rule here)
    qed (use Element.prems l True in \<open>simp_all add: ball_Un\<close>)
  next
    case False
    define e' where "e' = (if cmp k key = 0 then Some (?e, fs) else eql)"
    have eq: "search_key_loop cmp fl key ?e fs lft rgt eql = search_key_loop cmp fl key l ?L (Some (?e, fs)) rgt e'"
      using False fl by (auto simp: Let_def e'_def)
    have e': "e' = (if cmp k key = 0 then Some (?e, fs) else None)"
    proof (cases "cmp k key = 0 \<or> ctx_right fs = []")
      case nz: False
      then have "0 < cmp (fst (hd (ctx_right fs))) key" using sgn_order(3)[OF mono(3)[rule_format, OF hd_in_set]] False by simp
      then show ?thesis using Element.prems(6) nz by (simp add: e'_def)
    qed (use Element.prems(6) in \<open>auto simp: e'_def\<close>)
    have r: "\<forall>x \<in> set (inorder r). 0 \<le> cmp (fst x) key" using sgn_order(2)[OF mono(2)[rule_format]] False by simp
    show ?thesis unfolding eq left
    proof (rule Element.IH(1))
      show "e' = (if ctx_right ?L \<noteq> [] \<and> cmp (fst (hd (ctx_right ?L))) key = 0 then Some (?e, fs) else None)" using e' by simp
    qed (use Element.prems(1-5) r False in \<open>simp_all add: ball_Un at_pos_Element\<close>)
  qed
qed

lemma search_right:
  assumes fl: "fl \<in> {HA_READ_AFTER_KEY, HA_READ_PREFIX_LAST, HA_READ_PREFIX_LAST_OR_PREV}"
    and "sorted_wrt (\<lambda>x y. sgn (cmp (fst x) key) \<le> sgn (cmp (fst y) key)) (ctx_left fs @ inorder t @ ctx_right fs)"
    and "\<forall>x \<in> set (ctx_left fs). cmp (fst x) key \<le> 0" "\<forall>x \<in> set (ctx_right fs). 0 < cmp (fst x) key"
    and "first_of lft (ctx_left fs @ inorder t) (ctx_right fs)" "last_of rgt (ctx_left fs) (inorder t @ ctx_right fs)"
    and "fl \<noteq> HA_READ_AFTER_KEY \<longrightarrow> eql = (if ctx_left fs \<noteq> [] \<and> cmp (fst (last (ctx_left fs))) key = 0 then rgt else None)"
  shows "\<exists>lft' rgt' eql' xs ys. search_key_loop cmp fl key t fs lft rgt eql = Inr (lft', rgt', eql') \<and>
    (fl \<noteq> HA_READ_AFTER_KEY \<longrightarrow> eql' = (if xs \<noteq> [] \<and> cmp (fst (last xs)) key = 0 then rgt' else None)) \<and>
    xs @ ys = ctx_left fs @ inorder t @ ctx_right fs \<and> (\<forall>x \<in> set xs. cmp (fst x) key \<le> 0) \<and> (\<forall>x \<in> set ys. 0 < cmp (fst x) key) \<and>
    first_of lft' xs ys \<and> last_of rgt' xs ys"
  using assms(2-)
proof (induction t arbitrary: fs lft rgt eql)
  case Null_element
  then show ?case by (intro exI[of _ lft] exI[of _ rgt] exI[of _ eql] exI[of _ "ctx_left fs"] exI[of _ "ctx_right fs"] conjI) simp_all
next
  case (Element c l k n r)
  let ?e = "Element c l k n r" and ?R = "Right_of c l k n # fs" and ?L = "Left_of c k n r # fs"
  have left: "ctx_left fs @ inorder ?e @ ctx_right fs = ctx_left ?L @ inorder l @ ctx_right ?L" by simp
  have right: "ctx_left fs @ inorder ?e @ ctx_right fs = ctx_left ?R @ inorder r @ ctx_right ?R" by simp
  have here: "last_of (Some (?e, fs)) (ctx_left ?R) (inorder r @ ctx_right ?R)"
    using last_of_snoc[of "(?e, fs)" "ctx_left fs @ inorder l" "(k, n)"] by (simp add: at_pos_Element)
  have mono: "\<forall>x \<in> set (inorder l). sgn (cmp (fst x) key) \<le> sgn (cmp k key)" "\<forall>x \<in> set (inorder r). sgn (cmp k key) \<le> sgn (cmp (fst x) key)"
    "\<forall>x \<in> set (ctx_left fs). sgn (cmp (fst x) key) \<le> sgn (cmp k key)"
    using Element.prems(1) by (auto simp: sorted_wrt_append)
  show ?case
  proof (cases "0 < cmp k key")
    case True
    then have r: "\<forall>x \<in> set (inorder r). 0 < cmp (fst x) key" using sgn_order(3)[OF mono(2)[rule_format]] True by blast
    have eq: "search_key_loop cmp fl key ?e fs lft rgt eql = search_key_loop cmp fl key l ?L (Some (?e, fs)) rgt eql"
      using True by (simp add: Let_def)
    show ?thesis unfolding eq left
      by (rule Element.IH(1)) (use Element.prems r True in \<open>simp_all add: ball_Un at_pos_Element\<close>)
  next
    case False
    define e' where "e' = (if cmp k key = 0 \<and> fl \<noteq> HA_READ_AFTER_KEY then Some (?e, fs) else eql)"
    have eq: "search_key_loop cmp fl key ?e fs lft rgt eql = search_key_loop cmp fl key r ?R lft (Some (?e, fs)) e'"
      using False fl by (auto simp: Let_def e'_def)
    have e': "fl \<noteq> HA_READ_AFTER_KEY \<longrightarrow> e' = (if cmp k key = 0 then Some (?e, fs) else None)"
    proof (cases "cmp k key = 0")
      case nz: False
      have "cmp (fst (last (ctx_left fs))) key \<noteq> 0" if "ctx_left fs \<noteq> []"
        using sgn_order(1)[OF mono(3)[rule_format, OF last_in_set[OF that]]] False nz by linarith
      then show ?thesis using Element.prems(6) nz by (auto simp: e'_def)
    qed (simp add: e'_def)
    have l: "\<forall>x \<in> set (inorder l). cmp (fst x) key \<le> 0" using sgn_order(4)[OF mono(1)[rule_format]] False by simp
    show ?thesis unfolding eq right
    proof (rule Element.IH(2))
      show "last_of (Some (?e, fs)) (ctx_left ?R) (inorder r @ ctx_right ?R)" by (rule here)
      show "fl \<noteq> HA_READ_AFTER_KEY \<longrightarrow> e' = (if ctx_left ?R \<noteq> [] \<and> cmp (fst (last (ctx_left ?R))) key = 0 then Some (?e, fs) else None)"
        using e' by simp
    qed (use Element.prems l False in \<open>simp_all add: ball_Un\<close>)
  qed
qed

definition search_spec :: "('k \<Rightarrow> 'k \<Rightarrow> int) \<Rightarrow> 'k \<Rightarrow> ha_rkey_function \<Rightarrow> ('k \<times> nat) list \<Rightarrow> ('k \<times> nat) option" where
  "search_spec cmp key fl xs = (case fl of
       HA_READ_KEY_EXACT \<Rightarrow> find (\<lambda>x. cmp (fst x) key = 0) xs
     | HA_READ_KEY_OR_NEXT \<Rightarrow> find (\<lambda>x. 0 \<le> cmp (fst x) key) xs
     | HA_READ_AFTER_KEY \<Rightarrow> find (\<lambda>x. 0 < cmp (fst x) key) xs
     | HA_READ_PREFIX_LAST \<Rightarrow> find (\<lambda>x. cmp (fst x) key = 0) (rev xs)
     | HA_READ_PREFIX_LAST_OR_PREV \<Rightarrow> find (\<lambda>x. cmp (fst x) key \<le> 0) (rev xs)
     | HA_READ_BEFORE_KEY \<Rightarrow> find (\<lambda>x. cmp (fst x) key < 0) (rev xs)
     | _ \<Rightarrow> None)"

definition found_at :: "('k \<times> nat) list \<Rightarrow> 'k tree_pos option \<Rightarrow> ('k \<times> nat) option \<Rightarrow> bool" where
  "found_at items po xo \<longleftrightarrow> (case po of None \<Rightarrow> xo = None
     | Some p \<Rightarrow> \<exists>xs x ys. at_pos p xs x ys \<and> items = xs @ x # ys \<and> xo = Some x)"

lemma found_atI: "at_pos p xs x ys \<Longrightarrow> found_at (xs @ x # ys) (Some p) (Some x)"
  unfolding found_at_def option.case by (intro exI conjI, assumption) (rule refl)+

lemma found_at_None [simp]: "found_at xs None None"
  by (simp add: found_at_def)

lemma find_skip: "\<forall>x \<in> set xs. \<not> P x \<Longrightarrow> find P (xs @ ys) = find P ys"
  by (induction xs) auto

lemma find_none: "\<forall>x \<in> set xs. \<not> P x \<Longrightarrow> find P xs = None"
  by (induction xs) auto

lemma find_first: "first_of po xs ys \<Longrightarrow> \<forall>x \<in> set xs. \<not> P x \<Longrightarrow> \<forall>y \<in> set ys. P y \<Longrightarrow> found_at (xs @ ys) po (find P (xs @ ys))"
  by (cases ys) (auto simp: find_skip first_of_def find_none found_atI)

lemma find_last: "last_of po xs ys \<Longrightarrow> \<forall>x \<in> set xs. P x \<Longrightarrow> \<forall>y \<in> set ys. \<not> P y \<Longrightarrow> found_at (xs @ ys) po (find P (rev (xs @ ys)))"
  by (auto simp: find_skip last_of_def find_none found_atI)

lemma search_left_root:
  assumes "fl \<in> {HA_READ_KEY_EXACT, HA_READ_KEY_OR_NEXT, HA_READ_BEFORE_KEY}"
    and "sorted_wrt (\<lambda>x y. sgn (cmp (fst x) key) \<le> sgn (cmp (fst y) key)) (inorder t)"
  shows "\<exists>lft' rgt' xs ys. search_key_loop cmp fl key t [] None None None =
      Inr (lft', rgt', if ys \<noteq> [] \<and> cmp (fst (hd ys)) key = 0 then lft' else None) \<and>
    inorder t = xs @ ys \<and> (\<forall>x \<in> set xs. cmp (fst x) key < 0) \<and> (\<forall>x \<in> set ys. 0 \<le> cmp (fst x) key) \<and>
    first_of lft' xs ys \<and> last_of rgt' xs ys"
  using search_left[OF assms(1), of cmp key "[]" t None None None] assms(2) by (simp add: first_of_def last_of_def eq_commute[of "inorder t"])

lemma search_right_root:
  assumes "fl \<in> {HA_READ_AFTER_KEY, HA_READ_PREFIX_LAST, HA_READ_PREFIX_LAST_OR_PREV}"
    and "sorted_wrt (\<lambda>x y. sgn (cmp (fst x) key) \<le> sgn (cmp (fst y) key)) (inorder t)"
  shows "\<exists>lft' rgt' eql' xs ys. search_key_loop cmp fl key t [] None None None = Inr (lft', rgt', eql') \<and>
    (fl \<noteq> HA_READ_AFTER_KEY \<longrightarrow> eql' = (if xs \<noteq> [] \<and> cmp (fst (last xs)) key = 0 then rgt' else None)) \<and>
    inorder t = xs @ ys \<and> (\<forall>x \<in> set xs. cmp (fst x) key \<le> 0) \<and> (\<forall>x \<in> set ys. 0 < cmp (fst x) key) \<and>
    first_of lft' xs ys \<and> last_of rgt' xs ys"
  using search_right[OF assms(1), of cmp key "[]" t None None None] assms(2) by (simp add: first_of_def last_of_def eq_commute[of "inorder t"])

lemma find_equal_first:
  fixes cmp :: "'k \<Rightarrow> 'k \<Rightarrow> int"
  assumes f: "first_of lft xs ys" and xs: "\<forall>x \<in> set xs. cmp (fst x) key < 0" and ys: "\<forall>x \<in> set ys. 0 \<le> cmp (fst x) key"
    and srt: "sorted_wrt (\<lambda>x y. sgn (cmp (fst x) key) \<le> sgn (cmp (fst y) key)) (xs @ ys)"
  shows "found_at (xs @ ys) (if ys \<noteq> [] \<and> cmp (fst (hd ys)) key = 0 then lft else None) (find (\<lambda>x. cmp (fst x) key = 0) (xs @ ys))"
proof -
  have skip: "find (\<lambda>x. cmp (fst x) key = 0) (xs @ ys) = find (\<lambda>x. cmp (fst x) key = 0) ys" using xs by (intro find_skip ballI) (metis less_irrefl)
  show ?thesis
  proof (cases "ys \<noteq> [] \<and> cmp (fst (hd ys)) key = 0")
    case True
    then obtain y ys' where "ys = y # ys'" "cmp (fst y) key = 0" by (cases ys) auto
    then show ?thesis unfolding skip using f by (auto simp: found_atI first_of_def)
  next
    case False
    have "cmp (fst x) key \<noteq> 0" if x: "x \<in> set ys" for x
    proof -
      obtain y ys' where y: "ys = y # ys'" using x by (cases ys) auto
      then have "0 < cmp (fst y) key" using False ys by force
      moreover have "x = y \<or> sgn (cmp (fst y) key) \<le> sgn (cmp (fst x) key)" using srt x y by (auto simp: sorted_wrt_append)
      ultimately show ?thesis using sgn_order(3)[of "cmp (fst y) key" "cmp (fst x) key"] by auto
    qed
    then show ?thesis unfolding skip if_not_P[OF False] by (simp add: find_none)
  qed
qed

lemma find_equal_last:
  fixes cmp :: "'k \<Rightarrow> 'k \<Rightarrow> int"
  assumes f: "last_of rgt xs ys" and xs: "\<forall>x \<in> set xs. cmp (fst x) key \<le> 0" and ys: "\<forall>x \<in> set ys. 0 < cmp (fst x) key"
    and srt: "sorted_wrt (\<lambda>x y. sgn (cmp (fst x) key) \<le> sgn (cmp (fst y) key)) (xs @ ys)"
  shows "found_at (xs @ ys) (if xs \<noteq> [] \<and> cmp (fst (last xs)) key = 0 then rgt else None) (find (\<lambda>x. cmp (fst x) key = 0) (rev (xs @ ys)))"
proof -
  have skip: "find (\<lambda>x. cmp (fst x) key = 0) (rev (xs @ ys)) = find (\<lambda>x. cmp (fst x) key = 0) (rev xs)"
    unfolding rev_append using ys by (intro find_skip ballI) (metis less_irrefl set_rev)
  show ?thesis
  proof (cases "xs \<noteq> [] \<and> cmp (fst (last xs)) key = 0")
    case True
    then obtain xs' x where "xs = xs' @ [x]" "cmp (fst x) key = 0" by (cases xs rule: rev_cases) auto
    then show ?thesis unfolding skip using f by (auto simp: found_atI last_of_def)
  next
    case False
    have "cmp (fst x) key \<noteq> 0" if x: "x \<in> set xs" for x
    proof -
      obtain xs' y where y: "xs = xs' @ [y]" using x by (cases xs rule: rev_cases) auto
      then have "cmp (fst y) key < 0" using False xs by force
      moreover have "x = y \<or> sgn (cmp (fst x) key) \<le> sgn (cmp (fst y) key)" using srt x y by (auto simp: sorted_wrt_append)
      ultimately show ?thesis using sgn_order(1)[of "cmp (fst x) key" "cmp (fst y) key"] by auto
    qed
    then show ?thesis unfolding skip if_not_P[OF False] by (simp add: find_none)
  qed
qed

text \<open>C17. Search by flag: when the search comparison does not decrease along the ordered contents (it may be zero for a
  whole run of keys, as with a key prefix), \<open>tree_search_key\<close> finds the first or last equal key, the nearest key at or
  after, after, at or before, or before the search key, as the flag says, or nothing; it returns its position.\<close>

theorem tree_search_key_correct:
  assumes srt: "sorted_wrt (\<lambda>x y. sgn (cmp (fst x) key) \<le> sgn (cmp (fst y) key)) (inorder t)"
  shows "found_at (inorder t) (tree_search_key cmp t key fl) (search_spec cmp key fl (inorder t))"
proof -
  consider (left) "fl \<in> {HA_READ_KEY_EXACT, HA_READ_KEY_OR_NEXT, HA_READ_BEFORE_KEY}"
    | (right) "fl \<in> {HA_READ_AFTER_KEY, HA_READ_PREFIX_LAST, HA_READ_PREFIX_LAST_OR_PREV}"
    | (other) "fl \<in> {HA_READ_KEY_OR_PREV, HA_READ_PREFIX, HA_READ_MBR_CONTAIN, HA_READ_MBR_INTERSECT, HA_READ_MBR_WITHIN, HA_READ_MBR_DISJOINT, HA_READ_MBR_EQUAL}"
    by (cases fl) auto
  then show ?thesis
  proof cases
    case left
    obtain lft rgt xs ys where l: "search_key_loop cmp fl key t [] None None None =
        Inr (lft, rgt, if ys \<noteq> [] \<and> cmp (fst (hd ys)) key = 0 then lft else None)"
      and items: "inorder t = xs @ ys" and xs: "\<forall>x \<in> set xs. cmp (fst x) key < 0" and ys: "\<forall>x \<in> set ys. 0 \<le> cmp (fst x) key"
      and pos: "first_of lft xs ys" "last_of rgt xs ys" using search_left_root[where cmp = cmp and key = key and t = t, OF left srt] by blast
    have 1: "found_at (xs @ ys) lft (find (\<lambda>x. 0 \<le> cmp (fst x) key) (xs @ ys))"
      by (rule find_first[OF pos(1)]) (use xs ys in \<open>simp_all add: not_le\<close>)
    have 2: "found_at (xs @ ys) rgt (find (\<lambda>x. cmp (fst x) key < 0) (rev (xs @ ys)))"
      by (rule find_last[OF pos(2)]) (use xs ys in \<open>simp_all add: not_less\<close>)
    note 3 = find_equal_first[where cmp = cmp and key = key, OF pos(1) xs ys srt[unfolded items]]
    show ?thesis
    proof (cases fl)
      case HA_READ_KEY_EXACT
      then show ?thesis using 3 l by (simp add: tree_search_key_def search_spec_def items)
    next
      case HA_READ_KEY_OR_NEXT
      then show ?thesis using 1 l by (cases "ys \<noteq> [] \<and> cmp (fst (hd ys)) key = 0") (auto simp: tree_search_key_def search_spec_def items)
    next
      case HA_READ_BEFORE_KEY
      then show ?thesis using 2 l by (simp add: tree_search_key_def search_spec_def items)
    qed (use left in simp_all)
  next
    case right
    obtain lft rgt eql xs ys where l: "search_key_loop cmp fl key t [] None None None = Inr (lft, rgt, eql)"
      and e: "fl \<noteq> HA_READ_AFTER_KEY \<longrightarrow> eql = (if xs \<noteq> [] \<and> cmp (fst (last xs)) key = 0 then rgt else None)"
      and items: "inorder t = xs @ ys" and xs: "\<forall>x \<in> set xs. cmp (fst x) key \<le> 0" and ys: "\<forall>x \<in> set ys. 0 < cmp (fst x) key"
      and pos: "first_of lft xs ys" "last_of rgt xs ys" using search_right_root[where cmp = cmp and key = key and t = t, OF right srt] by blast
    have 1: "found_at (xs @ ys) lft (find (\<lambda>x. 0 < cmp (fst x) key) (xs @ ys))"
      by (rule find_first[OF pos(1)]) (use xs ys in \<open>simp_all add: not_less\<close>)
    have 2: "found_at (xs @ ys) rgt (find (\<lambda>x. cmp (fst x) key \<le> 0) (rev (xs @ ys)))"
      by (rule find_last[OF pos(2)]) (use xs ys in \<open>simp_all add: not_le\<close>)
    note 3 = find_equal_last[where cmp = cmp and key = key, OF pos(2) xs ys srt[unfolded items]]
    show ?thesis
    proof (cases fl)
      case HA_READ_AFTER_KEY
      then show ?thesis using 1 l by (simp add: tree_search_key_def search_spec_def items)
    next
      case HA_READ_PREFIX_LAST
      then show ?thesis using 3 l e by (simp add: tree_search_key_def search_spec_def items)
    next
      case HA_READ_PREFIX_LAST_OR_PREV
      then show ?thesis using 2 l e by (cases "xs \<noteq> [] \<and> cmp (fst (last xs)) key = 0") (auto simp: tree_search_key_def search_spec_def items)
    qed (use right in simp_all)
  next
    case other
    then show ?thesis by (auto simp: tree_search_key_def search_spec_def found_at_def split: sum.splits)
  qed
qed

theorem tree_search_key_correct_witness:
  "found_at (inorder (root sample_tree)) (tree_search_key (\<lambda>x y. x - y) (root sample_tree) 15 HA_READ_KEY_OR_NEXT)
     (search_spec (\<lambda>x y. x - y) 15 HA_READ_KEY_OR_NEXT (inorder (root sample_tree)))"
  by (rule tree_search_key_correct) (simp add: sample_simps)

subsection \<open>Stepping through the tree\<close>

lemma edge_first: "first_of (tree_search_edge Lft t fs) (ctx_left fs) (inorder t @ ctx_right fs) \<or> t = Null_element"
proof (induction t arbitrary: fs)
  case (Element c l k n r)
  show ?case using Element.IH(1)[of "Left_of c k n r # fs"] at_posI[of c l k n r fs]
    by (cases l) (auto simp: first_of_def split: list.splits)
qed simp

lemma edge_last: "last_of (tree_search_edge Rgt t fs) (ctx_left fs @ inorder t) (ctx_right fs) \<or> t = Null_element"
proof (induction t arbitrary: fs)
  case (Element c l k n r)
  show ?case
  proof (cases r)
    case Null_element
    have "last_of (Some (Element c l k n r, fs)) ((ctx_left fs @ inorder l) @ [(k, n)]) (ctx_right fs)"
      by (rule last_of_snoc[THEN iffD2]) (simp add: at_pos_Element Null_element)
    then show ?thesis using Null_element by simp
  next
    case (Element c' l' k' n' r')
    then show ?thesis using Element.IH(2)[of "Right_of c l k n # fs"] by simp
  qed
qed simp

lemma climb_next: "first_of (climb Rgt t fs) (ctx_left fs @ inorder t) (ctx_right fs)"
proof (induction fs arbitrary: t)
  case (Cons f fs)
  show ?case
  proof (cases f)
    case (Left_of c k n r)
    then show ?thesis by (simp add: at_pos_Element)
  next
    case (Right_of c l k n)
    then show ?thesis using Cons[of "link f t"] by simp
  qed
qed (simp add: first_of_def)

lemma climb_prev: "last_of (climb Lft t fs) (ctx_left fs) (inorder t @ ctx_right fs)"
proof (induction fs arbitrary: t)
  case (Cons f fs)
  show ?case
  proof (cases f)
    case (Right_of c l k n)
    have "last_of (climb Lft t (f # fs)) ((ctx_left fs @ inorder l) @ [(k, n)]) (inorder t @ ctx_right fs)"
      unfolding Right_of by (simp only: climb.simps frame_side.simps side.distinct if_False link.simps last_of_snoc at_pos_Element simp_thms)
    then show ?thesis unfolding Right_of by simp
  next
    case (Left_of c k n r)
    then show ?thesis using Cons[of "link f t"] by simp
  qed
qed (simp add: last_of_def)

lemma search_next_ok:
  assumes "at_pos p xs x ys"
  shows "first_of (tree_search_next Lft Rgt p) (xs @ [x]) ys" "last_of (tree_search_next Rgt Lft p) xs (x # ys)"
proof -
  obtain c l k n r fs where p: "p = (Element c l k n r, fs)" and s: "xs = ctx_left fs @ inorder l" "x = (k, n)" "ys = inorder r @ ctx_right fs"
    using assms by (auto simp: at_pos_def)
  show "first_of (tree_search_next Lft Rgt p) (xs @ [x]) ys"
    using edge_first[of r "Right_of c l k n # fs"] climb_next[of "Element c l k n r" fs]
    by (cases "r = Null_element") (simp_all add: p s tree_search_next_def)
  show "last_of (tree_search_next Rgt Lft p) xs (x # ys)"
    using edge_last[of l "Left_of c k n r # fs"] climb_prev[of "Element c l k n r" fs]
    by (cases "l = Null_element") (simp_all add: p s tree_search_next_def)
qed

text \<open>The elements met by a cursor that starts at an edge and takes at most \<open>m\<close> steps.\<close>

fun pos_item :: "'k tree_pos \<Rightarrow> ('k \<times> nat) list" where
  "pos_item (Element c l k n r, fs) = [(k, n)]"
| "pos_item (Null_element, fs) = []"

fun cursor_scan :: "side \<Rightarrow> side \<Rightarrow> nat \<Rightarrow> 'k tree_pos option \<Rightarrow> ('k \<times> nat) list" where
  "cursor_scan l r 0 po = []"
| "cursor_scan l r (Suc m) None = []"
| "cursor_scan l r (Suc m) (Some p) = pos_item p @ cursor_scan l r m (tree_search_next l r p)"

lemma at_pos_item: "at_pos p xs x ys \<Longrightarrow> pos_item p = [x]"
  by (auto simp: at_pos_def)

lemma scan_forward: "first_of po xs ys \<Longrightarrow> length ys \<le> m \<Longrightarrow> cursor_scan Lft Rgt m po = ys"
proof (induction m arbitrary: po xs ys)
  case (Suc m)
  show ?case
  proof (cases ys)
    case (Cons y ys')
    then obtain p where p: "po = Some p" "at_pos p xs y ys'" using Suc.prems(1) by (auto simp: first_of_def)
    show ?thesis using Suc.IH[OF search_next_ok(1)[OF p(2)]] Suc.prems(2) at_pos_item[OF p(2)] p(1) Cons by simp
  qed (use Suc.prems in \<open>simp add: first_of_def\<close>)
qed simp

lemma scan_backward: "last_of po xs ys \<Longrightarrow> length xs \<le> m \<Longrightarrow> cursor_scan Rgt Lft m po = rev xs"
proof (induction m arbitrary: po xs ys)
  case (Suc m)
  show ?case
  proof (cases xs rule: rev_cases)
    case (snoc xs' x)
    then obtain p where p: "po = Some p" "at_pos p xs' x ys" using Suc.prems(1) by (auto simp: last_of_def)
    show ?thesis using Suc.IH[OF search_next_ok(2)[OF p(2)]] Suc.prems(2) at_pos_item[OF p(2)] p(1) snoc by simp
  qed (use Suc.prems in \<open>simp add: last_of_def\<close>)
qed simp

text \<open>C18. The cursor: starting at the left edge and stepping to the next element until there is none visits exactly the
  contents of the tree in order; from the right edge with the sides exchanged it visits them in reverse order. No
  element is skipped or met twice, and the scan ends after as many steps as there are elements.\<close>

theorem cursor_scans_tree:
  "cursor_scan Lft Rgt (Suc (length (inorder t))) (tree_search_edge Lft t []) = inorder t \<and>
   cursor_scan Rgt Lft (Suc (length (inorder t))) (tree_search_edge Rgt t []) = rev (inorder t)"
proof (cases "t = Null_element")
  case False
  have "first_of (tree_search_edge Lft t []) [] (inorder t)" using edge_first[of t "[]"] False by simp
  moreover have "last_of (tree_search_edge Rgt t []) (inorder t) []" using edge_last[of t "[]"] False by simp
  ultimately show ?thesis using scan_forward scan_backward by fastforce
qed simp

subsection \<open>Walking the tree\<close>

fun walk_list :: "('k \<Rightarrow> nat \<Rightarrow> 's \<Rightarrow> int \<times> 's) \<Rightarrow> ('k \<times> nat) list \<Rightarrow> 's \<Rightarrow> int \<times> 's" where
  "walk_list action [] s = (0, s)"
| "walk_list action ((k, n) # xs) s = (let (e, s') = action k n s in if e \<noteq> 0 then (e, s') else walk_list action xs s')"

lemma walk_append:
  "walk_list action (xs @ ys) s = (let (e, s') = walk_list action xs s in if e \<noteq> 0 then (e, s') else walk_list action ys s')"
  by (induction action xs s rule: walk_list.induct) (auto split: prod.splits)

text \<open>C19. \<open>tree_walk\<close> calls the action on the elements in order, or in reverse order, threads the argument through the calls,
  and stops with the first non-zero result.\<close>

theorem tree_walk_correct:
  "tree_walk action t s left_root_right = walk_list action (inorder (root t)) s \<and>
   tree_walk action t s right_root_left = walk_list action (rev (inorder (root t))) s"
proof -
  have "tree_walk_left_root_right action x s = walk_list action (inorder x) s" for x s
    by (induction x arbitrary: s) (auto simp: walk_append split: prod.splits)
  moreover have "tree_walk_right_root_left action x s = walk_list action (rev (inorder x)) s" for x s
    by (induction x arbitrary: s) (auto simp: walk_append split: prod.splits)
  ultimately show ?thesis by (simp add: tree_walk_def)
qed

text \<open>C20. \<open>tree_search\<close> finds a key of a well-formed tree exactly when an equal key is stored, and returns the stored key.\<close>

theorem tree_search_correct:
  assumes "comparator cmp" "ordered cmp (inorder t)"
  shows "tree_search cmp t key = map_option fst (find (\<lambda>x. cmp (fst x) key = 0) (inorder t))"
  using assms(2)
proof (induction t)
  case (Element c l k n r)
  have o: "ordered cmp (inorder l)" "ordered cmp (inorder r)"
    and l: "\<forall>x \<in> set (inorder l). cmp (fst x) k < 0" and r: "\<forall>x \<in> set (inorder r). cmp k (fst x) < 0"
    using Element.prems by (auto simp: ordered_def sorted_wrt_append)
  have nl: "\<forall>x \<in> set (inorder l). cmp (fst x) key \<noteq> 0" if "cmp k key \<le> 0"
    using l that comparator.cmp_less_le_trans[OF assms(1)] by (metis less_irrefl)
  have nr: "\<forall>x \<in> set (inorder r). cmp (fst x) key \<noteq> 0" if "0 < cmp k key"
    using r that comparator.greater_trans[OF assms(1)] by (metis less_irrefl)
  show ?case
    using Element.IH o nl nr by (cases "cmp k key" "0::int" rule: linorder_cases) (auto simp: Let_def find_skip find_none find_app split: option.splits)
qed simp

theorem tree_search_correct_witness:
  "tree_search (\<lambda>x y. x - y) (root sample_tree) 20 = map_option fst (find (\<lambda>x. fst x - 20 = 0) (inorder (root sample_tree)))"
  by (rule tree_search_correct[OF comparator_difference]) (simp add: sample_simps)

end
