(* ===== verification/Key_Compare.thy ===== *)
theory Key_Compare
  imports Prelude
begin

unbundle bit_operations_syntax

text \<open>
  Comparison of binary keys: \<open>get_ptr_compare\<close> of \<open>mysys/ptr_cmp.c\<close> with the unrolled loops that
  it chooses from, and \<open>simple_raw_key_cmp\<close> of \<open>sql/item_sum.cc\<close>.

  \<open>memcmp\<close> of the C library is modelled with the difference of the first bytes that differ; its
  callers use the sign only. A key that is passed to a callback is the memory its pointer refers
  to, a function from offsets to bytes; the buffers of the unrolled loops have an end, so that a
  read past it shows as \<open>None\<close>. \<open>simple_raw_key_cmp\<close> interprets the locale \<open>comparator\<close>, the
  contract that the ordered containers ask of their callback.
\<close>

subsection \<open>Comparing memory\<close>

type_synonym key_mem = "nat \<Rightarrow> uchar"

fun memcmp :: "nat \<Rightarrow> key_mem \<Rightarrow> key_mem \<Rightarrow> int" where
  "memcmp 0 a b = 0"
| "memcmp (Suc n) a b =
     (if a 0 \<noteq> b 0 then uint (a 0) - uint (b 0) else memcmp n (\<lambda>i. a (Suc i)) (\<lambda>i. b (Suc i)))"

definition simple_raw_key_cmp :: "nat \<Rightarrow> key_mem \<Rightarrow> key_mem \<Rightarrow> int" where
  "simple_raw_key_cmp arg key1 key2 = memcmp arg key1 key2"

subsection \<open>Unrolled comparison\<close>

text \<open>The macro \<open>cmp(N)\<close>: return the difference, or go on.\<close>

definition cmp_step :: "nat \<Rightarrow> uchar list \<Rightarrow> uchar list \<Rightarrow> int option \<Rightarrow> int option" where
  "cmp_step i first lst rest = do {
     x \<leftarrow> aget first i;
     y \<leftarrow> aget lst i;
     if x \<noteq> y then Some (uint x - uint y) else rest
   }"

lemma cmp_step_cong [fundef_cong]:
  "i = i' \<Longrightarrow> a = a' \<Longrightarrow> b = b' \<Longrightarrow> (i' < length a' \<Longrightarrow> k = k') \<Longrightarrow> cmp_step i a b k = cmp_step i' a' b' k'"
  by (auto simp: cmp_step_def aget_def)

fun ptr_compare_loop :: "int \<Rightarrow> uchar list \<Rightarrow> uchar list \<Rightarrow> int option" where
  "ptr_compare_loop n (x # first) (y # lst) =
     (let n = n - 1 in
      if n \<noteq> 0 then if x \<noteq> y then Some (uint x - uint y) else ptr_compare_loop n first lst
      else Some (uint x - uint y))"
| "ptr_compare_loop n _ _ = None"

definition ptr_compare :: "nat \<Rightarrow> uchar list \<Rightarrow> uchar list \<Rightarrow> int option" where
  "ptr_compare compare_length a b = ptr_compare_loop (int compare_length) a b"

function cmp4_loop :: "int \<Rightarrow> nat \<Rightarrow> uchar list \<Rightarrow> uchar list \<Rightarrow> int option" where
  "cmp4_loop n p a b =
     cmp_step p a b (cmp_step (p + 1) a b (cmp_step (p + 2) a b (cmp_step (p + 3) a b
       (let n = n - 4 in if n \<noteq> 0 then cmp4_loop n (p + 4) a b else Some 0))))"
  by pat_completeness auto
termination
  by (relation "measure (\<lambda>(n, p, a, b). length a - p)") auto

declare cmp4_loop.simps [simp del]

definition ptr_compare_0 :: "nat \<Rightarrow> uchar list \<Rightarrow> uchar list \<Rightarrow> int option" where
  "ptr_compare_0 compare_length a b = cmp4_loop (int compare_length) 0 a b"

definition ptr_compare_1 :: "nat \<Rightarrow> uchar list \<Rightarrow> uchar list \<Rightarrow> int option" where
  "ptr_compare_1 compare_length a b = cmp_step 0 a b (cmp4_loop (int compare_length - 1) 1 a b)"

definition ptr_compare_2 :: "nat \<Rightarrow> uchar list \<Rightarrow> uchar list \<Rightarrow> int option" where
  "ptr_compare_2 compare_length a b = cmp_step 0 a b (cmp_step 1 a b (cmp4_loop (int compare_length - 2) 2 a b))"

definition ptr_compare_3 :: "nat \<Rightarrow> uchar list \<Rightarrow> uchar list \<Rightarrow> int option" where
  "ptr_compare_3 compare_length a b =
     cmp_step 0 a b (cmp_step 1 a b (cmp_step 2 a b (cmp4_loop (int compare_length - 3) 3 a b)))"

definition get_ptr_compare :: "nat \<Rightarrow> nat \<Rightarrow> uchar list \<Rightarrow> uchar list \<Rightarrow> int option" where
  "get_ptr_compare sz =
     (if sz < 4 then ptr_compare
      else if sz AND 3 = 0 then ptr_compare_0
      else if sz AND 3 = 1 then ptr_compare_1
      else if sz AND 3 = 2 then ptr_compare_2
      else ptr_compare_3)"

subsection \<open>Memory comparison is a comparison callback\<close>

lemma memcmp_refl: "memcmp n a a = 0"
  by (induction n arbitrary: a) auto

lemma memcmp_anti: "memcmp n b a = - memcmp n a b"
proof (induction n arbitrary: a b)
  case (Suc n) show ?case using Suc.IH[of "\<lambda>i. b (Suc i)" "\<lambda>i. a (Suc i)"] by simp
qed simp

lemma memcmp_trans: "memcmp n a b \<le> 0 \<Longrightarrow> memcmp n b c \<le> 0 \<Longrightarrow> memcmp n a c \<le> 0"
proof (induction n arbitrary: a b c)
  case (Suc n)
  note ih = Suc.IH[of "\<lambda>i. a (Suc i)" "\<lambda>i. b (Suc i)" "\<lambda>i. c (Suc i)"]
  have lt: "x \<noteq> y \<Longrightarrow> uint x - uint y \<le> 0 \<longleftrightarrow> uint x < uint y" for x y :: uchar
    by (auto simp: word_uint_eq_iff)
  consider "a 0 = b 0" | "a 0 \<noteq> b 0" "b 0 = c 0" | "a 0 \<noteq> b 0" "b 0 \<noteq> c 0" by blast
  then show ?case
  proof cases
    case 1 then show ?thesis using Suc.prems ih by (simp split: if_splits)
  next
    case 2 then show ?thesis using Suc.prems by simp
  next
    case 3 then have "uint (a 0) < uint (c 0)" using Suc.prems lt by fastforce
    then show ?thesis by auto
  qed
qed simp

lemma memcmp_zero_iff: "memcmp n a b = 0 \<longleftrightarrow> (\<forall>i<n. a i = b i)"
proof (induction n arbitrary: a b)
  case (Suc n)
  have "(\<forall>i<Suc n. a i = b i) \<longleftrightarrow> a 0 = b 0 \<and> (\<forall>i<n. a (Suc i) = b (Suc i))"
    by (auto simp: less_Suc_eq_0_disj)
  then show ?case using Suc.IH[of "\<lambda>i. a (Suc i)" "\<lambda>i. b (Suc i)"] by (auto simp: word_uint_eq_iff)
qed simp

interpretation raw_key: comparator "simple_raw_key_cmp n" for n
proof
  show "sgn (simple_raw_key_cmp n y x) = - sgn (simple_raw_key_cmp n x y)" for x y
    using memcmp_anti[of n y x] by (simp add: simple_raw_key_cmp_def sgn_minus)
qed (auto simp: simple_raw_key_cmp_def memcmp_refl intro: memcmp_trans)

subsection \<open>The unrolled loops compare memory\<close>

definition mem_at :: "uchar list \<Rightarrow> nat \<Rightarrow> key_mem" where
  "mem_at a p = (\<lambda>i. a ! (p + i))"

lemma cmp_step_mem:
  assumes "p < length a" "p < length b" "q = p + 1" "N = n + 1" "k = Some (memcmp n (mem_at a q) (mem_at b q))"
  shows "cmp_step p a b k = Some (memcmp N (mem_at a p) (mem_at b p))"
  using assms by (simp add: cmp_step_def mem_at_def)

lemma cmp4_loop_mem:
  assumes "0 < m" "p + 4 * m \<le> length a" "p + 4 * m \<le> length b"
  shows "cmp4_loop (int (4 * m)) p a b = Some (memcmp (4 * m) (mem_at a p) (mem_at b p))"
  using assms
proof (induction m arbitrary: p rule: nat_induct)
  case (Suc m)
  let ?k = "if m \<noteq> 0 then cmp4_loop (int (4 * m)) (p + 4) a b else Some 0"
  let ?m = "\<lambda>n q. Some (memcmp n (mem_at a q) (mem_at b q))"
  have k: "?k = ?m (4 * m) (p + 4)"
    using Suc.IH[of "p + 4"] Suc.prems by simp
  have k3: "cmp_step (p + 3) a b ?k = ?m (4 * m + 1) (p + 3)"
    by (rule cmp_step_mem[OF _ _ _ _ k]) (use Suc.prems in simp_all)
  have k2: "cmp_step (p + 2) a b (cmp_step (p + 3) a b ?k) = ?m (4 * m + 2) (p + 2)"
    by (rule cmp_step_mem[OF _ _ _ _ k3]) (use Suc.prems in simp_all)
  have k1: "cmp_step (p + 1) a b (cmp_step (p + 2) a b (cmp_step (p + 3) a b ?k)) = ?m (4 * m + 3) (p + 1)"
    by (rule cmp_step_mem[OF _ _ _ _ k2]) (use Suc.prems in simp_all)
  have "cmp_step p a b (cmp_step (p + 1) a b (cmp_step (p + 2) a b (cmp_step (p + 3) a b ?k))) = ?m (4 * m + 4) p"
    by (rule cmp_step_mem[OF _ _ _ _ k1]) (use Suc.prems in simp_all)
  moreover have "cmp4_loop (int (4 * Suc m)) p a b =
      cmp_step p a b (cmp_step (p + 1) a b (cmp_step (p + 2) a b (cmp_step (p + 3) a b ?k)))"
    by (subst cmp4_loop.simps) (simp add: Let_def)
  ultimately show ?case by (simp only: mult_Suc_right add.commute)
qed simp

lemma ptr_compare_loop_mem:
  "0 < n \<Longrightarrow> n \<le> length a \<Longrightarrow> n \<le> length b \<Longrightarrow> ptr_compare_loop (int n) a b = Some (memcmp n (mem_at a 0) (mem_at b 0))"
proof (induction n arbitrary: a b)
  case (Suc n)
  obtain x a' y b' where ab: "a = x # a'" "b = y # b'" using Suc.prems by (cases a; cases b) auto
  show ?case
  proof (cases "n = 0")
    case True then show ?thesis using ab by (simp add: mem_at_def)
  next
    case False then show ?thesis using Suc.IH[of a' b'] Suc.prems ab by (simp add: mem_at_def)
  qed
qed simp

lemma ptr_compare_mod:
  assumes "4 \<le> n" "n \<le> length a" "n \<le> length b"
  shows "n mod 4 = 0 \<Longrightarrow> ptr_compare_0 n a b = Some (memcmp n (mem_at a 0) (mem_at b 0))"
    and "n mod 4 = 1 \<Longrightarrow> ptr_compare_1 n a b = Some (memcmp n (mem_at a 0) (mem_at b 0))"
    and "n mod 4 = 2 \<Longrightarrow> ptr_compare_2 n a b = Some (memcmp n (mem_at a 0) (mem_at b 0))"
    and "n mod 4 = 3 \<Longrightarrow> ptr_compare_3 n a b = Some (memcmp n (mem_at a 0) (mem_at b 0))"
proof -
  define m where "m = n div 4"
  have m: "0 < m" "n = 4 * m + n mod 4" using assms(1) by (auto simp: m_def)
  note lp = cmp4_loop_mem[OF m(1), where a=a and b=b]
  { assume r: "n mod 4 = 0"
    show "ptr_compare_0 n a b = Some (memcmp n (mem_at a 0) (mem_at b 0))"
      using lp[of 0] m(2) assms r by (simp add: ptr_compare_0_def) }
  { assume r: "n mod 4 = 1"
    have "cmp4_loop (int n - 1) 1 a b = Some (memcmp (4 * m) (mem_at a 1) (mem_at b 1))"
      using lp[of 1] m(2) assms r by simp
    note k = this
    show "ptr_compare_1 n a b = Some (memcmp n (mem_at a 0) (mem_at b 0))"
      unfolding ptr_compare_1_def
      by (rule cmp_step_mem[OF _ _ _ _ k]) (use m r assms in linarith)+ }
  { assume r: "n mod 4 = 2"
    have "cmp4_loop (int n - 2) 2 a b = Some (memcmp (4 * m) (mem_at a 2) (mem_at b 2))"
      using lp[of 2] m(2) assms r by simp
    note k = this
    have k1: "cmp_step 1 a b (cmp4_loop (int n - 2) 2 a b) = Some (memcmp (4 * m + 1) (mem_at a 1) (mem_at b 1))"
      by (rule cmp_step_mem[OF _ _ _ _ k]) (use m r assms in linarith)+
    show "ptr_compare_2 n a b = Some (memcmp n (mem_at a 0) (mem_at b 0))"
      unfolding ptr_compare_2_def
      by (rule cmp_step_mem[OF _ _ _ _ k1]) (use m r assms in linarith)+ }
  { assume r: "n mod 4 = 3"
    have "cmp4_loop (int n - 3) 3 a b = Some (memcmp (4 * m) (mem_at a 3) (mem_at b 3))"
      using lp[of 3] m(2) assms r by simp
    note k = this
    have k2: "cmp_step 2 a b (cmp4_loop (int n - 3) 3 a b) = Some (memcmp (4 * m + 1) (mem_at a 2) (mem_at b 2))"
      by (rule cmp_step_mem[OF _ _ _ _ k]) (use m r assms in linarith)+
    have k1: "cmp_step 1 a b (cmp_step 2 a b (cmp4_loop (int n - 3) 3 a b)) = Some (memcmp (4 * m + 2) (mem_at a 1) (mem_at b 1))"
      by (rule cmp_step_mem[OF _ _ _ _ k2]) (use m r assms in linarith)+
    show "ptr_compare_3 n a b = Some (memcmp n (mem_at a 0) (mem_at b 0))"
      unfolding ptr_compare_3_def
      by (rule cmp_step_mem[OF _ _ _ _ k1]) (use m r assms in linarith)+ }
qed

lemma and_3: "(n::nat) AND 3 = n mod 4"
  using take_bit_eq_mask[of 2 n] by (simp add: take_bit_eq_mod mask_eq_exp_minus_1)

text \<open>C40. The byte comparison that \<open>get_ptr_compare\<close> chooses for a key length returns what \<open>memcmp\<close>
  of that length returns, for every length from one on, and reads no byte past the keys.\<close>

theorem get_ptr_compare_memcmp:
  assumes "1 \<le> n" "n \<le> length a" "n \<le> length b"
  shows "get_ptr_compare n n a b = Some (memcmp n (\<lambda>i. a ! i) (\<lambda>i. b ! i))"
proof -
  have "get_ptr_compare n n a b = Some (memcmp n (mem_at a 0) (mem_at b 0))"
  proof (cases "n < 4")
    case True then show ?thesis
      using ptr_compare_loop_mem[of n a b] assms by (simp add: get_ptr_compare_def ptr_compare_def)
  next
    case False
    have "n mod 4 = 0 \<or> n mod 4 = 1 \<or> n mod 4 = 2 \<or> n mod 4 = 3" by linarith
    then show ?thesis using False ptr_compare_mod[of n a b] assms by (auto simp: get_ptr_compare_def and_3)
  qed
  then show ?thesis by (simp add: mem_at_def)
qed

theorem get_ptr_compare_memcmp_witness:
  "get_ptr_compare 6 6 [1, 2, 3, 4, 5, 9] [1, 2, 3, 4, 5, 7] = Some (memcmp 6 (\<lambda>i. [1, 2, 3, 4, 5, 9] ! i) (\<lambda>i. [1, 2, 3, 4, 5, 7] ! i))"
  using get_ptr_compare_memcmp[of 6 "[1, 2, 3, 4, 5, 9]" "[1, 2, 3, 4, 5, 7]"] by simp

end
