(* ===== verification/Byte_Order.thy ===== *)
theory Byte_Order
  imports Prelude
begin

unbundle bit_operations_syntax

text \<open>
  The byte-order macros: \<open>intNstore\<close>, \<open>uintNkorr\<close> and \<open>sintNkorr\<close> of \<open>include/my_global.h\<close> (low
  byte first, the portable variants) and \<open>mi_intNstore\<close>, \<open>mi_uintNkorr\<close> and \<open>mi_sintNkorr\<close> of
  \<open>include/myisampack.h\<close> (high byte first), with \<open>my_store_ptr\<close> and \<open>my_get_ptr\<close> of
  \<open>mysys/ptr_cmp.c\<close> on top of them.

  A pointer is a buffer and an offset into it; an access outside the buffer is \<open>None\<close>. Signed
  results are words, read with \<open>sint\<close>. The locale \<open>codec\<close> is the contract of a store and a
  load macro of the same width; it is interpreted on every pair.
\<close>

subsection \<open>Low byte first\<close>

definition uint2korr :: "uchar list \<Rightarrow> nat \<Rightarrow> uint16 option" where
  "uint2korr A p = do { a0 \<leftarrow> aget A p; a1 \<leftarrow> aget A (p + 1);
     Some ((ucast a0 :: 16 word) + push_bit 8 (ucast a1)) }"

definition uint3korr :: "uchar list \<Rightarrow> nat \<Rightarrow> uint32 option" where
  "uint3korr A p = do { a0 \<leftarrow> aget A p; a1 \<leftarrow> aget A (p + 1); a2 \<leftarrow> aget A (p + 2);
     Some ((ucast a0 :: 32 word) + push_bit 8 (ucast a1) + push_bit 16 (ucast a2)) }"

definition uint4korr :: "uchar list \<Rightarrow> nat \<Rightarrow> uint32 option" where
  "uint4korr A p = do { a0 \<leftarrow> aget A p; a1 \<leftarrow> aget A (p + 1); a2 \<leftarrow> aget A (p + 2); a3 \<leftarrow> aget A (p + 3);
     Some ((ucast a0 :: 32 word) + push_bit 8 (ucast a1) + push_bit 16 (ucast a2) + push_bit 24 (ucast a3)) }"

definition uint5korr :: "uchar list \<Rightarrow> nat \<Rightarrow> ulonglong option" where
  "uint5korr A p = do { a0 \<leftarrow> aget A p; a1 \<leftarrow> aget A (p + 1); a2 \<leftarrow> aget A (p + 2); a3 \<leftarrow> aget A (p + 3); a4 \<leftarrow> aget A (p + 4);
     Some ((ucast ((ucast a0 :: 32 word) + push_bit 8 (ucast a1) + push_bit 16 (ucast a2) + push_bit 24 (ucast a3)) :: 64 word) + push_bit 32 (ucast a4)) }"

definition uint8korr :: "uchar list \<Rightarrow> nat \<Rightarrow> ulonglong option" where
  "uint8korr A p = do { a0 \<leftarrow> aget A p; a1 \<leftarrow> aget A (p + 1); a2 \<leftarrow> aget A (p + 2); a3 \<leftarrow> aget A (p + 3); a4 \<leftarrow> aget A (p + 4); a5 \<leftarrow> aget A (p + 5); a6 \<leftarrow> aget A (p + 6); a7 \<leftarrow> aget A (p + 7);
     Some ((ucast ((ucast a0 :: 32 word) + push_bit 8 (ucast a1) + push_bit 16 (ucast a2) + push_bit 24 (ucast a3)) :: 64 word) + push_bit 32 (ucast ((ucast a4 :: 32 word) + push_bit 8 (ucast a5) + push_bit 16 (ucast a6) + push_bit 24 (ucast a7)))) }"

definition sint2korr :: "uchar list \<Rightarrow> nat \<Rightarrow> uint16 option" where
  "sint2korr A p = do { a0 \<leftarrow> aget A p; a1 \<leftarrow> aget A (p + 1);
     Some ((ucast a0 :: 16 word) + push_bit 8 (scast a1)) }"

definition sint3korr :: "uchar list \<Rightarrow> nat \<Rightarrow> uint32 option" where
  "sint3korr A p = do { a0 \<leftarrow> aget A p; a1 \<leftarrow> aget A (p + 1); a2 \<leftarrow> aget A (p + 2);
     Some (if a2 AND 128 \<noteq> 0 then push_bit 24 255 OR push_bit 16 (ucast a2) OR push_bit 8 (ucast a1) OR ucast a0
           else push_bit 16 (ucast a2) OR push_bit 8 (ucast a1) OR ucast a0) }"

definition sint4korr :: "uchar list \<Rightarrow> nat \<Rightarrow> uint32 option" where
  "sint4korr A p = do { a0 \<leftarrow> aget A p; a1 \<leftarrow> aget A (p + 1); a2 \<leftarrow> aget A (p + 2); a3 \<leftarrow> aget A (p + 3);
     Some ((ucast a0 :: 32 word) + push_bit 8 (ucast a1) + push_bit 16 (ucast a2) + push_bit 24 (scast a3)) }"

definition sint8korr :: "uchar list \<Rightarrow> nat \<Rightarrow> ulonglong option" where "sint8korr A p = uint8korr A p"

definition int2store :: "uchar list \<Rightarrow> nat \<Rightarrow> ulonglong \<Rightarrow> uchar list option" where
  "int2store T p A = (let def_temp = (ucast A :: uint32) in do { T \<leftarrow> aset T p (ucast def_temp); T \<leftarrow> aset T (p + 1) (ucast (drop_bit 8 def_temp));
     Some T })"

definition int3store :: "uchar list \<Rightarrow> nat \<Rightarrow> ulonglong \<Rightarrow> uchar list option" where
  "int3store T p A = (do { T \<leftarrow> aset T p (ucast A); T \<leftarrow> aset T (p + 1) (ucast (drop_bit 8 A)); T \<leftarrow> aset T (p + 2) (ucast (drop_bit 16 A));
     Some T })"

definition int4store :: "uchar list \<Rightarrow> nat \<Rightarrow> ulonglong \<Rightarrow> uchar list option" where
  "int4store T p A = (do { T \<leftarrow> aset T p (ucast A); T \<leftarrow> aset T (p + 1) (ucast (drop_bit 8 A)); T \<leftarrow> aset T (p + 2) (ucast (drop_bit 16 A)); T \<leftarrow> aset T (p + 3) (ucast (drop_bit 24 A));
     Some T })"

definition int5store :: "uchar list \<Rightarrow> nat \<Rightarrow> ulonglong \<Rightarrow> uchar list option" where
  "int5store T p A = (do { T \<leftarrow> aset T p (ucast A); T \<leftarrow> aset T (p + 1) (ucast (drop_bit 8 A)); T \<leftarrow> aset T (p + 2) (ucast (drop_bit 16 A)); T \<leftarrow> aset T (p + 3) (ucast (drop_bit 24 A)); T \<leftarrow> aset T (p + 4) (ucast (drop_bit 32 A));
     Some T })"

definition int8store :: "uchar list \<Rightarrow> nat \<Rightarrow> ulonglong \<Rightarrow> uchar list option" where
  "int8store T p A = (let def_temp = (ucast A :: uint32); def_temp2 = (ucast (drop_bit 32 A) :: uint32) in do {
     T \<leftarrow> int4store T p (ucast def_temp); int4store T (p + 4) (ucast def_temp2) })"

subsection \<open>High byte first\<close>

definition mi_uint2korr :: "uchar list \<Rightarrow> nat \<Rightarrow> uint16 option" where
  "mi_uint2korr A p = do { a0 \<leftarrow> aget A p; a1 \<leftarrow> aget A (p + 1);
     Some ((ucast a1 :: 16 word) + push_bit 8 (ucast a0)) }"

definition mi_uint3korr :: "uchar list \<Rightarrow> nat \<Rightarrow> uint32 option" where
  "mi_uint3korr A p = do { a0 \<leftarrow> aget A p; a1 \<leftarrow> aget A (p + 1); a2 \<leftarrow> aget A (p + 2);
     Some ((ucast a2 :: 32 word) + push_bit 8 (ucast a1) + push_bit 16 (ucast a0)) }"

definition mi_uint4korr :: "uchar list \<Rightarrow> nat \<Rightarrow> uint32 option" where
  "mi_uint4korr A p = do { a0 \<leftarrow> aget A p; a1 \<leftarrow> aget A (p + 1); a2 \<leftarrow> aget A (p + 2); a3 \<leftarrow> aget A (p + 3);
     Some ((ucast a3 :: 32 word) + push_bit 8 (ucast a2) + push_bit 16 (ucast a1) + push_bit 24 (ucast a0)) }"

definition mi_uint5korr :: "uchar list \<Rightarrow> nat \<Rightarrow> ulonglong option" where
  "mi_uint5korr A p = do { a0 \<leftarrow> aget A p; a1 \<leftarrow> aget A (p + 1); a2 \<leftarrow> aget A (p + 2); a3 \<leftarrow> aget A (p + 3); a4 \<leftarrow> aget A (p + 4);
     Some ((ucast ((ucast a4 :: 32 word) + push_bit 8 (ucast a3) + push_bit 16 (ucast a2) + push_bit 24 (ucast a1)) :: 64 word) + push_bit 32 (ucast a0)) }"

definition mi_uint6korr :: "uchar list \<Rightarrow> nat \<Rightarrow> ulonglong option" where
  "mi_uint6korr A p = do { a0 \<leftarrow> aget A p; a1 \<leftarrow> aget A (p + 1); a2 \<leftarrow> aget A (p + 2); a3 \<leftarrow> aget A (p + 3); a4 \<leftarrow> aget A (p + 4); a5 \<leftarrow> aget A (p + 5);
     Some ((ucast ((ucast a5 :: 32 word) + push_bit 8 (ucast a4) + push_bit 16 (ucast a3) + push_bit 24 (ucast a2)) :: 64 word) + push_bit 32 (ucast ((ucast a1 :: 32 word) + push_bit 8 (ucast a0)))) }"

definition mi_uint7korr :: "uchar list \<Rightarrow> nat \<Rightarrow> ulonglong option" where
  "mi_uint7korr A p = do { a0 \<leftarrow> aget A p; a1 \<leftarrow> aget A (p + 1); a2 \<leftarrow> aget A (p + 2); a3 \<leftarrow> aget A (p + 3); a4 \<leftarrow> aget A (p + 4); a5 \<leftarrow> aget A (p + 5); a6 \<leftarrow> aget A (p + 6);
     Some ((ucast ((ucast a6 :: 32 word) + push_bit 8 (ucast a5) + push_bit 16 (ucast a4) + push_bit 24 (ucast a3)) :: 64 word) + push_bit 32 (ucast ((ucast a2 :: 32 word) + push_bit 8 (ucast a1) + push_bit 16 (ucast a0)))) }"

definition mi_uint8korr :: "uchar list \<Rightarrow> nat \<Rightarrow> ulonglong option" where
  "mi_uint8korr A p = do { a0 \<leftarrow> aget A p; a1 \<leftarrow> aget A (p + 1); a2 \<leftarrow> aget A (p + 2); a3 \<leftarrow> aget A (p + 3); a4 \<leftarrow> aget A (p + 4); a5 \<leftarrow> aget A (p + 5); a6 \<leftarrow> aget A (p + 6); a7 \<leftarrow> aget A (p + 7);
     Some ((ucast ((ucast a7 :: 32 word) + push_bit 8 (ucast a6) + push_bit 16 (ucast a5) + push_bit 24 (ucast a4)) :: 64 word) + push_bit 32 (ucast ((ucast a3 :: 32 word) + push_bit 8 (ucast a2) + push_bit 16 (ucast a1) + push_bit 24 (ucast a0)))) }"

definition mi_sint2korr :: "uchar list \<Rightarrow> nat \<Rightarrow> uint16 option" where
  "mi_sint2korr A p = do { a0 \<leftarrow> aget A p; a1 \<leftarrow> aget A (p + 1);
     Some ((ucast a1 :: 16 word) + push_bit 8 (scast a0)) }"

definition mi_sint3korr :: "uchar list \<Rightarrow> nat \<Rightarrow> uint32 option" where
  "mi_sint3korr A p = do { a0 \<leftarrow> aget A p; a1 \<leftarrow> aget A (p + 1); a2 \<leftarrow> aget A (p + 2);
     Some (if a0 AND 128 \<noteq> 0 then push_bit 24 255 OR push_bit 16 (ucast a0) OR push_bit 8 (ucast a1) OR ucast a2
           else push_bit 16 (ucast a0) OR push_bit 8 (ucast a1) OR ucast a2) }"

definition mi_sint4korr :: "uchar list \<Rightarrow> nat \<Rightarrow> uint32 option" where
  "mi_sint4korr A p = do { a0 \<leftarrow> aget A p; a1 \<leftarrow> aget A (p + 1); a2 \<leftarrow> aget A (p + 2); a3 \<leftarrow> aget A (p + 3);
     Some ((ucast a3 :: 32 word) + push_bit 8 (ucast a2) + push_bit 16 (ucast a1) + push_bit 24 (scast a0)) }"

definition mi_sint8korr :: "uchar list \<Rightarrow> nat \<Rightarrow> ulonglong option" where "mi_sint8korr A p = mi_uint8korr A p"

definition mi_int2store :: "uchar list \<Rightarrow> nat \<Rightarrow> ulonglong \<Rightarrow> uchar list option" where
  "mi_int2store T p A = (let def_temp = (ucast A :: uint32) in do { T \<leftarrow> aset T (p + 1) (ucast def_temp); T \<leftarrow> aset T p (ucast (drop_bit 8 def_temp));
     Some T })"

definition mi_int3store :: "uchar list \<Rightarrow> nat \<Rightarrow> ulonglong \<Rightarrow> uchar list option" where
  "mi_int3store T p A = (let def_temp = A in do { T \<leftarrow> aset T (p + 2) (ucast def_temp); T \<leftarrow> aset T (p + 1) (ucast (drop_bit 8 def_temp)); T \<leftarrow> aset T p (ucast (drop_bit 16 def_temp));
     Some T })"

definition mi_int4store :: "uchar list \<Rightarrow> nat \<Rightarrow> ulonglong \<Rightarrow> uchar list option" where
  "mi_int4store T p A = (let def_temp = A in do { T \<leftarrow> aset T (p + 3) (ucast def_temp); T \<leftarrow> aset T (p + 2) (ucast (drop_bit 8 def_temp)); T \<leftarrow> aset T (p + 1) (ucast (drop_bit 16 def_temp)); T \<leftarrow> aset T p (ucast (drop_bit 24 def_temp));
     Some T })"

definition mi_int5store :: "uchar list \<Rightarrow> nat \<Rightarrow> ulonglong \<Rightarrow> uchar list option" where
  "mi_int5store T p A = (let def_temp = A; def_temp2 = drop_bit 32 A in do { T \<leftarrow> aset T (p + 4) (ucast def_temp); T \<leftarrow> aset T (p + 3) (ucast (drop_bit 8 def_temp)); T \<leftarrow> aset T (p + 2) (ucast (drop_bit 16 def_temp)); T \<leftarrow> aset T (p + 1) (ucast (drop_bit 24 def_temp)); T \<leftarrow> aset T p (ucast def_temp2);
     Some T })"

definition mi_int6store :: "uchar list \<Rightarrow> nat \<Rightarrow> ulonglong \<Rightarrow> uchar list option" where
  "mi_int6store T p A = (let def_temp = A; def_temp2 = drop_bit 32 A in do { T \<leftarrow> aset T (p + 5) (ucast def_temp); T \<leftarrow> aset T (p + 4) (ucast (drop_bit 8 def_temp)); T \<leftarrow> aset T (p + 3) (ucast (drop_bit 16 def_temp)); T \<leftarrow> aset T (p + 2) (ucast (drop_bit 24 def_temp)); T \<leftarrow> aset T (p + 1) (ucast def_temp2); T \<leftarrow> aset T p (ucast (drop_bit 8 def_temp2));
     Some T })"

definition mi_int7store :: "uchar list \<Rightarrow> nat \<Rightarrow> ulonglong \<Rightarrow> uchar list option" where
  "mi_int7store T p A = (let def_temp = A; def_temp2 = drop_bit 32 A in do { T \<leftarrow> aset T (p + 6) (ucast def_temp); T \<leftarrow> aset T (p + 5) (ucast (drop_bit 8 def_temp)); T \<leftarrow> aset T (p + 4) (ucast (drop_bit 16 def_temp)); T \<leftarrow> aset T (p + 3) (ucast (drop_bit 24 def_temp)); T \<leftarrow> aset T (p + 2) (ucast def_temp2); T \<leftarrow> aset T (p + 1) (ucast (drop_bit 8 def_temp2)); T \<leftarrow> aset T p (ucast (drop_bit 16 def_temp2));
     Some T })"

definition mi_int8store :: "uchar list \<Rightarrow> nat \<Rightarrow> ulonglong \<Rightarrow> uchar list option" where
  "mi_int8store T p A = (let def_temp3 = A; def_temp4 = drop_bit 32 A in do {
     T \<leftarrow> mi_int4store T p def_temp4; mi_int4store T (p + 4) def_temp3 })"

subsection \<open>Packed pointers\<close>

text \<open>\<open>None\<close> also stands for the failed assertion of an unsupported length.\<close>

definition my_store_ptr :: "uchar list \<Rightarrow> nat \<Rightarrow> nat \<Rightarrow> ulonglong \<Rightarrow> uchar list option" where
  "my_store_ptr buff p pack_length pos =
     (if pack_length = 8 then mi_int8store buff p pos
      else if pack_length = 7 then mi_int7store buff p pos
      else if pack_length = 6 then mi_int6store buff p pos
      else if pack_length = 5 then mi_int5store buff p pos
      else if pack_length = 4 then mi_int4store buff p pos
      else if pack_length = 3 then mi_int3store buff p pos
      else if pack_length = 2 then mi_int2store buff p pos
      else if pack_length = 1 then aset buff p (ucast pos)
      else None)"

definition my_get_ptr :: "uchar list \<Rightarrow> nat \<Rightarrow> nat \<Rightarrow> ulonglong option" where
  "my_get_ptr ptr p pack_length =
     (if pack_length = 8 then mi_uint8korr ptr p
      else if pack_length = 7 then mi_uint7korr ptr p
      else if pack_length = 6 then mi_uint6korr ptr p
      else if pack_length = 5 then mi_uint5korr ptr p
      else if pack_length = 4 then map_option ucast (mi_uint4korr ptr p)
      else if pack_length = 3 then map_option ucast (mi_uint3korr ptr p)
      else if pack_length = 2 then map_option ucast (mi_uint2korr ptr p)
      else if pack_length = 1 then map_option ucast (mi_uint2korr ptr p)
      else None)"

subsection \<open>The numbers that bytes stand for\<close>

fun le_val :: "uchar list \<Rightarrow> nat" where
  "le_val [] = 0"
| "le_val (b # bs) = unat b + 256 * le_val bs"

fun le_bytes :: "nat \<Rightarrow> nat \<Rightarrow> uchar list" where
  "le_bytes 0 v = []"
| "le_bytes (Suc n) v = word_of_nat v # le_bytes n (v div 256)"

definition be_val :: "uchar list \<Rightarrow> nat" where "be_val bs = le_val (rev bs)"

definition be_bytes :: "nat \<Rightarrow> nat \<Rightarrow> uchar list" where "be_bytes n v = rev (le_bytes n v)"

lemma length_le_bytes [simp]: "length (le_bytes n v) = n"
  by (induction n arbitrary: v) auto

lemma length_be_bytes [simp]: "length (be_bytes n v) = n"
  by (simp add: be_bytes_def)

lemma le_val_bytes: "le_val (le_bytes n v) = v mod 256 ^ n"
proof (induction n arbitrary: v)
  case (Suc n)
  have "le_val (le_bytes (Suc n) v) = v mod 256 + 256 * (v div 256 mod 256 ^ n)"
    using Suc.IH by (simp add: unat_of_nat)
  also have "\<dots> = v mod 256 ^ Suc n"
    by (simp add: mod_mult2_eq)
  finally show ?case .
qed simp

lemma be_val_bytes: "be_val (be_bytes n v) = v mod 256 ^ n"
  by (simp add: be_val_def be_bytes_def le_val_bytes)

lemma le_val_bound: "le_val bs < 256 ^ length bs"
proof (induction bs)
  case (Cons b bs)
  have "unat b < 256" using unsigned_less[of b] by simp
  then show ?case using Cons by simp
qed simp

definition get_bytes :: "uchar list \<Rightarrow> nat \<Rightarrow> nat \<Rightarrow> uchar list option" where
  "get_bytes A p n = (if p + n \<le> length A then Some (arr_slice p n A) else None)"

definition put_bytes :: "uchar list \<Rightarrow> nat \<Rightarrow> uchar list \<Rightarrow> uchar list option" where
  "put_bytes T p bs = (if p + length bs \<le> length T then Some (take p T @ bs @ drop (p + length bs) T) else None)"

lemma put_bytes_Cons: "put_bytes T p (b # bs) = (if p < length T then put_bytes (T[p := b]) (Suc p) bs else None)"
  by (auto simp: put_bytes_def take_Suc_conv_app_nth drop_update_swap)

lemma put_bytes_Nil [simp]: "p \<le> length T \<Longrightarrow> put_bytes T p [] = Some T"
  by (simp add: put_bytes_def)

lemma arr_slice_Suc: "p < length A \<Longrightarrow> arr_slice p (Suc n) A = A ! p # arr_slice (Suc p) n A"
  by (simp add: arr_slice_def Cons_nth_drop_Suc[symmetric])

lemma get_put: "put_bytes T p bs = Some T' \<Longrightarrow> get_bytes T' p (length bs) = Some bs"
  by (auto simp: put_bytes_def get_bytes_def arr_slice_def split: if_splits)

lemma get_put_other:
  "put_bytes T p bs = Some T' \<Longrightarrow> q + n \<le> p \<or> p + length bs \<le> q \<Longrightarrow> get_bytes T' q n = get_bytes T q n"
  by (auto simp: put_bytes_def get_bytes_def arr_slice_def split: if_splits intro!: nth_equalityI)

lemma length_put: "put_bytes T p bs = Some T' \<Longrightarrow> length T' = length T"
  by (auto simp: put_bytes_def split: if_splits)

subsection \<open>The contract of a store and a load\<close>

lemma ucast_same_unat: "unat (w :: 'w::len word) = unat (v :: ulonglong) \<Longrightarrow> ucast w = v"
  by (metis of_nat_unat ucast_id)

locale codec =
  fixes width :: nat
    and store :: "uchar list \<Rightarrow> nat \<Rightarrow> ulonglong \<Rightarrow> uchar list option"
    and load :: "uchar list \<Rightarrow> nat \<Rightarrow> 'w::len word option"
    and encode :: "nat \<Rightarrow> nat \<Rightarrow> uchar list"
    and decode :: "uchar list \<Rightarrow> nat"
  assumes store_bytes: "store T p v = put_bytes T p (encode width (unat v))"
    and load_bytes: "map_option unat (load T p) = map_option decode (get_bytes T p width)"
    and length_encode: "length (encode width x) = width"
    and decode_encode: "decode (encode width x) = x mod 256 ^ width"
begin

lemma load_store:
  "store T p v = Some T' \<Longrightarrow> map_option unat (load T' p) = Some (unat v mod 256 ^ width)"
  using get_put[of T p "encode width (unat v)" T']
  by (simp add: store_bytes load_bytes length_encode decode_encode)

lemma store_defined: "store T p v \<noteq> None \<longleftrightarrow> p + width \<le> length T"
  by (auto simp: store_bytes put_bytes_def length_encode)

lemma load_defined: "load T p \<noteq> None \<longleftrightarrow> p + width \<le> length T"
  using arg_cong[where f="\<lambda>x. x \<noteq> None", OF load_bytes[of T p]] by (auto simp: get_bytes_def)

lemma load_other:
  assumes "store T p v = Some T'" "q + n \<le> p \<or> p + width \<le> q"
  shows "get_bytes T' q n = get_bytes T q n"
  using assms get_put_other[of T p "encode width (unat v)" T' q n] by (simp add: store_bytes length_encode)

lemma store_length: "store T p v = Some T' \<Longrightarrow> length T' = length T"
  using length_put[of T p "encode width (unat v)" T'] by (simp add: store_bytes)

lemma roundtrip:
  "p + width \<le> length T \<Longrightarrow> unat v < 256 ^ width \<Longrightarrow>
   \<exists>T'. store T p v = Some T' \<and> map_option ucast (load T' p) = Some v \<and> length T' = length T \<and>
     (\<forall>q n. q + n \<le> p \<or> p + width \<le> q \<longrightarrow> get_bytes T' q n = get_bytes T q n)"
  using ucast_same_unat store_defined[of T p v] load_store[of T p v] load_other[of T p v] store_length[of T p v] by force

end

subsection \<open>The macros keep the contract\<close>

lemma byte_drop: "word_of_nat (unat v div 2 ^ n) = (ucast (drop_bit n (v :: 'a::len word)) :: uchar)"
proof -
  have "unat v div 2 ^ n = unat (drop_bit n v)" by (simp only: unat_drop_bit_eq drop_bit_eq_div[of n "unat v"])
  then show ?thesis by simp
qed

lemma le_bytes_upt: "le_bytes n v = map (\<lambda>k. word_of_nat (v div 256 ^ k)) [0..<n]"
proof (induction n arbitrary: v)
  case (Suc n)
  have "map (\<lambda>k. word_of_nat (v div 256 div 256 ^ k)) [0..<n] = map (\<lambda>k. (word_of_nat (v div 256 ^ k) :: uchar)) [Suc 0..<Suc n]"
    by (intro nth_equalityI) (simp_all add: div_mult2_eq del: upt_Suc)
  then show ?case using Suc.IH[of "v div 256"] by (simp add: upt_conv_Cons del: upt_Suc)
qed simp

lemma le_bytes_word: "le_bytes n (unat (v :: 'a::len word)) = map (\<lambda>k. ucast (drop_bit (8 * k) v)) [0..<n]"
proof -
  have "(256::nat) ^ k = 2 ^ (8 * k)" for k by (simp add: power_mult)
  then show ?thesis by (simp add: le_bytes_upt byte_drop)
qed

lemma aset_put: "Option.bind (aset T p b) Some = put_bytes T p [b]"
  by (auto simp: aset_def put_bytes_def upd_conv_take_nth_drop)

lemma aset_put_before: "q = Suc p \<Longrightarrow> Option.bind (aset T p b) (\<lambda>T. put_bytes T q bs) = put_bytes T p (b # bs)"
  by (auto simp: aset_def put_bytes_Cons)

lemma aset_put_after: "q = p + length bs \<Longrightarrow> Option.bind (aset T q b) (\<lambda>T. put_bytes T p bs) = put_bytes T p (bs @ [b])"
  by (auto simp: aset_def put_bytes_def drop_update_swap upd_conv_take_nth_drop drop_Suc)

lemma put_put: "q = p + length bs \<Longrightarrow> Option.bind (put_bytes T p bs) (\<lambda>T. put_bytes T q cs) = put_bytes T p (bs @ cs)"
  by (auto simp: put_bytes_def ac_simps)

lemma byte_of_uint: "n \<le> 24 \<Longrightarrow> (ucast (drop_bit n (ucast (v :: ulonglong) :: uint32)) :: uchar) = ucast (drop_bit n v)"
  by (intro bit_word_eqI) (auto simp: bit_simps)

lemma byte_of_uint_up: "n \<le> 24 \<Longrightarrow> (ucast (drop_bit n (ucast (ucast (v :: ulonglong) :: uint32) :: ulonglong)) :: uchar) = ucast (drop_bit n v)"
  by (intro bit_word_eqI) (auto simp: bit_simps)

lemmas put_simps = Let_def aset_put aset_put_before aset_put_after byte_of_uint byte_of_uint[of 0, simplified] le_bytes_word upt_rec be_bytes_def

lemma int2store_bytes: "int2store T p v = put_bytes T p (le_bytes 2 (unat v))"
  by (simp add: int2store_def put_simps del: bind_runit)

lemma int3store_bytes: "int3store T p v = put_bytes T p (le_bytes 3 (unat v))"
  by (simp add: int3store_def put_simps del: bind_runit)

lemma int4store_bytes: "int4store T p v = put_bytes T p (le_bytes 4 (unat v))"
  by (simp add: int4store_def put_simps del: bind_runit)

lemma int5store_bytes: "int5store T p v = put_bytes T p (le_bytes 5 (unat v))"
  by (simp add: int5store_def put_simps del: bind_runit)

lemma int8store_bytes: "int8store T p v = put_bytes T p (le_bytes 8 (unat v))"
  by (simp add: int8store_def Let_def int4store_bytes le_bytes_word upt_rec put_put byte_of_uint_up byte_of_uint_up[of 0, simplified])

lemma mi_int2store_bytes: "mi_int2store T p v = put_bytes T p (be_bytes 2 (unat v))"
  by (simp add: mi_int2store_def put_simps del: bind_runit)

lemma mi_int3store_bytes: "mi_int3store T p v = put_bytes T p (be_bytes 3 (unat v))"
  by (simp add: mi_int3store_def put_simps del: bind_runit)

lemma mi_int4store_bytes: "mi_int4store T p v = put_bytes T p (be_bytes 4 (unat v))"
  by (simp add: mi_int4store_def put_simps del: bind_runit)

lemma mi_int5store_bytes: "mi_int5store T p v = put_bytes T p (be_bytes 5 (unat v))"
  by (simp add: mi_int5store_def put_simps del: bind_runit)

lemma mi_int6store_bytes: "mi_int6store T p v = put_bytes T p (be_bytes 6 (unat v))"
  by (simp add: mi_int6store_def put_simps del: bind_runit)

lemma mi_int7store_bytes: "mi_int7store T p v = put_bytes T p (be_bytes 7 (unat v))"
  by (simp add: mi_int7store_def put_simps del: bind_runit)

lemma mi_int8store_bytes: "mi_int8store T p v = put_bytes T p (be_bytes 8 (unat v))"
  by (simp add: mi_int8store_def Let_def mi_int4store_bytes be_bytes_def le_bytes_word upt_rec put_put)

text \<open>The sums that the load macros form are the numbers that the bytes stand for.\<close>

lemma word_le_val_pair: "ucast a0 + push_bit 8 (ucast a1) = (word_of_nat (le_val [a0, a1]) :: 'w::len word)"
  by (simp add: push_bit_eq_mult algebra_simps)

lemma get_bytes_nths: "get_bytes A p n = (if p + n \<le> length A then Some (map (\<lambda>k. A ! (p + k)) [0..<n]) else None)"
  by (auto simp: get_bytes_def arr_slice_def intro!: nth_equalityI)

lemma unat_le_val: "256 ^ length bs \<le> (2::nat) ^ LENGTH('w) \<Longrightarrow> unat (word_of_nat (le_val bs) :: 'w::len word) = le_val bs"
  using le_val_bound[of bs] by (simp add: unat_of_nat)

lemma ucast_le_val:
  "256 ^ length bs \<le> (2::nat) ^ LENGTH('a) \<Longrightarrow> (ucast (word_of_nat (le_val bs) :: 'a::len word) :: 'b::len word) = word_of_nat (le_val bs)"
  using unat_le_val[where 'w='a, of bs] by (metis of_nat_unat)

lemma le_val_append: "le_val (bs @ cs) = le_val bs + 256 ^ length bs * le_val cs"
  by (induction bs) (auto simp: algebra_simps)

lemma word_le_val_step:
  "n = 8 * length bs \<Longrightarrow> word_of_nat (le_val bs) + push_bit n (ucast (a :: uchar)) = (word_of_nat (le_val (bs @ [a])) :: 'w::len word)"
  using power_mult[of "2 :: 'w word" 8 "length bs"] by (simp add: le_val_append push_bit_eq_mult mult.commute)

lemma add_numeral_Suc: "(p::nat) + numeral k = Suc (p + pred_numeral k)"
  by (simp only: numeral_eq_Suc add_Suc_right)

lemma ulonglong_sum:
  assumes "length lo = 4" "length hi \<le> 4"
  shows "ucast (word_of_nat (le_val lo) :: uint32) + push_bit 32 (ucast (word_of_nat (le_val hi) :: uint32)) =
    (word_of_nat (le_val (lo @ hi)) :: ulonglong)"
proof -
  have "(256::nat) ^ length hi \<le> 256 ^ 4" using assms(2) by (intro power_increasing) auto
  then have hi: "(ucast (word_of_nat (le_val hi) :: uint32) :: ulonglong) = word_of_nat (le_val hi)"
    by (intro ucast_le_val) simp
  have lo: "(ucast (word_of_nat (le_val lo) :: uint32) :: ulonglong) = word_of_nat (le_val lo)"
    by (intro ucast_le_val) (simp add: assms(1))
  show ?thesis unfolding lo hi le_val_append assms(1) by (simp add: push_bit_eq_mult mult.commute)
qed

lemma ulonglong_sum_byte:
  "length lo = 4 \<Longrightarrow>
    ucast (word_of_nat (le_val lo) :: uint32) + push_bit 32 (ucast (a :: uchar)) = (word_of_nat (le_val (lo @ [a])) :: ulonglong)"
  using ulonglong_sum[of lo "[a]"] ucast_le_val[where 'a=32 and 'b=64, of "[a]"] by simp

lemmas load_simps = get_bytes_nths aget_def word_le_val_pair word_le_val_step add_numeral_Suc ulonglong_sum ulonglong_sum_byte unat_le_val upt_rec be_val_def

lemma uint2korr_bytes: "map_option unat (uint2korr A p) = map_option le_val (get_bytes A p 2)"
  by (auto simp: uint2korr_def load_simps simp del: le_val.simps)

lemma uint3korr_bytes: "map_option unat (uint3korr A p) = map_option le_val (get_bytes A p 3)"
  by (auto simp: uint3korr_def load_simps simp del: le_val.simps)

lemma uint4korr_bytes: "map_option unat (uint4korr A p) = map_option le_val (get_bytes A p 4)"
  by (auto simp: uint4korr_def load_simps simp del: le_val.simps)

lemma uint5korr_bytes: "map_option unat (uint5korr A p) = map_option le_val (get_bytes A p 5)"
  by (auto simp: uint5korr_def load_simps simp del: le_val.simps)

lemma uint8korr_bytes: "map_option unat (uint8korr A p) = map_option le_val (get_bytes A p 8)"
  by (auto simp: uint8korr_def load_simps simp del: le_val.simps)

lemma mi_uint2korr_bytes: "map_option unat (mi_uint2korr A p) = map_option be_val (get_bytes A p 2)"
  by (auto simp: mi_uint2korr_def load_simps simp del: le_val.simps)

lemma mi_uint3korr_bytes: "map_option unat (mi_uint3korr A p) = map_option be_val (get_bytes A p 3)"
  by (auto simp: mi_uint3korr_def load_simps simp del: le_val.simps)

lemma mi_uint4korr_bytes: "map_option unat (mi_uint4korr A p) = map_option be_val (get_bytes A p 4)"
  by (auto simp: mi_uint4korr_def load_simps simp del: le_val.simps)

lemma mi_uint5korr_bytes: "map_option unat (mi_uint5korr A p) = map_option be_val (get_bytes A p 5)"
  by (auto simp: mi_uint5korr_def load_simps simp del: le_val.simps)

lemma mi_uint6korr_bytes: "map_option unat (mi_uint6korr A p) = map_option be_val (get_bytes A p 6)"
  by (auto simp: mi_uint6korr_def load_simps simp del: le_val.simps)

lemma mi_uint7korr_bytes: "map_option unat (mi_uint7korr A p) = map_option be_val (get_bytes A p 7)"
  by (auto simp: mi_uint7korr_def load_simps simp del: le_val.simps)

lemma mi_uint8korr_bytes: "map_option unat (mi_uint8korr A p) = map_option be_val (get_bytes A p 8)"
  by (auto simp: mi_uint8korr_def load_simps simp del: le_val.simps)

subsection \<open>The contract for every pair of macros\<close>

interpretation le2: codec 2 int2store uint2korr le_bytes le_val
  by unfold_locales (simp_all add: int2store_bytes uint2korr_bytes le_val_bytes)

interpretation le3: codec 3 int3store uint3korr le_bytes le_val
  by unfold_locales (simp_all add: int3store_bytes uint3korr_bytes le_val_bytes)

interpretation le4: codec 4 int4store uint4korr le_bytes le_val
  by unfold_locales (simp_all add: int4store_bytes uint4korr_bytes le_val_bytes)

interpretation le5: codec 5 int5store uint5korr le_bytes le_val
  by unfold_locales (simp_all add: int5store_bytes uint5korr_bytes le_val_bytes)

interpretation le8: codec 8 int8store uint8korr le_bytes le_val
  by unfold_locales (simp_all add: int8store_bytes uint8korr_bytes le_val_bytes)

interpretation be2: codec 2 mi_int2store mi_uint2korr be_bytes be_val
  by unfold_locales (simp_all add: mi_int2store_bytes mi_uint2korr_bytes be_val_bytes)

interpretation be3: codec 3 mi_int3store mi_uint3korr be_bytes be_val
  by unfold_locales (simp_all add: mi_int3store_bytes mi_uint3korr_bytes be_val_bytes)

interpretation be4: codec 4 mi_int4store mi_uint4korr be_bytes be_val
  by unfold_locales (simp_all add: mi_int4store_bytes mi_uint4korr_bytes be_val_bytes)

interpretation be5: codec 5 mi_int5store mi_uint5korr be_bytes be_val
  by unfold_locales (simp_all add: mi_int5store_bytes mi_uint5korr_bytes be_val_bytes)

interpretation be6: codec 6 mi_int6store mi_uint6korr be_bytes be_val
  by unfold_locales (simp_all add: mi_int6store_bytes mi_uint6korr_bytes be_val_bytes)

interpretation be7: codec 7 mi_int7store mi_uint7korr be_bytes be_val
  by unfold_locales (simp_all add: mi_int7store_bytes mi_uint7korr_bytes be_val_bytes)

interpretation be8: codec 8 mi_int8store mi_uint8korr be_bytes be_val
  by unfold_locales (simp_all add: mi_int8store_bytes mi_uint8korr_bytes be_val_bytes)

subsection \<open>Signed loads\<close>

definition signed_val :: "nat \<Rightarrow> nat \<Rightarrow> int" where
  "signed_val n v = (if 2 * v < 256 ^ n then int v else int v - 256 ^ n)"

lemma sint_unat: "sint (w :: 'a::len word) = (if 2 * unat w < 2 ^ LENGTH('a) then int (unat w) else int (unat w) - 2 ^ LENGTH('a))"
proof -
  have h: "(2::int) ^ LENGTH('a) = 2 * 2 ^ (LENGTH('a) - 1)" by (metis len_gt_0 power_eq_if less_numeral_extra(3))
  have "2 * unat w < 2 ^ LENGTH('a) \<longleftrightarrow> 2 * int (unat w) < 2 ^ LENGTH('a)"
    by (metis of_nat_less_iff of_nat_mult of_nat_numeral of_nat_power)
  moreover have "int (unat w) = sint w mod 2 ^ LENGTH('a)"
    using uint_word_of_int[where 'a='a, of "sint w"] by simp
  moreover have "sint w mod 2 ^ LENGTH('a) = (if 0 \<le> sint w then sint w else sint w + 2 ^ LENGTH('a))"
    using sint_lt[of w] sint_ge[of w] h mod_pos_pos_trivial[of "sint w" "2 ^ LENGTH('a)"]
      mod_pos_pos_trivial[of "sint w + 2 ^ LENGTH('a)" "2 ^ LENGTH('a)"] by (simp del: mod_pos_pos_trivial)
  ultimately show ?thesis using sint_lt[of w] sint_ge[of w] h by (auto split: if_splits)
qed

lemma push_scast: "push_bit 8 (scast (a :: uchar)) = (push_bit 8 (ucast a) :: uint16)"
  "push_bit 24 (scast (a :: uchar)) = (push_bit 24 (ucast a) :: uint32)"
  by (auto intro!: bit_word_eqI simp: bit_simps)

lemma top_bit: "(a :: uchar) AND 128 \<noteq> 0 \<longleftrightarrow> 128 \<le> unat a"
proof -
  have "unat a < 256" using unsigned_less[of a] by simp
  then have d: "unat a div 128 = (if 128 \<le> unat a then 1 else 0)" by auto
  have "a AND 128 = 0 \<longleftrightarrow> \<not> bit a 7" using and_exp_eq_0_iff_not_bit[of a 7] by simp
  also have "\<dots> \<longleftrightarrow> \<not> odd (unat a div 2 ^ 7)"
    using bit_unsigned_iff[where 'a=nat, of a 7] bit_iff_odd[of "unat a" 7] by simp
  finally show ?thesis by (simp add: d)
qed

lemma or_sum3: "push_bit 16 (ucast a2) OR push_bit 8 (ucast a1) OR ucast (a0 :: uchar) = (word_of_nat (le_val [a0, a1, a2]) :: uint32)"
proof -
  have "push_bit 8 (ucast a1) OR ucast a0 = push_bit 8 (ucast a1) + (ucast a0 :: uint32)"
    by (rule disjunctive_add[symmetric]) (auto simp: bit_simps dest!: bit_imp_le_length)
  moreover have "push_bit 16 (ucast a2) OR (push_bit 8 (ucast a1) OR ucast a0) =
      push_bit 16 (ucast a2) + (push_bit 8 (ucast a1) OR (ucast a0 :: uint32))"
    by (rule disjunctive_add[symmetric]) (auto simp: bit_simps dest!: bit_imp_le_length)
  ultimately show ?thesis by (simp add: push_bit_eq_mult algebra_simps)
qed

lemma sign_extend3:
  fixes a0 a1 a2 :: uchar
  shows "(if a2 AND 128 \<noteq> 0 then push_bit 24 255 OR push_bit 16 (ucast a2) OR push_bit 8 (ucast a1) OR ucast a0
     else push_bit 16 (ucast a2) OR push_bit 8 (ucast a1) OR ucast a0) =
    (word_of_int (signed_val 3 (le_val [a0, a1, a2])) :: uint32)"
proof -
  let ?x = "word_of_nat (le_val [a0, a1, a2]) :: uint32"
  have lt: "le_val [a0, a1] < 65536" using le_val_bound[of "[a0, a1]"] by simp
  have neg: "a2 AND 128 \<noteq> 0 \<longleftrightarrow> \<not> 2 * le_val [a0, a1, a2] < 256 ^ 3"
    using lt by (auto simp: top_bit)
  have top: "bit (4278190080 :: int) n \<Longrightarrow> 24 \<le> n" for n
    using bit_push_bit_iff[of 24 "255 :: int" n] by simp
  have "push_bit 24 255 OR ?x = push_bit 24 255 + ?x"
    unfolding or_sum3[symmetric]
    by (rule disjunctive_add[symmetric]) (auto simp: bit_simps dest!: bit_imp_le_length[where 'a=8] top)
  also have "\<dots> = word_of_int (int (le_val [a0, a1, a2]) - 256 ^ 3)"
    by (simp add: push_bit_eq_mult)
  finally show ?thesis unfolding or_sum3 neg by (simp add: signed_val_def)
qed


lemma sint3korr_eq: "sint3korr A p = map_option (\<lambda>bs. word_of_int (signed_val 3 (le_val bs))) (get_bytes A p 3)"
  by (auto simp: sint3korr_def get_bytes_nths aget_def sign_extend3 upt_rec simp del: le_val.simps)

lemma mi_sint3korr_eq: "mi_sint3korr A p = map_option (\<lambda>bs. word_of_int (signed_val 3 (be_val bs))) (get_bytes A p 3)"
  by (auto simp: mi_sint3korr_def get_bytes_nths aget_def sign_extend3 upt_rec be_val_def simp del: le_val.simps)

lemma sint_of_load:
  "map_option unat (x :: 'a::len word option) = map_option dec y \<Longrightarrow> (2::nat) ^ LENGTH('a) = 256 ^ n \<Longrightarrow>
    map_option sint x = map_option (\<lambda>bs. signed_val n (dec bs)) y"
proof (cases x; cases y)
  fix w bs assume "map_option unat x = map_option dec y" "x = Some w" "y = Some bs" and p: "(2::nat) ^ LENGTH('a) = 256 ^ n"
  moreover have "(2::int) ^ LENGTH('a) = 256 ^ n" by (metis p of_nat_numeral of_nat_power)
  ultimately show "map_option sint x = map_option (\<lambda>bs. signed_val n (dec bs)) y"
    using p by (simp add: sint_unat signed_val_def)
qed auto

lemma sint_signed_val3: "length bs = 3 \<Longrightarrow> sint (word_of_int (signed_val 3 (le_val bs)) :: uint32) = signed_val 3 (le_val bs)"
  using le_val_bound[of bs] by (simp add: signed_of_int signed_take_bit_int_eq_self signed_val_def)

lemma sint2korr_eq: "sint2korr A p = uint2korr A p" "mi_sint2korr A p = mi_uint2korr A p"
  by (simp_all add: sint2korr_def uint2korr_def mi_sint2korr_def mi_uint2korr_def push_scast)

lemma sint4korr_eq: "sint4korr A p = uint4korr A p" "mi_sint4korr A p = mi_uint4korr A p"
  by (simp_all add: sint4korr_def uint4korr_def mi_sint4korr_def mi_uint4korr_def push_scast)

lemma sint3korr_bytes:
  "map_option sint (sint3korr A p) = map_option (\<lambda>bs. signed_val 3 (le_val bs)) (get_bytes A p 3)"
  "map_option sint (mi_sint3korr A p) = map_option (\<lambda>bs. signed_val 3 (be_val bs)) (get_bytes A p 3)"
  using sint_signed_val3[of "arr_slice p 3 A"] sint_signed_val3[of "rev (arr_slice p 3 A)"]
  by (simp_all add: sint3korr_eq mi_sint3korr_eq get_bytes_def be_val_def length_slice)

subsection \<open>Properties\<close>

text \<open>C39. The signed load macros of both byte orders return the two's complement value of the bytes
  they read, for widths 2, 3, 4 and 8; a load that is not inside the buffer is undefined.\<close>

theorem signed_loads:
  "map_option sint (sint2korr A p) = map_option (\<lambda>bs. signed_val 2 (le_val bs)) (get_bytes A p 2) \<and>
   map_option sint (sint3korr A p) = map_option (\<lambda>bs. signed_val 3 (le_val bs)) (get_bytes A p 3) \<and>
   map_option sint (sint4korr A p) = map_option (\<lambda>bs. signed_val 4 (le_val bs)) (get_bytes A p 4) \<and>
   map_option sint (sint8korr A p) = map_option (\<lambda>bs. signed_val 8 (le_val bs)) (get_bytes A p 8) \<and>
   map_option sint (mi_sint2korr A p) = map_option (\<lambda>bs. signed_val 2 (be_val bs)) (get_bytes A p 2) \<and>
   map_option sint (mi_sint3korr A p) = map_option (\<lambda>bs. signed_val 3 (be_val bs)) (get_bytes A p 3) \<and>
   map_option sint (mi_sint4korr A p) = map_option (\<lambda>bs. signed_val 4 (be_val bs)) (get_bytes A p 4) \<and>
   map_option sint (mi_sint8korr A p) = map_option (\<lambda>bs. signed_val 8 (be_val bs)) (get_bytes A p 8)"
  by (simp add: sint2korr_eq sint4korr_eq sint8korr_def mi_sint8korr_def sint3korr_bytes
      sint_of_load[OF le2.load_bytes] sint_of_load[OF le4.load_bytes] sint_of_load[OF le8.load_bytes]
      sint_of_load[OF be2.load_bytes] sint_of_load[OF be4.load_bytes] sint_of_load[OF be8.load_bytes])

text \<open>C37. A position of 2 to 8 bytes that fits its length is read back as it was stored: the store
  changes the bytes of the pointer and no others, and neither macro leaves the buffer.\<close>

theorem my_ptr_roundtrip:
  assumes "2 \<le> n" "n \<le> 8" "p + n \<le> length buff" "unat pos < 256 ^ n"
  shows "\<exists>b. my_store_ptr buff p n pos = Some b \<and> my_get_ptr b p n = Some pos \<and> length b = length buff \<and>
    (\<forall>q m. q + m \<le> p \<or> p + n \<le> q \<longrightarrow> get_bytes b q m = get_bytes buff q m)"
proof -
  consider "n = 2" | "n = 3" | "n = 4" | "n = 5" | "n = 6" | "n = 7" | "n = 8" using assms(1,2) by linarith
  then show ?thesis
  proof cases
    case 1 then show ?thesis using be2.roundtrip[of p buff pos] assms by (simp add: my_store_ptr_def my_get_ptr_def)
  next
    case 2 then show ?thesis using be3.roundtrip[of p buff pos] assms by (simp add: my_store_ptr_def my_get_ptr_def)
  next
    case 3 then show ?thesis using be4.roundtrip[of p buff pos] assms by (simp add: my_store_ptr_def my_get_ptr_def)
  next
    case 4 then show ?thesis using be5.roundtrip[of p buff pos] assms by (simp add: my_store_ptr_def my_get_ptr_def)
  next
    case 5 then show ?thesis using be6.roundtrip[of p buff pos] assms by (simp add: my_store_ptr_def my_get_ptr_def)
  next
    case 6 then show ?thesis using be7.roundtrip[of p buff pos] assms by (simp add: my_store_ptr_def my_get_ptr_def)
  next
    case 7 then show ?thesis using be8.roundtrip[of p buff pos] assms by (simp add: my_store_ptr_def my_get_ptr_def)
  qed
qed

theorem my_ptr_roundtrip_witness:
  "\<exists>b. my_store_ptr [7, 0, 0, 0, 9] 1 3 66051 = Some b \<and> my_get_ptr b 1 3 = Some 66051 \<and> length b = length [7::uchar, 0, 0, 0, 9] \<and>
    (\<forall>q m. q + m \<le> 1 \<or> 4 \<le> q \<longrightarrow> get_bytes b q m = get_bytes [7, 0, 0, 0, 9] q m)"
  using my_ptr_roundtrip[of 3 1 "[7, 0, 0, 0, 9]" 66051] by simp

text \<open>C38. A one-byte position is not read back: \<open>my_get_ptr\<close> reads two bytes for it, so it returns the
  position times 256 plus the byte that follows, and reads past a buffer that ends there.\<close>

theorem my_ptr_one_byte:
  assumes "p < length buff" "unat pos < 256"
  shows "my_store_ptr buff p 1 pos = Some (buff[p := ucast pos]) \<and>
    my_get_ptr (buff[p := ucast pos]) p 1 =
      (if p + 1 < length buff then Some (256 * pos + ucast (buff ! (p + 1))) else None)"
proof -
  have "unat (ucast pos :: uchar) = unat pos"
    using assms(2) by (simp add: unsigned_ucast_eq take_bit_eq_mod)
  then have "(word_of_nat (be_val [ucast pos, b]) :: ulonglong) = 256 * pos + ucast b" for b
    by (simp add: be_val_def)
  then have "map_option ucast (mi_uint2korr (buff[p := ucast pos]) p) =
      (if p + 1 < length buff then Some (256 * pos + ucast (buff ! (p + 1))) else None)"
    using be2.load_bytes[of "buff[p := ucast pos]" p] assms(1)
    by (auto simp: get_bytes_nths upt_rec split: if_splits) (metis of_nat_unat)
  then show ?thesis using assms(1) by (simp add: my_store_ptr_def my_get_ptr_def)
qed

theorem my_ptr_one_byte_witness:
  "my_store_ptr [0] 0 1 5 = Some [5] \<and> my_get_ptr [5] 0 1 = None"
  using my_ptr_one_byte[of 0 "[0]" 5] by simp

end
