(* ===== verification/Net_Pack.thy ===== *)
theory Net_Pack
  imports Byte_Order
begin

unbundle bit_operations_syntax

text \<open>
  The packed lengths of the client/server protocol: \<open>net_store_length\<close>, \<open>net_field_length\<close> and
  \<open>net_field_length_ll\<close> of \<open>sql-common/pack.c\<close>. A packet position is a buffer and an offset; the
  readers return the value with the position after it, the writer the changed buffer with the
  position after the number. \<open>ulong\<close> has 64 bits.
\<close>

definition NULL_LENGTH :: ulonglong where "NULL_LENGTH = NOT 0"

definition net_field_length :: "uchar list \<Rightarrow> nat \<Rightarrow> (ulonglong \<times> nat) option" where
  "net_field_length packet pos = do {
     c \<leftarrow> aget packet pos;
     if c < 251 then Some (ucast c, pos + 1)
     else if c = 251 then Some (NULL_LENGTH, pos + 1)
     else if c = 252 then do { v \<leftarrow> uint2korr packet (pos + 1); Some (ucast v, pos + 3) }
     else if c = 253 then do { v \<leftarrow> uint3korr packet (pos + 1); Some (ucast v, pos + 4) }
     else do { v \<leftarrow> uint4korr packet (pos + 1); Some (ucast v, pos + 9) }
   }"

definition net_field_length_ll :: "uchar list \<Rightarrow> nat \<Rightarrow> (ulonglong \<times> nat) option" where
  "net_field_length_ll packet pos = do {
     c \<leftarrow> aget packet pos;
     if c < 251 then Some (ucast c, pos + 1)
     else if c = 251 then Some (NULL_LENGTH, pos + 1)
     else if c = 252 then do { v \<leftarrow> uint2korr packet (pos + 1); Some (ucast v, pos + 3) }
     else if c = 253 then do { v \<leftarrow> uint3korr packet (pos + 1); Some (ucast v, pos + 4) }
     else do { v \<leftarrow> uint8korr packet (pos + 1); Some (v, pos + 9) }
   }"

definition net_store_length :: "uchar list \<Rightarrow> nat \<Rightarrow> ulonglong \<Rightarrow> (uchar list \<times> nat) option" where
  "net_store_length pkg pos len =
     (if len < 251 then do { pkg \<leftarrow> aset pkg pos (ucast len); Some (pkg, pos + 1) }
      else if len < 65536 then do {
        pkg \<leftarrow> aset pkg pos 252; pkg \<leftarrow> int2store pkg (pos + 1) len; Some (pkg, pos + 3) }
      else if len < 16777216 then do {
        pkg \<leftarrow> aset pkg pos 253; pkg \<leftarrow> int3store pkg (pos + 1) len; Some (pkg, pos + 4) }
      else do { pkg \<leftarrow> aset pkg pos 254; pkg \<leftarrow> int8store pkg (pos + 1) len; Some (pkg, pos + 9) })"

subsection \<open>The bytes of a packed length\<close>

definition length_bytes :: "ulonglong \<Rightarrow> uchar list" where
  "length_bytes len =
     (if len < 251 then [ucast len]
      else if len < 65536 then 252 # le_bytes 2 (unat len)
      else if len < 16777216 then 253 # le_bytes 3 (unat len)
      else 254 # le_bytes 8 (unat len))"

lemma length_length_bytes: "length (length_bytes len) \<in> {1, 3, 4, 9}"
  by (simp add: length_bytes_def)

lemma net_store_length_put:
  "net_store_length pkg p len = map_option (\<lambda>b. (b, p + length (length_bytes len))) (put_bytes pkg p (length_bytes len))"
proof -
  have two: "do { pkg \<leftarrow> aset pkg p b; pkg \<leftarrow> put_bytes pkg (p + 1) bs; Some (pkg, q) } =
      map_option (\<lambda>x. (x, q)) (put_bytes pkg p (b # bs))" for b bs q
    by (auto simp: aset_def put_bytes_Cons put_bytes_def take_Suc_conv_app_nth)
  show ?thesis
    by (simp add: net_store_length_def length_bytes_def int2store_bytes int3store_bytes int8store_bytes two
        del: One_nat_def) (simp add: aset_def put_bytes_def upd_conv_take_nth_drop)
qed

lemma load_get:
  assumes "map_option unat (x :: 'w::len word option) = map_option dec (get_bytes b q n)" "get_bytes b q n = Some bs"
    "dec bs = unat (v :: ulonglong)"
  shows "map_option ucast x = Some v"
  using assms ucast_same_unat by auto

lemma get_bytes_Cons:
  "0 < m \<Longrightarrow> get_bytes b p m = Some (c # bs) \<longleftrightarrow> aget b p = Some c \<and> get_bytes b (Suc p) (m - 1) = Some bs"
  by (cases m) (auto simp: get_bytes_def aget_def arr_slice_Suc)

lemma get_bytes_prefix: "get_bytes b p n = Some bs \<Longrightarrow> m \<le> n \<Longrightarrow> get_bytes b p m = Some (take m bs)"
  by (auto simp: get_bytes_def arr_slice_def min_def split: if_splits)

lemma take_le_bytes: "m \<le> n \<Longrightarrow> take m (le_bytes n v) = le_bytes m v"
  by (simp add: le_bytes_upt take_map)

text \<open>What the loads return where a number was stored with low byte first.\<close>

lemma loads_le_bytes:
  "get_bytes b q 2 = Some (le_bytes 2 (unat len)) \<Longrightarrow> len < 65536 \<Longrightarrow> map_option ucast (uint2korr b q) = Some len"
  "get_bytes b q 3 = Some (le_bytes 3 (unat len)) \<Longrightarrow> len < 16777216 \<Longrightarrow> map_option ucast (uint3korr b q) = Some len"
  "get_bytes b q 8 = Some (le_bytes 8 (unat len)) \<Longrightarrow> uint8korr b q = Some len"
  "get_bytes b q 4 = Some (le_bytes 4 (unat len)) \<Longrightarrow> map_option ucast (uint4korr b q) = Some (take_bit 32 len)"
proof -
  show "len < 65536 \<Longrightarrow> map_option ucast (uint2korr b q) = Some len" if "get_bytes b q 2 = Some (le_bytes 2 (unat len))"
    by (rule load_get[OF le2.load_bytes that]) (simp add: le_val_bytes word_less_nat_alt)
  show "len < 16777216 \<Longrightarrow> map_option ucast (uint3korr b q) = Some len" if "get_bytes b q 3 = Some (le_bytes 3 (unat len))"
    by (rule load_get[OF le3.load_bytes that]) (simp add: le_val_bytes word_less_nat_alt)
  show "uint8korr b q = Some len" if "get_bytes b q 8 = Some (le_bytes 8 (unat len))"
  proof -
    have "unat len < 18446744073709551616" using unsigned_less[of len] by simp
    then show ?thesis using load_get[OF le8.load_bytes that, of len] by (simp add: le_val_bytes)
  qed
  show "map_option ucast (uint4korr b q) = Some (take_bit 32 len)" if "get_bytes b q 4 = Some (le_bytes 4 (unat len))"
    by (rule load_get[OF le4.load_bytes that]) (simp add: le_val_bytes unsigned_take_bit_eq take_bit_eq_mod[of 32 "unat len"])
qed

lemma ucast_small: "(len :: ulonglong) < 251 \<Longrightarrow> (ucast len :: uchar) < 251 \<and> ucast (ucast len :: uchar) = len"
  using ucast_same_unat[of "ucast len :: uchar" len]
  by (simp add: word_less_nat_alt unsigned_ucast_eq take_bit_eq_mod)

lemma take_bit_small: "len < 251 \<or> len < 65536 \<or> len < 16777216 \<Longrightarrow> take_bit 32 (len :: ulonglong) = len"
  by (auto simp: word_less_nat_alt word_unat_eq_iff unsigned_take_bit_eq take_bit_nat_eq_self_iff)

text \<open>A packed length in a buffer, by the four sizes.\<close>

lemma length_bytes_cases:
  assumes "get_bytes b p (length (length_bytes len)) = Some (length_bytes len)"
  obtains (one) "len < 251" "aget b p = Some (ucast len)" "length (length_bytes len) = 1"
    | (three) "len < 65536" "aget b p = Some 252" "get_bytes b (Suc p) 2 = Some (le_bytes 2 (unat len))" "length (length_bytes len) = 3"
    | (four) "len < 16777216" "aget b p = Some 253" "get_bytes b (Suc p) 3 = Some (le_bytes 3 (unat len))" "length (length_bytes len) = 4"
    | (nine) "aget b p = Some 254" "get_bytes b (Suc p) 8 = Some (le_bytes 8 (unat len))" "length (length_bytes len) = 9"
proof -
  consider "len < 251" | "\<not> len < 251" "len < 65536" | "\<not> len < 251" "\<not> len < 65536" "len < 16777216"
    | "\<not> len < 251" "\<not> len < 65536" "\<not> len < 16777216" by blast
  then show thesis
  proof cases
    case 1 with assms one show ?thesis by (simp add: length_bytes_def get_bytes_Cons)
  next
    case 2 with assms three show ?thesis by (simp add: length_bytes_def get_bytes_Cons)
  next
    case 3 with assms four show ?thesis by (simp add: length_bytes_def get_bytes_Cons)
  next
    case 4 with assms nine show ?thesis by (simp add: length_bytes_def get_bytes_Cons)
  qed
qed

lemma net_field_length_ll_bytes:
  assumes "get_bytes b p (length (length_bytes len)) = Some (length_bytes len)"
  shows "net_field_length_ll b p = Some (len, p + length (length_bytes len))"
  using assms
proof (cases rule: length_bytes_cases)
  case one then show ?thesis using ucast_small[of len] by (simp add: net_field_length_ll_def)
next
  case three then show ?thesis using loads_le_bytes(1)[of b "Suc p" len] by (auto simp: net_field_length_ll_def)
next
  case four then show ?thesis using loads_le_bytes(2)[of b "Suc p" len] by (auto simp: net_field_length_ll_def)
next
  case nine then show ?thesis using loads_le_bytes(3)[of b "Suc p" len] by (auto simp: net_field_length_ll_def)
qed

lemma net_field_length_bytes:
  assumes "get_bytes b p (length (length_bytes len)) = Some (length_bytes len)"
  shows "net_field_length b p = Some (take_bit 32 len, p + length (length_bytes len))"
  using assms
proof (cases rule: length_bytes_cases)
  case one then show ?thesis using ucast_small[of len] take_bit_small[of len] by (simp add: net_field_length_def)
next
  case three then show ?thesis using loads_le_bytes(1)[of b "Suc p" len] take_bit_small[of len] by (auto simp: net_field_length_def)
next
  case four then show ?thesis using loads_le_bytes(2)[of b "Suc p" len] take_bit_small[of len] by (auto simp: net_field_length_def)
next
  case nine
  then have "get_bytes b (Suc p) 4 = Some (le_bytes 4 (unat len))"
    using get_bytes_prefix[of b "Suc p" 8 _ 4] by (simp add: take_le_bytes)
  then show ?thesis using nine loads_le_bytes(4)[of b "Suc p" len] by (auto simp: net_field_length_def)
qed

text \<open>C31. A length written by \<open>net_store_length\<close> takes 1, 3, 4 or 9 bytes and is read back by
  \<open>net_field_length_ll\<close> with the position after it; \<open>net_field_length\<close> reads back its low 32 bits
  and stops at the same position. Bytes outside the packed length are not changed.\<close>

theorem net_length_roundtrip:
  assumes "p + 9 \<le> length pkg"
  shows "\<exists>b q. net_store_length pkg p len = Some (b, q) \<and> net_field_length_ll b p = Some (len, q) \<and>
    net_field_length b p = Some (take_bit 32 len, q) \<and> q - p \<in> {1, 3, 4, 9} \<and> length b = length pkg \<and>
    (\<forall>r n. r + n \<le> p \<or> q \<le> r \<longrightarrow> get_bytes b r n = get_bytes pkg r n)"
proof -
  have "p + length (length_bytes len) \<le> length pkg" using assms length_length_bytes[of len] by auto
  then obtain b where b: "put_bytes pkg p (length_bytes len) = Some b" by (simp add: put_bytes_def)
  note g = get_put[OF b]
  show ?thesis
    using net_store_length_put[of pkg p len] b net_field_length_ll_bytes[OF g] net_field_length_bytes[OF g]
      length_length_bytes[of len] length_put[OF b] get_put_other[OF b] by simp
qed

theorem net_length_roundtrip_witness:
  "\<exists>b q. net_store_length (replicate 12 0) 1 5000000000 = Some (b, q) \<and> net_field_length_ll b 1 = Some (5000000000, q) \<and>
    net_field_length b 1 = Some (take_bit 32 5000000000, q) \<and> q - 1 \<in> {1, 3, 4, 9} \<and> length b = length (replicate 12 (0::uchar)) \<and>
    (\<forall>r n. r + n \<le> 1 \<or> q \<le> r \<longrightarrow> get_bytes b r n = get_bytes (replicate 12 0) r n)"
  by (rule net_length_roundtrip) simp

end
