(* ===== verification/Sql_String.thy ===== *)
theory Sql_String
  imports Byte_Order
begin

unbundle bit_operations_syntax

text \<open>
  The class \<open>String\<close> of \<open>sql/sql_string.h\<close> and \<open>sql/sql_string.cc\<close>: the growing byte buffer of the
  server, without the operations that convert between character sets or format numbers.

  \<open>Ptr\<close> is the memory that the string points to. Only its first \<open>Alloced_length\<close> bytes may be
  written (a constant string has \<open>Alloced_length\<close> zero), and a write past them is \<open>None\<close>, as is a
  read past \<open>Ptr\<close>. The allocator is the parameter \<open>malloc\<close>, which returns a block with arbitrary
  contents or fails. Every operation returns the string with the error flag of the source.
\<close>

record sql_string =
  Ptr :: "uchar list"
  str_length :: uint32
  Alloced_length :: uint32
  alloced :: bool

type_synonym allocator = "nat \<Rightarrow> uchar list option"

definition ALIGN_SIZE :: "uint32 \<Rightarrow> uint32" where
  "ALIGN_SIZE a = ucast (MY_ALIGN (ucast a) 8)"

subsection \<open>Memory access\<close>

definition poke :: "sql_string \<Rightarrow> nat \<Rightarrow> uchar \<Rightarrow> sql_string option" where
  "poke s i c = (if i < unat (Alloced_length s) then do { p \<leftarrow> aset (Ptr s) i c; Some (s\<lparr>Ptr := p\<rparr>) } else None)"

definition memcpy_to :: "sql_string \<Rightarrow> nat \<Rightarrow> uchar list \<Rightarrow> sql_string option" where
  "memcpy_to s i bs =
     (if i + length bs \<le> unat (Alloced_length s) then do { p \<leftarrow> put_bytes (Ptr s) i bs; Some (s\<lparr>Ptr := p\<rparr>) } else None)"

text \<open>\<open>bmove\<close> and \<open>bmove_upp\<close> inside the buffer: the bytes are read before they are written.\<close>

definition bmove_in :: "sql_string \<Rightarrow> nat \<Rightarrow> nat \<Rightarrow> nat \<Rightarrow> sql_string option" where
  "bmove_in s dst src n = do { bs \<leftarrow> get_bytes (Ptr s) src n; memcpy_to s dst bs }"

definition my_realloc :: "allocator \<Rightarrow> uchar list \<Rightarrow> nat \<Rightarrow> uchar list option" where
  "my_realloc malloc p n = map_option (\<lambda>new. take n p @ drop (length p) new) (malloc n)"

subsection \<open>Allocation\<close>

definition string_free :: "sql_string \<Rightarrow> sql_string" where
  "string_free s = (if alloced s then s\<lparr>alloced := False, Alloced_length := 0, Ptr := [], str_length := 0\<rparr> else s)"

definition real_alloc :: "allocator \<Rightarrow> sql_string \<Rightarrow> uint32 \<Rightarrow> (sql_string \<times> bool) option" where
  "real_alloc malloc s arg_length =
     (let arg_length = ALIGN_SIZE (arg_length + 1); s = s\<lparr>str_length := 0\<rparr> in
      if Alloced_length s < arg_length then
        (let s = string_free s in
         case malloc (unat arg_length) of
           None \<Rightarrow> Some (s\<lparr>Ptr := []\<rparr>, True)
         | Some new \<Rightarrow> do {
             s \<leftarrow> poke (s\<lparr>Ptr := new, Alloced_length := arg_length, alloced := True\<rparr>) 0 0;
             Some (s, False) })
      else do { s \<leftarrow> poke s 0 0; Some (s, False) })"

definition string_alloc :: "allocator \<Rightarrow> sql_string \<Rightarrow> uint32 \<Rightarrow> (sql_string \<times> bool) option" where
  "string_alloc malloc s arg_length =
     (if arg_length < Alloced_length s then Some (s, False) else real_alloc malloc s arg_length)"

definition string_realloc :: "allocator \<Rightarrow> sql_string \<Rightarrow> uint32 \<Rightarrow> (sql_string \<times> bool) option" where
  "string_realloc malloc s alloc_length =
     (let len = ALIGN_SIZE (alloc_length + 1) in
      if Alloced_length s < len then
        if alloced s then
          (case my_realloc malloc (Ptr s) (unat len) of
             None \<Rightarrow> Some (s, True)
           | Some new_ptr \<Rightarrow> do {
               s \<leftarrow> poke (s\<lparr>Ptr := new_ptr, Alloced_length := len\<rparr>) (unat alloc_length) 0;
               Some (s, False) })
        else
          (case malloc (unat len) of
             None \<Rightarrow> Some (s, True)
           | Some new_ptr \<Rightarrow> do {
               old \<leftarrow> get_bytes (Ptr s) 0 (unat (str_length s));
               new_ptr \<leftarrow> put_bytes new_ptr 0 old;
               new_ptr \<leftarrow> aset new_ptr (unat (str_length s)) 0;
               s \<leftarrow> poke (s\<lparr>Ptr := new_ptr, Alloced_length := len, alloced := True\<rparr>) (unat alloc_length) 0;
               Some (s, False) })
      else do { s \<leftarrow> poke s (unat alloc_length) 0; Some (s, False) })"

definition string_copy :: "allocator \<Rightarrow> sql_string \<Rightarrow> (sql_string \<times> bool) option" where
  "string_copy malloc s =
     (if \<not> alloced s then string_realloc malloc (s\<lparr>Alloced_length := 0\<rparr>) (str_length s) else Some (s, False))"

definition string_copy_from :: "allocator \<Rightarrow> sql_string \<Rightarrow> sql_string \<Rightarrow> (sql_string \<times> bool) option" where
  "string_copy_from malloc s str = do {
     (s, err) \<leftarrow> string_alloc malloc s (str_length str);
     if err then Some (s, True)
     else do {
       bs \<leftarrow> get_bytes (Ptr str) 0 (unat (str_length str));
       s \<leftarrow> memcpy_to (s\<lparr>str_length := str_length str\<rparr>) 0 bs;
       s \<leftarrow> poke s (unat (str_length str)) 0;
       Some (s, False) } }"

definition reserve :: "allocator \<Rightarrow> sql_string \<Rightarrow> uint32 \<Rightarrow> (sql_string \<times> bool) option" where
  "reserve malloc s space_needed = string_realloc malloc s (str_length s + space_needed)"

definition reserve_grow :: "allocator \<Rightarrow> sql_string \<Rightarrow> uint32 \<Rightarrow> uint32 \<Rightarrow> (sql_string \<times> bool) option" where
  "reserve_grow malloc s space_needed grow_by =
     (if Alloced_length s < str_length s + space_needed
      then string_realloc malloc s (Alloced_length s + max space_needed grow_by - 1)
      else Some (s, False))"

subsection \<open>Appending and replacing\<close>

definition append_char :: "allocator \<Rightarrow> sql_string \<Rightarrow> uchar \<Rightarrow> (sql_string \<times> bool) option" where
  "append_char malloc s chr =
     (if str_length s < Alloced_length s
      then do { s' \<leftarrow> poke s (unat (str_length s)) chr; Some (s'\<lparr>str_length := str_length s + 1\<rparr>, False) }
      else do {
        (s1, err) \<leftarrow> string_realloc malloc s (str_length s + 1);
        if err then Some (s1, True)
        else do { s' \<leftarrow> poke s1 (unat (str_length s1)) chr; Some (s'\<lparr>str_length := str_length s1 + 1\<rparr>, False) } })"

text \<open>The appended bytes of another string are given by its contents, as are the arguments \<open>s\<close> and
  \<open>arg_length\<close> of the variants that take a pointer.\<close>

definition append_String :: "allocator \<Rightarrow> sql_string \<Rightarrow> uchar list \<Rightarrow> (sql_string \<times> bool) option" where
  "append_String malloc s bs =
     (let n = word_of_nat (length bs) in
      if n \<noteq> 0 then do {
        (s1, err) \<leftarrow> string_realloc malloc s (str_length s + n);
        if err then Some (s1, True)
        else do { s' \<leftarrow> memcpy_to s1 (unat (str_length s1)) bs; Some (s'\<lparr>str_length := str_length s1 + n\<rparr>, False) } }
      else Some (s, False))"

definition append_step :: "allocator \<Rightarrow> uint32 \<Rightarrow> sql_string \<Rightarrow> uchar list \<Rightarrow> (sql_string \<times> bool) option" where
  "append_step malloc step_alloc s bs =
     (let arg_length = word_of_nat (length bs); new_length = arg_length + str_length s in do {
        (s1, err) \<leftarrow> (if new_length > Alloced_length s then string_realloc malloc s (new_length + step_alloc) else Some (s, False));
        if err then Some (s1, True)
        else do { s' \<leftarrow> memcpy_to s1 (unat (str_length s1)) bs; Some (s'\<lparr>str_length := str_length s1 + arg_length\<rparr>, False) } })"

text \<open>\<open>prep_append\<close> returns the offset of the area to use, \<open>None\<close> for a null pointer.\<close>

definition prep_append :: "allocator \<Rightarrow> sql_string \<Rightarrow> uint32 \<Rightarrow> uint32 \<Rightarrow> (sql_string \<times> nat option) option" where
  "prep_append malloc s arg_length step_alloc =
     (let new_length = arg_length + str_length s in do {
        (s1, err) \<leftarrow> (if new_length > Alloced_length s then string_realloc malloc s (new_length + step_alloc) else Some (s, False));
        if err then Some (s1, None)
        else Some (s1\<lparr>str_length := str_length s1 + arg_length\<rparr>, Some (unat (str_length s1))) })"

definition q_append_char :: "sql_string \<Rightarrow> uchar \<Rightarrow> sql_string option" where
  "q_append_char s c = do { s' \<leftarrow> poke s (unat (str_length s)) c; Some (s'\<lparr>str_length := str_length s + 1\<rparr>) }"

definition q_append_int :: "sql_string \<Rightarrow> uint32 \<Rightarrow> sql_string option" where
  "q_append_int s n =
     (if unat (str_length s) + 4 \<le> unat (Alloced_length s)
      then do { p \<leftarrow> int4store (Ptr s) (unat (str_length s)) (ucast n); Some (s\<lparr>Ptr := p, str_length := str_length s + 4\<rparr>) }
      else None)"

definition q_append_bytes :: "sql_string \<Rightarrow> uchar list \<Rightarrow> sql_string option" where
  "q_append_bytes s data = do {
     s' \<leftarrow> memcpy_to s (unat (str_length s)) data;
     Some (s'\<lparr>str_length := str_length s + word_of_nat (length data)\<rparr>) }"

definition string_fill :: "allocator \<Rightarrow> sql_string \<Rightarrow> uint32 \<Rightarrow> uchar \<Rightarrow> (sql_string \<times> bool) option" where
  "string_fill malloc s max_length fill_char =
     (if str_length s > max_length
      then do { s' \<leftarrow> poke s (unat max_length) 0; Some (s'\<lparr>str_length := max_length\<rparr>, False) }
      else do {
        (s1, err) \<leftarrow> string_realloc malloc s max_length;
        if err then Some (s1, True)
        else do {
          s' \<leftarrow> memcpy_to s1 (unat (str_length s1)) (replicate (unat (max_length - str_length s1)) fill_char);
          Some (s'\<lparr>str_length := max_length\<rparr>, False) } })"

definition chop :: "sql_string \<Rightarrow> sql_string option" where
  "chop s = do { s' \<leftarrow> poke s (unat (str_length s)) 0; Some (s'\<lparr>str_length := str_length s - 1\<rparr>) }"

definition string_replace :: "allocator \<Rightarrow> sql_string \<Rightarrow> uint32 \<Rightarrow> uint32 \<Rightarrow> uchar list \<Rightarrow> (sql_string \<times> bool) option" where
  "string_replace malloc s offset arg_length to =
     (let to_length = (word_of_nat (length to) :: uint32);
          diff = uint to_length - uint arg_length;
          tail = unat (str_length s - offset - arg_length) in
      if offset + arg_length \<le> str_length s then
        if diff < 0 then do {
          s1 \<leftarrow> memcpy_to s (unat offset) to;
          s2 \<leftarrow> bmove_in s1 (unat offset + unat to_length) (unat offset + unat arg_length) tail;
          Some (s2\<lparr>str_length := str_length s + word_of_int diff\<rparr>, False) }
        else do {
          (s1, err) \<leftarrow>
            (if diff \<noteq> 0 then do {
               (s0, err) \<leftarrow> string_realloc malloc s (str_length s + word_of_int diff);
               if err then Some (s0, True)
               else do {
                 s0 \<leftarrow> bmove_in s0 (nat (int (unat (str_length s)) + diff) - tail) (unat (str_length s) - tail) tail;
                 Some (s0, False) } }
             else Some (s, False));
          if err then Some (s1, True)
          else do {
            s2 \<leftarrow> memcpy_to s1 (unat offset) to;
            Some (s2\<lparr>str_length := str_length s2 + word_of_int diff\<rparr>, False) } }
      else Some (s, False))"

subsection \<open>Searching\<close>

definition c_int :: "int \<Rightarrow> int" where
  "c_int i = sint (word_of_int i :: uint32)"

text \<open>The inner loop: the rest of the search string from position \<open>i\<close> on.\<close>

fun match_from :: "uchar list \<Rightarrow> nat \<Rightarrow> uchar list \<Rightarrow> bool option" where
  "match_from buf i [] = Some True"
| "match_from buf i (y # ys) = do { x \<leftarrow> aget buf i; if x \<noteq> y then Some False else match_from buf (i + 1) ys }"

lemma bind_aget_cong [fundef_cong]:
  "a = a' \<Longrightarrow> i = i' \<Longrightarrow> (\<And>x. i' < length a' \<Longrightarrow> f x = f' x) \<Longrightarrow> Option.bind (aget a i) f = Option.bind (aget a' i') f'"
  by (auto simp: aget_def)

function strstr_loop :: "uchar list \<Rightarrow> uchar list \<Rightarrow> nat \<Rightarrow> nat \<Rightarrow> int option" where
  "strstr_loop buf search str e =
     (if str = e then Some (- 1)
      else Option.bind (aget buf str) (\<lambda>x.
        case search of
          [] \<Rightarrow> None
        | c # cs \<Rightarrow>
            if x = c then
              (case match_from buf (str + 1) cs of
                 None \<Rightarrow> None
               | Some True \<Rightarrow> Some (c_int (int (str + 1)) - 1)
               | Some False \<Rightarrow> strstr_loop buf search (str + 1) e)
            else strstr_loop buf search (str + 1) e))"
  by pat_completeness auto
termination
  by (relation "measure (\<lambda>(buf, search, str, e). length buf - str)") auto

definition strstr :: "sql_string \<Rightarrow> uchar list \<Rightarrow> uint32 \<Rightarrow> int option" where
  "strstr s search offset =
     (let n = (word_of_nat (length search) :: uint32) in
      if n + offset \<le> str_length s then
        if n = 0 then Some (c_int (uint offset))
        else strstr_loop (Ptr s) search (unat offset) (unat (str_length s) - unat n + 1)
      else Some (- 1))"

text \<open>The backward search; positions may step to one before the buffer, which is not read.\<close>

definition aget_int :: "uchar list \<Rightarrow> int \<Rightarrow> uchar option" where
  "aget_int buf i = (if 0 \<le> i then aget buf (nat i) else None)"

fun match_back :: "uchar list \<Rightarrow> int \<Rightarrow> uchar list \<Rightarrow> int option option" where
  "match_back buf i [] = Some (Some i)"
| "match_back buf i (y # ys) = do { x \<leftarrow> aget_int buf i; if x \<noteq> y then Some None else match_back buf (i - 1) ys }"

lemma bind_aget_int_cong [fundef_cong]:
  "a = a' \<Longrightarrow> i = i' \<Longrightarrow> (\<And>x. 0 \<le> i' \<Longrightarrow> f x = f' x) \<Longrightarrow> Option.bind (aget_int a i) f = Option.bind (aget_int a' i') f'"
  by (cases "aget a' (nat i')") (auto simp: aget_int_def)

function strrstr_loop :: "uchar list \<Rightarrow> uchar list \<Rightarrow> int \<Rightarrow> int \<Rightarrow> int option" where
  "strrstr_loop buf rsearch str e =
     (if str = e then Some (- 1)
      else Option.bind (aget_int buf str) (\<lambda>x.
        case rsearch of
          [] \<Rightarrow> None
        | c # cs \<Rightarrow>
            if x = c then
              (case match_back buf (str - 1) cs of
                 None \<Rightarrow> None
               | Some (Some i) \<Rightarrow> Some (c_int i + 1)
               | Some None \<Rightarrow> strrstr_loop buf rsearch (str - 1) e)
            else strrstr_loop buf rsearch (str - 1) e))"
  by pat_completeness auto
termination
  by (relation "measure (\<lambda>(buf, search, str, e). nat (str + 1))") auto

definition strrstr :: "sql_string \<Rightarrow> uchar list \<Rightarrow> uint32 \<Rightarrow> int option" where
  "strrstr s search offset =
     (let n = (word_of_nat (length search) :: uint32) in
      if n \<le> offset \<and> offset \<le> str_length s then
        if n = 0 then Some (c_int (uint offset))
        else strrstr_loop (Ptr s) (rev search) (int (unat offset) - 1) (int (unat n) - 2)
      else Some (- 1))"

declare strstr_loop.simps [simp del] strrstr_loop.simps [simp del]

end
