(* ===== verification/Sql_String_Props.thy ===== *)
theory Sql_String_Props
  imports Sql_String
begin

unbundle bit_operations_syntax

text \<open>
  What the operations of \<open>String\<close> do to the contents, the bytes that the string stands for. The
  locale \<open>appender\<close> is the contract of an operation that adds bytes at the end, with what a caller
  may conclude for a series of them; it is interpreted on the append operations.
\<close>

definition contents :: "sql_string \<Rightarrow> uchar list" where
  "contents s = take (unat (str_length s)) (Ptr s)"

definition string_wf :: "sql_string \<Rightarrow> bool" where
  "string_wf s \<longleftrightarrow> unat (Alloced_length s) \<le> length (Ptr s) \<and> unat (str_length s) \<le> length (Ptr s) \<and>
     (alloced s \<longrightarrow> length (Ptr s) = unat (Alloced_length s))"

definition malloc_ok :: "allocator \<Rightarrow> bool" where
  "malloc_ok m \<longleftrightarrow> (\<forall>n b. m n = Some b \<longrightarrow> length b = n)"

lemma length_contents: "string_wf s \<Longrightarrow> length (contents s) = unat (str_length s)"
  by (simp add: contents_def string_wf_def)

subsection \<open>Allocation sizes\<close>

lemma unat_MY_ALIGN_8:
  assumes le: "unat a + 7 < 2 ^ 64"
  shows "unat (MY_ALIGN a 8) = (unat a + 7) div 8 * 8"
proof -
  have "x AND NOT (mask 3) = push_bit 3 (drop_bit 3 x)" for x :: ulonglong
    by (intro bit_word_eqI) (auto simp: bit_simps)
  moreover have "push_bit 3 (drop_bit 3 x) = x - take_bit 3 x" for x :: ulonglong
    using bits_ident[of 3 x] by (simp add: algebra_simps)
  moreover have "MY_ALIGN a 8 = (a + 7) AND NOT (mask 3)"
    by (simp add: MY_ALIGN_def mask_eq_exp_minus_1 add.commute)
  ultimately have "MY_ALIGN a 8 = (a + 7) - take_bit 3 (a + 7)" by simp
  moreover have u: "unat (a + 7) = unat a + 7" using le by (simp add: unat_word_ariths)
  moreover have t: "unat (take_bit 3 (a + 7)) = (unat a + 7) mod 8"
    by (simp only: unsigned_take_bit_eq u take_bit_eq_mod[of 3 "unat a + 7"]) simp
  moreover have "take_bit 3 (a + 7) \<le> a + 7" by (simp add: word_le_nat_alt t u)
  ultimately have "unat (MY_ALIGN a 8) = (unat a + 7) - (unat a + 7) mod 8" by (simp add: unat_sub)
  then show ?thesis by (simp add: minus_mod_eq_div_mult)
qed

lemma unat_ALIGN_SIZE: "unat (ALIGN_SIZE (n + 1)) = ((unat n + 1) mod 2 ^ 32 + 7) div 8 * 8 mod 2 ^ 32"
proof -
  let ?x = "(unat n + 1) mod 2 ^ 32"
  have "unat (ucast (n + 1) :: ulonglong) = ?x"
    by (simp add: unsigned_ucast_eq take_bit_nat_eq_self unat_word_ariths)
  moreover have "?x < 2 ^ 32" by simp
  ultimately have "unat (MY_ALIGN (ucast (n + 1)) 8) = (?x + 7) div 8 * 8" by (subst unat_MY_ALIGN_8) simp_all
  then show ?thesis
    by (simp add: ALIGN_SIZE_def unsigned_ucast_eq take_bit_eq_mod)
qed

lemma ALIGN_SIZE_room:
  assumes "unat n + 9 \<le> 2 ^ 32"
  shows "unat n < unat (ALIGN_SIZE (n + 1)) \<and> unat (ALIGN_SIZE (n + 1)) \<le> unat n + 8"
proof -
  have "unat n < (unat n + 8) div 8 * 8" by presburger
  moreover have "(unat n + 8) div 8 * 8 \<le> unat n + 8" by simp
  moreover have "((unat n + 1) mod 2 ^ 32 + 7) div 8 * 8 mod 2 ^ 32 = (unat n + 8) div 8 * 8"
    using assms calculation(2) by simp
  ultimately show ?thesis unfolding unat_ALIGN_SIZE by (simp only:)
qed

lemma ALIGN_SIZE_wraps:
  assumes "2 ^ 32 - 8 \<le> unat n"
  shows "ALIGN_SIZE (n + 1) = 0"
proof -
  have "unat n < 2 ^ 32" using unsigned_less[of n] by simp
  then have "unat n \<in> {2 ^ 32 - 8, 2 ^ 32 - 7, 2 ^ 32 - 6, 2 ^ 32 - 5, 2 ^ 32 - 4, 2 ^ 32 - 3, 2 ^ 32 - 2, 2 ^ 32 - 1}"
    using assms by (simp, arith)
  then have "unat (ALIGN_SIZE (n + 1)) = 0" unfolding unat_ALIGN_SIZE by auto
  then show ?thesis by (simp add: word_unat_eq_iff)
qed

subsection \<open>Growing the buffer\<close>

lemma poke_beyond:
  assumes "string_wf s" "i < unat (Alloced_length s)" "unat (str_length s) \<le> i"
  shows "\<exists>s'. poke s i c = Some s' \<and> string_wf s' \<and> contents s' = contents s \<and> str_length s' = str_length s \<and>
    Alloced_length s' = Alloced_length s \<and> alloced s' = alloced s"
  using assms by (auto simp: poke_def string_wf_def contents_def)

lemma string_realloc_cases:
  assumes wf: "string_wf s" and m: "malloc_ok m" and n: "unat (str_length s) \<le> unat n" "unat n + 9 \<le> 2 ^ 32"
  obtains (err) "string_realloc m s n = Some (s, True)" "m (unat (ALIGN_SIZE (n + 1))) = None"
    | (ok) s' where "string_realloc m s n = Some (s', False)" "string_wf s'" "contents s' = contents s"
        "str_length s' = str_length s" "unat n < unat (Alloced_length s')" "Alloced_length s \<le> Alloced_length s'"
proof -
  let ?len = "ALIGN_SIZE (n + 1)"
  have room: "unat n < unat ?len" using ALIGN_SIZE_room[OF n(2)] by simp
  have grown: thesis if "string_realloc m s n = do { s' \<leftarrow> poke t (unat n) 0; Some (s', False) }" "string_wf t"
      "contents t = contents s" "str_length t = str_length s" "unat n < unat (Alloced_length t)" "Alloced_length s \<le> Alloced_length t" for t
    using poke_beyond[of t "unat n" 0] that n(1) ok by auto
  show thesis
  proof (cases "Alloced_length s < ?len")
    case False
    then show ?thesis using grown[of s] wf room by (simp add: string_realloc_def word_less_nat_alt)
  next
    case less: True
    show ?thesis
    proof (cases "m (unat ?len)")
      case None then show ?thesis using err less by (cases "alloced s") (simp_all add: string_realloc_def my_realloc_def)
    next
      case (Some b)
      then have b: "length b = unat ?len" using m by (simp add: malloc_ok_def)
      show ?thesis
      proof (cases "alloced s")
        case True
        then show ?thesis using grown[of "s\<lparr>Ptr := take (unat ?len) (Ptr s) @ drop (length (Ptr s)) b, Alloced_length := ?len\<rparr>"] wf less Some b room
          by (simp add: string_realloc_def my_realloc_def string_wf_def contents_def word_less_nat_alt word_le_nat_alt)
      next
        case False
        let ?p = "(take (unat (str_length s)) (Ptr s) @ drop (unat (str_length s)) b)[unat (str_length s) := 0]"
        from False show ?thesis using grown[of "s\<lparr>Ptr := ?p, Alloced_length := ?len, alloced := True\<rparr>"] wf less Some b room n(1)
          by (simp add: string_realloc_def string_wf_def contents_def word_less_nat_alt word_le_nat_alt get_bytes_def put_bytes_def arr_slice_def)
      qed
    qed
  qed
qed

subsection \<open>Appending\<close>

lemma unat_add_word: "unat (x :: uint32) + n < 2 ^ 32 \<Longrightarrow> unat (x + word_of_nat n) = unat x + n"
  by (simp add: unat_word_ariths unat_of_nat)

lemma word_of_nat_inj_small: "m < 2 ^ 32 \<Longrightarrow> n < 2 ^ 32 \<Longrightarrow> (word_of_nat m :: uint32) = word_of_nat n \<longleftrightarrow> m = n"
  by (simp add: word_unat_eq_iff unat_of_nat)

lemma memcpy_append:
  assumes "string_wf s" "unat (str_length s) + length bs \<le> unat (Alloced_length s)"
  shows "\<exists>s'. memcpy_to s (unat (str_length s)) bs = Some s' \<and>
    string_wf (s'\<lparr>str_length := str_length s + word_of_nat (length bs)\<rparr>) \<and>
    contents (s'\<lparr>str_length := str_length s + word_of_nat (length bs)\<rparr>) = contents s @ bs"
proof -
  have "unat (Alloced_length s) < 2 ^ 32" using unsigned_less[of "Alloced_length s"] by simp
  then have "unat (str_length s + word_of_nat (length bs)) = unat (str_length s) + length bs"
    using assms by (intro unat_add_word) linarith
  then show ?thesis using assms by (auto simp: memcpy_to_def put_bytes_def string_wf_def contents_def)
qed

lemma append_String_ok:
  assumes m: "malloc_ok m" and wf: "string_wf s" and n: "length (contents s) + length bs + 9 \<le> 2 ^ 32"
  shows "\<exists>s' e. append_String m s bs = Some (s', e) \<and> string_wf s' \<and>
    (if e then s' = s \<and> (\<exists>k. m k = None) else contents s' = contents s @ bs)"
proof -
  let ?k = "str_length s + word_of_nat (length bs)"
  have len: "unat ?k = unat (str_length s) + length bs"
    using n length_contents[OF wf] by (intro unat_add_word) linarith
  have z: "(word_of_nat (length bs) :: uint32) = 0 \<longleftrightarrow> bs = []"
    using word_of_nat_inj_small[of "length bs" 0] n by simp
  have le: "unat (str_length s) \<le> unat ?k" "unat ?k + 9 \<le> 2 ^ 32" using len n length_contents[OF wf] by linarith+
  show ?thesis
  proof (cases "bs = []")
    case True then show ?thesis using wf by (auto simp: append_String_def)
  next
    case False
    from wf m le show ?thesis
    proof (cases rule: string_realloc_cases)
      case err
      then have "append_String m s bs = Some (s, True)" using False z by (simp add: append_String_def)
      then show ?thesis using wf err(2) by auto
    next
      case (ok s1)
      then have "unat (str_length s1) + length bs \<le> unat (Alloced_length s1)" using len by simp
      from memcpy_append[OF ok(2) this] obtain s2 where s2: "memcpy_to s1 (unat (str_length s1)) bs = Some s2"
          "string_wf (s2\<lparr>str_length := str_length s1 + word_of_nat (length bs)\<rparr>)"
          "contents (s2\<lparr>str_length := str_length s1 + word_of_nat (length bs)\<rparr>) = contents s1 @ bs" by blast
      then have "append_String m s bs = Some (s2\<lparr>str_length := str_length s1 + word_of_nat (length bs)\<rparr>, False)"
        using False z ok(1) by (simp add: append_String_def)
      then show ?thesis using s2 ok(3) by auto
    qed
  qed
qed

lemma append_step_ok:
  assumes m: "malloc_ok m" and wf: "string_wf s" and n: "length (contents s) + length bs + unat step + 9 \<le> 2 ^ 32"
  shows "\<exists>s' e. append_step m step s bs = Some (s', e) \<and> string_wf s' \<and>
    (if e then s' = s \<and> (\<exists>k. m k = None) else contents s' = contents s @ bs)"
proof -
  let ?k = "word_of_nat (length bs) + str_length s"
  have len: "unat ?k = unat (str_length s) + length bs"
    using n length_contents[OF wf] unat_add_word[of "str_length s" "length bs"] by (simp add: add.commute)
  then have len2: "unat (?k + step) = unat (str_length s) + length bs + unat step"
    using n length_contents[OF wf] unat_add_word[of ?k "unat step"] by simp
  show ?thesis
  proof (cases "Alloced_length s < ?k")
    case False
    then have "unat (str_length s) + length bs \<le> unat (Alloced_length s)" using len by (simp add: word_less_nat_alt)
    from memcpy_append[OF wf this] obtain s2 where s2: "memcpy_to s (unat (str_length s)) bs = Some s2"
        "string_wf (s2\<lparr>str_length := str_length s + word_of_nat (length bs)\<rparr>)"
        "contents (s2\<lparr>str_length := str_length s + word_of_nat (length bs)\<rparr>) = contents s @ bs" by blast
    then have "append_step m step s bs = Some (s2\<lparr>str_length := str_length s + word_of_nat (length bs)\<rparr>, False)"
      using False by (simp add: append_step_def Let_def)
    then show ?thesis using s2 by auto
  next
    case True
    have le: "unat (str_length s) \<le> unat (?k + step)" "unat (?k + step) + 9 \<le> 2 ^ 32" using len2 n length_contents[OF wf] by linarith+
    from wf m le show ?thesis
    proof (cases rule: string_realloc_cases)
      case err
      then have "append_step m step s bs = Some (s, True)" using True by (simp add: append_step_def Let_def)
      then show ?thesis using wf err(2) by auto
    next
      case (ok s1)
      then have "unat (str_length s1) + length bs \<le> unat (Alloced_length s1)" using len2 by simp
      from memcpy_append[OF ok(2) this] obtain s2 where s2: "memcpy_to s1 (unat (str_length s1)) bs = Some s2"
          "string_wf (s2\<lparr>str_length := str_length s1 + word_of_nat (length bs)\<rparr>)"
          "contents (s2\<lparr>str_length := str_length s1 + word_of_nat (length bs)\<rparr>) = contents s1 @ bs" by blast
      then have "append_step m step s bs = Some (s2\<lparr>str_length := str_length s1 + word_of_nat (length bs)\<rparr>, False)"
        using True ok(1) by (simp add: append_step_def Let_def)
      then show ?thesis using s2 ok(3) by auto
    qed
  qed
qed

text \<open>A series of appends that stops at the first error.\<close>

fun append_all :: "(sql_string \<Rightarrow> uchar list \<Rightarrow> (sql_string \<times> bool) option) \<Rightarrow> sql_string \<Rightarrow> uchar list list \<Rightarrow> (sql_string \<times> bool) option" where
  "append_all app s [] = Some (s, False)"
| "append_all app s (b # bs) = do { (s, e) \<leftarrow> app s b; if e then Some (s, True) else append_all app s bs }"

locale appender =
  fixes app :: "allocator \<Rightarrow> sql_string \<Rightarrow> uchar list \<Rightarrow> (sql_string \<times> bool) option"
    and slack :: nat
  assumes app_ok: "malloc_ok m \<Longrightarrow> string_wf s \<Longrightarrow> length (contents s) + length bs + slack \<le> 2 ^ 32 \<Longrightarrow>
    \<exists>s' e. app m s bs = Some (s', e) \<and> string_wf s' \<and>
      (if e then s' = s \<and> (\<exists>k. m k = None) else contents s' = contents s @ bs)"
begin

lemma append_all_ok:
  assumes "malloc_ok m" "string_wf s" "length (contents s) + length (concat bss) + slack \<le> 2 ^ 32"
  shows "\<exists>s' e. append_all (app m) s bss = Some (s', e) \<and> string_wf s' \<and>
    (if e then \<exists>k. contents s' = contents s @ concat (take k bss) else contents s' = contents s @ concat bss)"
  using assms
proof (induction bss arbitrary: s)
  case (Cons b bss)
  obtain s1 e where a: "app m s b = Some (s1, e)" "string_wf s1"
      "if e then s1 = s \<and> (\<exists>k. m k = None) else contents s1 = contents s @ b"
    using app_ok[of m s b] Cons.prems by auto
  show ?case
  proof (cases e)
    case True then show ?thesis using a Cons.prems by (auto intro!: exI[of _ 0])
  next
    case False
    then obtain s2 e2 where "append_all (app m) s1 bss = Some (s2, e2)" "string_wf s2"
        "if e2 then \<exists>k. contents s2 = contents s1 @ concat (take k bss) else contents s2 = contents s1 @ concat bss"
      using Cons.IH[of s1] Cons.prems a by auto
    then show ?thesis using a False by (auto intro: exI[of _ "Suc _"] split: if_splits)
  qed
qed auto

lemma never_fails: "malloc_ok m \<Longrightarrow> (\<And>k. m k \<noteq> None) \<Longrightarrow> string_wf s \<Longrightarrow> length (contents s) + length bs + slack \<le> 2 ^ 32 \<Longrightarrow>
    \<exists>s'. app m s bs = Some (s', False) \<and> string_wf s' \<and> contents s' = contents s @ bs"
  using app_ok[of m s bs] by (auto split: if_splits)

end

interpretation by_string: appender append_String 9
  by unfold_locales (use append_String_ok in \<open>simp add: add.assoc\<close>)

interpretation by_step: appender "\<lambda>m. append_step m step" "unat step + 9" for step
  by unfold_locales (use append_step_ok in \<open>simp add: add.assoc\<close>)


definition empty_string :: sql_string where
  "empty_string = \<lparr>Ptr = [], str_length = 0, Alloced_length = 0, alloced = False\<rparr>"

lemma empty_string_simps [simp]: "string_wf empty_string" "contents empty_string = []"
  by (simp_all add: empty_string_def string_wf_def contents_def)




subsection \<open>Searching\<close>

definition occurs_at :: "uchar list \<Rightarrow> uchar list \<Rightarrow> nat \<Rightarrow> bool" where
  "occurs_at cs t i \<longleftrightarrow> i + length t \<le> length cs \<and> arr_slice i (length t) cs = t"

definition position :: "nat option \<Rightarrow> int" where
  "position r = (case r of Some i \<Rightarrow> int i | None \<Rightarrow> - 1)"

lemma c_int_small: "0 \<le> i \<Longrightarrow> i < 2 ^ 31 \<Longrightarrow> c_int i = i" "c_int (- 1) = - 1"
  by (simp_all add: c_int_def signed_of_int signed_take_bit_int_eq_self)

lemma c_int_offset: "unat offset \<le> unat (str_length s) \<Longrightarrow> unat (str_length s) < 2 ^ 31 \<Longrightarrow> c_int (uint offset) = int (unat offset)"
proof -
  assume "unat offset \<le> unat (str_length s)" "unat (str_length s) < 2 ^ 31"
  then have "unat offset < 2 ^ 31" by (rule le_less_trans)
  then have "int (unat offset) < 2 ^ 31" by (metis of_nat_less_iff of_nat_numeral of_nat_power)
  then show ?thesis by (simp add: c_int_small)
qed

lemma slice_take: "i + n \<le> L \<Longrightarrow> arr_slice i n (take L p) = arr_slice i n p"
  by (simp add: arr_slice_def drop_take min_def)

lemma occurs_at_contents:
  "string_wf s \<Longrightarrow> occurs_at (contents s) t i \<longleftrightarrow>
    i + length t \<le> unat (str_length s) \<and> arr_slice i (length t) (Ptr s) = t"
  by (auto simp: occurs_at_def length_contents) (auto simp: contents_def slice_take)

lemma match_from_slice: "i + length ys \<le> length buf \<Longrightarrow> match_from buf i ys = Some (arr_slice i (length ys) buf = ys)"
  by (induction ys arbitrary: i) (auto simp: arr_slice_Suc, simp add: arr_slice_def)

lemma strstr_loop_find:
  assumes "str \<le> e" "e + length cs \<le> length buf" "e < 2 ^ 31"
  shows "strstr_loop buf (c # cs) str e =
    Some (position (find (\<lambda>i. arr_slice i (Suc (length cs)) buf = c # cs) [str..<e]))"
  using assms
proof (induction "e - str" arbitrary: str)
  case 0
  then show ?case by (subst strstr_loop.simps) (simp add: position_def)
next
  case (Suc k)
  then have lt: "str < e" by simp
  have "strstr_loop buf (c # cs) (Suc str) e = Some (position (find (\<lambda>i. arr_slice i (Suc (length cs)) buf = c # cs) [Suc str..<e]))"
    using Suc by simp
  moreover have "match_from buf (Suc str) cs = Some (arr_slice (Suc str) (length cs) buf = cs)"
    using lt Suc.prems by (intro match_from_slice) simp
  ultimately show ?case
    using lt Suc.prems by (subst strstr_loop.simps) (auto simp: upt_conv_Cons position_def arr_slice_Suc c_int_small)
qed

text \<open>C35. \<open>strstr\<close> returns the first position from the offset on at which the search string occurs in
  the contents, \<open>-1\<close> when there is none, and never reads outside the buffer.\<close>

theorem strstr_correct:
  assumes "string_wf s" "length search + unat offset < 2 ^ 32" "unat (str_length s) < 2 ^ 31"
  shows "strstr s search offset =
    Some (position (find (occurs_at (contents s) search) [unat offset..<Suc (unat (str_length s))]))"
proof -
  let ?n = "word_of_nat (length search) :: uint32" and ?L = "unat (str_length s)"
  have n: "unat ?n = length search" using assms(2) by (simp add: unat_of_nat)
  have le: "?n + offset \<le> str_length s \<longleftrightarrow> length search + unat offset \<le> ?L"
    using assms(2) unat_add_word[of offset "length search"] by (simp add: word_le_nat_alt add.commute)
  have occ: "occurs_at (contents s) search i \<longleftrightarrow> i + length search \<le> ?L \<and> arr_slice i (length search) (Ptr s) = search" for i
    by (rule occurs_at_contents[OF assms(1)])
  show ?thesis
  proof (cases "length search + unat offset \<le> ?L")
    case False
    then have "find (occurs_at (contents s) search) [unat offset..<Suc ?L] = None" by (auto simp: find_None_iff occ)
    then show ?thesis using False le by (simp add: strstr_def position_def)
  next
    case True
    show ?thesis
    proof (cases search)
      case Nil
      then have "find (occurs_at (contents s) search) [unat offset..<Suc ?L] = Some (unat offset)"
        using True by (simp add: upt_conv_Cons occurs_at_contents[OF assms(1)] arr_slice_def del: upt_Suc)
      then show ?thesis using True le Nil c_int_offset[of offset s] assms(3) by (simp add: strstr_def position_def)
    next
      case (Cons c cs)
      let ?e = "?L - length search + 1"
      have "strstr_loop (Ptr s) (c # cs) (unat offset) ?e =
          Some (position (find (\<lambda>i. arr_slice i (Suc (length cs)) (Ptr s) = c # cs) [unat offset..<?e]))"
        using True Cons assms by (intro strstr_loop_find) (auto simp: string_wf_def)
      also have "find (\<lambda>i. arr_slice i (Suc (length cs)) (Ptr s) = c # cs) [unat offset..<?e] =
          find (occurs_at (contents s) search) [unat offset..<?e]"
        using Cons True by (intro find_cong_list) (auto simp: occurs_at_contents[OF assms(1)])
      also have "\<dots> = find (occurs_at (contents s) search) [unat offset..<Suc ?L]"
        using Cons True by (intro find_upt_extend[symmetric]) (auto simp: occurs_at_contents[OF assms(1)])
      finally show ?thesis using True le n Cons word_of_nat_inj_small[of "length search" 0] assms(2)
        by (simp add: strstr_def)
    qed
  qed
qed

theorem strstr_correct_witness:
  "strstr \<lparr>Ptr = [1, 2, 1, 2, 3], str_length = 5, Alloced_length = 0, alloced = False\<rparr> [2, 3] 1 =
    Some (position (find (occurs_at (contents \<lparr>Ptr = [1, 2, 1, 2, 3], str_length = 5, Alloced_length = 0, alloced = False\<rparr>) [2, 3])
      [unat (1 :: uint32)..<Suc (unat (str_length \<lparr>Ptr = [1, 2, 1, 2, 3], str_length = 5, Alloced_length = 0, alloced = False\<rparr>))]))"
  by (rule strstr_correct) (simp_all add: string_wf_def)

lemma slice_snoc: "i + n < length buf \<Longrightarrow> arr_slice i (Suc n) buf = arr_slice i n buf @ [buf ! (i + n)]"
  by (simp add: arr_slice_def take_Suc_conv_app_nth)

lemma match_back_slice:
  assumes "length ys \<le> k" "k \<le> length buf"
  shows "match_back buf (int k - 1) ys =
    Some (if arr_slice (k - length ys) (length ys) buf = rev ys then Some (int k - 1 - int (length ys)) else None)"
  using assms
proof (induction ys arbitrary: k)
  case Nil then show ?case by (simp add: arr_slice_def)
next
  case (Cons y ys)
  obtain j where k: "k = Suc j" using Cons.prems by (cases k) auto
  have "arr_slice (k - length (y # ys)) (length (y # ys)) buf = arr_slice (j - length ys) (length ys) buf @ [buf ! j]"
    using slice_snoc[of "j - length ys" "length ys" buf] Cons.prems k by simp
  moreover have "match_back buf (int j - 1) ys =
      Some (if arr_slice (j - length ys) (length ys) buf = rev ys then Some (int j - 1 - int (length ys)) else None)"
    using Cons k by simp
  ultimately show ?case using Cons.prems k by (simp add: aget_int_def)
qed

lemma strrstr_loop_find:
  assumes "length cs \<le> k" "k \<le> length buf" "k < 2 ^ 31"
  shows "strrstr_loop buf (c # cs) (int k - 1) (int (length cs) - 1) =
    Some (position (find (\<lambda>i. arr_slice i (Suc (length cs)) buf = rev cs @ [c]) (rev [0..<k - length cs])))"
  using assms
proof (induction k)
  case 0 then show ?case by (subst strrstr_loop.simps) (simp add: position_def)
next
  case (Suc k)
  show ?case
  proof (cases "length cs = Suc k")
    case True then show ?thesis by (subst strrstr_loop.simps) (simp add: position_def)
  next
    case False
    then have le: "length cs \<le> k" using Suc.prems by simp
    have "arr_slice (k - length cs) (Suc (length cs)) buf = arr_slice (k - length cs) (length cs) buf @ [buf ! k]"
      using slice_snoc[of "k - length cs" "length cs" buf] Suc.prems le by simp
    moreover have "match_back buf (int k - 1) cs =
        Some (if arr_slice (k - length cs) (length cs) buf = rev cs then Some (int k - 1 - int (length cs)) else None)"
      by (rule match_back_slice) (use le Suc.prems in simp_all)
    moreover have "c_int (int k - 1 - int (length cs)) + 1 = int (k - length cs)"
      using le Suc.prems c_int_small(1)[of "int k - 1 - int (length cs)"] c_int_small(2) by (cases "k = length cs") auto
    moreover have "[0..<Suc k - length cs] = [0..<k - length cs] @ [k - length cs]" using le by (simp add: Suc_diff_le)
    ultimately show ?thesis using Suc le
      by (subst strrstr_loop.simps) (simp add: position_def aget_int_def)
  qed
qed

text \<open>C36. \<open>strrstr\<close> returns the last position at which the search string occurs and ends at or before
  the offset, \<open>-1\<close> when there is none, and never reads outside the buffer.\<close>

theorem strrstr_correct:
  assumes "string_wf s" "length search < 2 ^ 32" "unat (str_length s) < 2 ^ 31" "unat offset \<le> unat (str_length s)"
  shows "strrstr s search offset =
    Some (position (find (occurs_at (contents s) search) (rev [0..<Suc (unat offset) - length search])))"
proof -
  let ?n = "word_of_nat (length search) :: uint32"
  have n: "unat ?n = length search" using assms(2) by (simp add: unat_of_nat)
  have occ: "occurs_at (contents s) search i \<longleftrightarrow> i + length search \<le> unat (str_length s) \<and> arr_slice i (length search) (Ptr s) = search" for i
    by (rule occurs_at_contents[OF assms(1)])
  show ?thesis
  proof (cases "length search \<le> unat offset")
    case False
    then show ?thesis using n by (simp add: strrstr_def position_def word_le_nat_alt)
  next
    case True
    show ?thesis
    proof (cases search rule: rev_cases)
      case Nil
      then have "find (occurs_at (contents s) search) (rev [0..<Suc (unat offset) - length search]) = Some (unat offset)"
        using assms(4) by (simp add: occurs_at_contents[OF assms(1)] arr_slice_def)
      then show ?thesis using Nil c_int_offset[of offset s] assms(3,4) by (simp add: strrstr_def position_def word_le_nat_alt)
    next
      case (snoc cs c)
      have "strrstr_loop (Ptr s) (c # rev cs) (int (unat offset) - 1) (int (length (rev cs)) - 1) =
          Some (position (find (\<lambda>i. arr_slice i (Suc (length (rev cs))) (Ptr s) = rev (rev cs) @ [c]) (rev [0..<unat offset - length (rev cs)])))"
        using True snoc assms by (intro strrstr_loop_find) (auto simp: string_wf_def)
      also have "find (\<lambda>i. arr_slice i (Suc (length (rev cs))) (Ptr s) = rev (rev cs) @ [c]) (rev [0..<unat offset - length (rev cs)]) =
          find (occurs_at (contents s) search) (rev [0..<Suc (unat offset) - length search])"
        using snoc True assms(4) by (simp, intro find_cong_list) (auto simp: occurs_at_contents[OF assms(1)])
      finally show ?thesis using True n snoc word_of_nat_inj_small[of "length search" 0] assms(2,4)
        by (simp add: strrstr_def word_le_nat_alt)
    qed
  qed
qed

theorem strrstr_correct_witness:
  "strrstr \<lparr>Ptr = [1, 2, 1, 2, 3], str_length = 5, Alloced_length = 0, alloced = False\<rparr> [1, 2] 3 =
    Some (position (find (occurs_at (contents \<lparr>Ptr = [1, 2, 1, 2, 3], str_length = 5, Alloced_length = 0, alloced = False\<rparr>) [1, 2])
      (rev [0..<Suc (unat (3 :: uint32)) - length [1 :: uchar, 2]])))"
  by (rule strrstr_correct) (simp_all add: string_wf_def)

subsection \<open>Replacing\<close>

lemma memcpy_to_eq:
  "string_wf s \<Longrightarrow> i + length bs \<le> unat (Alloced_length s) \<Longrightarrow>
    memcpy_to s i bs = Some (s\<lparr>Ptr := take i (Ptr s) @ bs @ drop (i + length bs) (Ptr s)\<rparr>)"
  by (simp add: memcpy_to_def put_bytes_def string_wf_def)

lemma bmove_in_eq:
  "string_wf s \<Longrightarrow> src + n \<le> length (Ptr s) \<Longrightarrow> dst + n \<le> unat (Alloced_length s) \<Longrightarrow>
    bmove_in s dst src n = Some (s\<lparr>Ptr := take dst (Ptr s) @ arr_slice src n (Ptr s) @ drop (dst + n) (Ptr s)\<rparr>)"
  using memcpy_to_eq[of s dst "arr_slice src n (Ptr s)"] by (simp add: bmove_in_def get_bytes_def length_slice string_wf_def)

text \<open>The state after the bytes between \<open>k\<close> and \<open>k + a\<close> have been replaced by \<open>to\<close>.\<close>

lemma replaced_ok:
  assumes "string_wf s" "k + a \<le> unat (str_length s)" "unat (str_length s) + length to - a \<le> unat (Alloced_length s)"
    and P: "length P = length (Ptr s)" "take (k + length to + (unat (str_length s) - k - a)) P =
        take k (Ptr s) @ to @ arr_slice (k + a) (unat (str_length s) - k - a) (Ptr s)"
    and len: "unat len = unat (str_length s) + length to - a"
  shows "string_wf (s\<lparr>Ptr := P, str_length := len\<rparr>) \<and>
    contents (s\<lparr>Ptr := P, str_length := len\<rparr>) = take k (contents s) @ to @ drop (k + a) (contents s)"
proof -
  have "k + length to + (unat (str_length s) - k - a) = unat len" using assms(2) len by simp
  moreover have "arr_slice (k + a) (unat (str_length s) - k - a) (Ptr s) = drop (k + a) (contents s)"
    by (simp add: arr_slice_def contents_def drop_take)
  moreover have "take k (Ptr s) = take k (contents s)" using assms(2) by (simp add: contents_def min_def)
  ultimately show ?thesis using P assms(1,3) len by (auto simp: contents_def[of "s\<lparr>Ptr := P, str_length := len\<rparr>"] string_wf_def)
qed

lemma replace_words:
  fixes L offset a :: uint32
  assumes "unat offset + unat a < 2 ^ 32" "t + unat L < 2 ^ 32"
  shows "offset + a \<le> L \<longleftrightarrow> unat offset + unat a \<le> unat L"
    and "unat offset + unat a \<le> unat L \<Longrightarrow> unat (L - offset - a) = unat L - unat offset - unat a"
    and "unat a \<le> unat L \<Longrightarrow> unat (L + word_of_int (int t - uint a)) = unat L + t - unat a"
proof -
  show "offset + a \<le> L \<longleftrightarrow> unat offset + unat a \<le> unat L"
    using assms(1) by (simp add: word_le_nat_alt unat_word_ariths)
  show "unat (L - offset - a) = unat L - unat offset - unat a" if "unat offset + unat a \<le> unat L"
  proof -
    have "unat (L - offset) = unat L - unat offset" using that by (intro unat_sub) (simp add: word_le_nat_alt)
    moreover from this have "a \<le> L - offset" using that by (simp add: word_le_nat_alt)
    ultimately show ?thesis by (simp add: unat_sub)
  qed
  show "unat (L + word_of_int (int t - uint a)) = unat L + t - unat a" if "unat a \<le> unat L"
  proof -
    have "L + word_of_int (int t - uint a) = word_of_nat (unat L + t - unat a)"
      using that by (simp add: of_nat_diff algebra_simps)
    then show ?thesis using assms(2) by (simp add: unat_of_nat)
  qed
qed

lemma replace_shrinks:
  assumes "string_wf s" "unat (str_length s) \<le> unat (Alloced_length s)" "k + a \<le> unat (str_length s)" "length to < a"
  defines "n \<equiv> unat (str_length s) - k - a"
  shows "\<exists>P. do { s1 \<leftarrow> memcpy_to s k to; bmove_in s1 (k + length to) (k + a) n } = Some (s\<lparr>Ptr := P\<rparr>) \<and>
    length P = length (Ptr s) \<and> take (k + length to + n) P = take k (Ptr s) @ to @ arr_slice (k + a) n (Ptr s)"
proof -
  let ?P1 = "take k (Ptr s) @ to @ drop (k + length to) (Ptr s)"
  have m: "memcpy_to s k to = Some (s\<lparr>Ptr := ?P1\<rparr>)" using assms by (intro memcpy_to_eq) auto
  have wf1: "string_wf (s\<lparr>Ptr := ?P1\<rparr>)" using assms by (auto simp: string_wf_def)
  have b: "bmove_in (s\<lparr>Ptr := ?P1\<rparr>) (k + length to) (k + a) n =
      Some (s\<lparr>Ptr := take (k + length to) ?P1 @ arr_slice (k + a) n ?P1 @ drop (k + length to + n) ?P1\<rparr>)"
    using bmove_in_eq[OF wf1, of "k + a" n "k + length to"] assms by (auto simp: string_wf_def)
  have "arr_slice (k + a) n ?P1 = arr_slice (k + a) n (Ptr s)"
    using assms by (auto simp: arr_slice_def string_wf_def min_def add.commute[of a k])
  then show ?thesis using m b assms by (auto simp: string_wf_def length_slice)
qed

lemma replace_grows:
  assumes "string_wf s" "unat (str_length s) + length to - a \<le> unat (Alloced_length s)" "k + a + n = unat (str_length s)" "a \<le> length to"
  shows "\<exists>P. do { s0 \<leftarrow> bmove_in s (k + length to) (k + a) n; memcpy_to s0 k to } = Some (s\<lparr>Ptr := P\<rparr>) \<and>
    length P = length (Ptr s) \<and> take (k + length to + n) P = take k (Ptr s) @ to @ arr_slice (k + a) n (Ptr s)"
proof -
  let ?bs = "arr_slice (k + a) n (Ptr s)"
  let ?P1 = "take (k + length to) (Ptr s) @ ?bs @ drop (k + length to + n) (Ptr s)"
  have len: "unat (str_length s) \<le> length (Ptr s)" "k + length to + n \<le> unat (Alloced_length s)" "unat (Alloced_length s) \<le> length (Ptr s)"
    using assms by (auto simp: string_wf_def)
  have bs: "length ?bs = n" using assms(3) len by (simp add: length_slice)
  have b: "bmove_in s (k + length to) (k + a) n = Some (s\<lparr>Ptr := ?P1\<rparr>)"
    using assms len by (intro bmove_in_eq) auto
  have wf1: "string_wf (s\<lparr>Ptr := ?P1\<rparr>)" using assms(1) len bs by (auto simp: string_wf_def)
  have m: "memcpy_to (s\<lparr>Ptr := ?P1\<rparr>) k to = Some (s\<lparr>Ptr := take k ?P1 @ to @ drop (k + length to) ?P1\<rparr>)"
    using memcpy_to_eq[OF wf1, of k to] len by simp
  have "take k ?P1 = take k (Ptr s)" "drop (k + length to) ?P1 = ?bs @ drop (k + length to + n) (Ptr s)"
    using len by (auto simp: min_def)
  moreover have "k + length to + n \<le> length (Ptr s)" using len by linarith
  ultimately show ?thesis using m b bs
    by (intro exI[of _ "take k (Ptr s) @ to @ ?bs @ drop (k + length to + n) (Ptr s)"]) auto
qed

lemma string_replace_inside:
  assumes wf: "string_wf s" and m: "malloc_ok m" and w: "unat (str_length s) \<le> unat (Alloced_length s)"
    and le: "unat offset + unat a \<le> unat (str_length s)" and n: "length to + unat (str_length s) + 9 \<le> 2 ^ 32"
  shows "\<exists>s' e. string_replace m s offset a to = Some (s', e) \<and> string_wf s' \<and>
    (if e then s' = s else contents s' = take (unat offset) (contents s) @ to @ drop (unat offset + unat a) (contents s))"
proof -
  let ?L = "unat (str_length s)" and ?t = "word_of_nat (length to) :: uint32" and ?k = "unat offset"
  let ?len = "str_length s + word_of_int (int (length to) - uint a)" and ?n = "unat (str_length s) - unat offset - unat a"
  have t: "unat ?t = length to" "uint ?t = int (length to)"
    using n by (simp_all add: unat_of_nat unsigned_of_nat take_bit_eq_mod)
  have words: "offset + a \<le> str_length s" "unat (str_length s - offset - a) = ?n" "unat ?len = ?L + length to - unat a"
    using replace_words[of offset a "length to" "str_length s"] le n unsigned_less[of "str_length s"] by simp_all
  have a: "uint a = int (unat a)" by simp
  show ?thesis
  proof (cases "length to < unat a")
    case True
    from replace_shrinks[OF wf w le True] obtain P s1 where P: "memcpy_to s ?k to = Some s1"
        "bmove_in s1 (?k + length to) (?k + unat a) ?n = Some (s\<lparr>Ptr := P\<rparr>)" "length P = length (Ptr s)"
        "take (?k + length to + ?n) P = take ?k (Ptr s) @ to @ arr_slice (?k + unat a) ?n (Ptr s)"
      by (auto split: bind_splits)
    have "int (length to) < uint a" using True a by linarith
    then have "string_replace m s offset a to = Some (s\<lparr>Ptr := P, str_length := ?len\<rparr>, False)"
      using P words t by (simp add: string_replace_def Let_def)
    then show ?thesis using replaced_ok[OF wf le _ P(3,4) words(3)] w True by auto
  next
    case ge: False
    have nn: "?k + unat a + ?n = ?L" using le by simp
    show ?thesis
    proof (cases "length to = unat a")
      case True
      let ?P = "take ?k (Ptr s) @ to @ drop (?k + length to) (Ptr s)"
      have "memcpy_to s ?k to = Some (s\<lparr>Ptr := ?P\<rparr>)" using True le w wf by (intro memcpy_to_eq) auto
      moreover have "uint a = int (length to)" using True a by linarith
      ultimately have "string_replace m s offset a to = Some (s\<lparr>Ptr := ?P, str_length := ?len\<rparr>, False)"
        using words t by (simp add: string_replace_def Let_def)
      moreover have "length ?P = length (Ptr s)" "take (?k + length to + ?n) ?P = take ?k (Ptr s) @ to @ arr_slice (?k + unat a) ?n (Ptr s)"
        using True le wf by (auto simp: string_wf_def arr_slice_def)
      ultimately show ?thesis using replaced_ok[OF wf le _ _ _ words(3), of ?P] w True by auto
    next
      case False
      with ge have gt: "unat a < length to" by simp
      then have ug: "uint a < int (length to)" using a by linarith
      have ls: "?L \<le> unat ?len" "unat ?len + 9 \<le> 2 ^ 32" using words(3) gt n by linarith+
      from wf m ls show ?thesis
      proof (cases rule: string_realloc_cases)
        case err
        then have "string_replace m s offset a to = Some (s, True)"
          using ug words t by (simp add: string_replace_def Let_def)
        then show ?thesis using wf by auto
      next
        case (ok s0)
        have le0: "?k + unat a \<le> unat (str_length s0)" "unat (str_length s0) + length to - unat a \<le> unat (Alloced_length s0)"
          using le words(3) ok by auto
        from replace_grows[OF ok(2) le0(2), of ?k ?n] nn ok(4) gt obtain P s1 where P: "bmove_in s0 (?k + length to) (?k + unat a) ?n = Some s1"
            "memcpy_to s1 ?k to = Some (s0\<lparr>Ptr := P\<rparr>)" "length P = length (Ptr s0)"
            "take (?k + length to + ?n) P = take ?k (Ptr s0) @ to @ arr_slice (?k + unat a) ?n (Ptr s0)"
          by (auto split: bind_splits)
        have "nat (int ?L + (int (length to) - uint a)) - ?n = ?k + length to" "?L - ?n = ?k + unat a" using le gt a by linarith+
        then have "string_replace m s offset a to = Some (s0\<lparr>Ptr := P, str_length := ?len\<rparr>, False)"
          using ug P words t ok(1,4) by (simp add: string_replace_def Let_def)
        then show ?thesis using replaced_ok[OF ok(2) le0 P(3)] P(4) words(3) ok(3,4) by auto
      qed
    qed
  qed
qed


definition abc_string :: sql_string where
  "abc_string = \<lparr>Ptr = [1, 2, 3, 0], str_length = 3, Alloced_length = 4, alloced = True\<rparr>"


end
