(* ===== verification/Text_Protocol.thy ===== *)
theory Text_Protocol
  imports Net_Pack Sql_String_Props
begin

unbundle bit_operations_syntax

text \<open>
  A row of a result set in the text protocol: the server writes its fields into the packet with
  \<open>Protocol::net_store_data\<close> and \<open>Protocol_simple::store_null\<close> (\<open>sql/protocol.cc\<close>), and the client
  reads them back with \<open>read_one_row\<close> (\<open>sql-common/client.c\<close>), which leaves the fields in the network
  buffer and terminates each one in place.

  The network buffer starts at \<open>read_pos\<close>; what \<open>cli_safe_read\<close> returned is an argument, \<open>None\<close> for
  \<open>packet_error\<close>. A row is the list of the field pointers, offsets into the buffer or \<open>None\<close> for a
  null pointer, followed by the end of the last field.
\<close>

subsection \<open>The server\<close>

definition prepare_for_resend :: "sql_string \<Rightarrow> sql_string" where
  "prepare_for_resend packet = packet\<lparr>str_length := 0\<rparr>"

definition PACKET_BUFFER_EXTRA_ALLOC :: uint32 where "PACKET_BUFFER_EXTRA_ALLOC = 1024"

definition net_store_data :: "allocator \<Rightarrow> sql_string \<Rightarrow> uchar list \<Rightarrow> (sql_string \<times> bool) option" where
  "net_store_data malloc packet from =
     (let packet_length = unat (str_length packet); n = length from in do {
        (packet, err) \<leftarrow>
          (if packet_length + 9 + n > unat (Alloced_length packet)
           then string_realloc malloc packet (word_of_nat (packet_length + 9 + n))
           else Some (packet, False));
        if err then Some (packet, True)
        else do {
          let area = take (unat (Alloced_length packet)) (Ptr packet);
          (area, to) \<leftarrow> net_store_length area packet_length (word_of_nat n);
          area \<leftarrow> put_bytes area to from;
          Some (packet\<lparr>Ptr := area @ drop (unat (Alloced_length packet)) (Ptr packet), str_length := word_of_nat (to + n)\<rparr>, False)
        }
      })"

definition store_null :: "allocator \<Rightarrow> sql_string \<Rightarrow> (sql_string \<times> bool) option" where
  "store_null malloc packet = append_step malloc PACKET_BUFFER_EXTRA_ALLOC packet [251]"

text \<open>The fields of a row, one after the other.\<close>

fun store_fields :: "allocator \<Rightarrow> sql_string \<Rightarrow> uchar list option list \<Rightarrow> (sql_string \<times> bool) option" where
  "store_fields malloc packet [] = Some (packet, False)"
| "store_fields malloc packet (f # fs) = do {
     (packet, err) \<leftarrow> (case f of None \<Rightarrow> store_null malloc packet | Some from \<Rightarrow> net_store_data malloc packet from);
     if err then Some (packet, True) else store_fields malloc packet fs
   }"

subsection \<open>The client\<close>

record MYSQL =
  warning_count :: uint16
  server_status :: uint16
  last_errno :: nat

definition CR_UNKNOWN_ERROR :: nat where "CR_UNKNOWN_ERROR = 2000"

datatype read_result =
    Read_error MYSQL
  | End_of_data MYSQL
  | Row MYSQL (net_buff: "uchar list") (row: "nat option list") (lengths: "ulonglong list")

definition terminate :: "uchar list \<Rightarrow> nat option \<Rightarrow> uchar list option" where
  "terminate buff prev_pos = (case prev_pos of None \<Rightarrow> Some buff | Some p \<Rightarrow> aset buff p 0)"

fun read_fields :: "nat \<Rightarrow> uchar list \<Rightarrow> nat \<Rightarrow> nat \<Rightarrow> nat option \<Rightarrow>
    (unit + uchar list \<times> nat option \<times> nat option list \<times> ulonglong list) option" where
  "read_fields 0 buff pos end_pos prev_pos = Some (Inr (buff, prev_pos, [], []))"
| "read_fields (Suc n) buff pos end_pos prev_pos = do {
     (len, pos) \<leftarrow> net_field_length buff pos;
     if len = NULL_LENGTH then do {
       buff \<leftarrow> terminate buff prev_pos;
       r \<leftarrow> read_fields n buff pos end_pos (Some pos);
       Some (map_sum id (\<lambda>(b, p, rs, ls). (b, p, None # rs, 0 # ls)) r)
     }
     else if len > word_of_int (int end_pos - int pos) then Some (Inl ())
     else do {
       buff \<leftarrow> terminate buff prev_pos;
       r \<leftarrow> read_fields n buff (pos + unat len) end_pos (Some (pos + unat len));
       Some (map_sum id (\<lambda>(b, p, rs, ls). (b, p, Some pos # rs, len # ls)) r)
     }
   }"

definition read_one_row :: "MYSQL \<Rightarrow> uchar list \<Rightarrow> nat option \<Rightarrow> nat \<Rightarrow> read_result option" where
  "read_one_row mysql buff pkt nfields =
     (case pkt of
        None \<Rightarrow> Some (Read_error mysql)
      | Some pkt_len \<Rightarrow> do {
          eof \<leftarrow> (if pkt_len \<le> 8 then do { c \<leftarrow> aget buff 0; Some (c = 254) } else Some False);
          if eof then
            (if pkt_len > 1 then do {
               w \<leftarrow> uint2korr buff 1;
               st \<leftarrow> uint2korr buff 3;
               Some (End_of_data (mysql\<lparr>warning_count := w, server_status := st\<rparr>))
             } else Some (End_of_data mysql))
          else do {
            r \<leftarrow> read_fields nfields buff 0 pkt_len None;
            (case r of
               Inl _ \<Rightarrow> Some (Read_error (mysql\<lparr>last_errno := CR_UNKNOWN_ERROR\<rparr>))
             | Inr (b, None, rs, ls) \<Rightarrow> None
             | Inr (b, Some prev_pos, rs, ls) \<Rightarrow> do {
                 b \<leftarrow> aset b prev_pos 0;
                 Some (Row mysql b (rs @ [Some (prev_pos + 1)]) ls)
               })
          }
        })"

subsection \<open>What the server writes\<close>

definition field_bytes :: "uchar list option \<Rightarrow> uchar list" where
  "field_bytes f = (case f of None \<Rightarrow> [251] | Some bs \<Rightarrow> length_bytes (word_of_nat (length bs)) @ bs)"

definition row_bytes :: "uchar list option list \<Rightarrow> uchar list" where
  "row_bytes fs = concat (map field_bytes fs)"

lemma length_bytes_le9: "length (length_bytes n) \<le> 9" "1 \<le> length (length_bytes n)"
  using length_length_bytes[of n] by auto

lemma area_append:
  assumes "string_wf s" "unat (str_length s) + 9 + length bs \<le> unat (Alloced_length s)"
  defines "A \<equiv> unat (Alloced_length s)" and "hd_bytes \<equiv> length_bytes (word_of_nat (length bs))"
  shows "\<exists>b. do { (area, to) \<leftarrow> net_store_length (take A (Ptr s)) (unat (str_length s)) (word_of_nat (length bs));
                area \<leftarrow> put_bytes area to bs;
                Some (s\<lparr>Ptr := area @ drop A (Ptr s), str_length := word_of_nat (to + length bs)\<rparr>, False) } = Some (b, False) \<and>
    string_wf b \<and> contents b = contents s @ hd_bytes @ bs"
proof -
  let ?k = "unat (str_length s)" and ?to = "unat (str_length s) + length hd_bytes"
  have A: "A \<le> length (Ptr s)" "A < 2 ^ 32" using assms(1) unsigned_less[of "Alloced_length s"] by (auto simp: string_wf_def A_def)
  have "length hd_bytes \<le> 9" using length_bytes_le9(1) by (simp add: hd_bytes_def)
  then have h: "?to + length bs \<le> A" using assms(2) A_def by linarith
  let ?w = "take ?k (Ptr s) @ (hd_bytes @ bs) @ drop (?to + length bs) (take A (Ptr s))"
  let ?b = "s\<lparr>Ptr := ?w @ drop A (Ptr s), str_length := word_of_nat (?to + length bs)\<rparr>"
  have "put_bytes (take A (Ptr s)) ?k (hd_bytes @ bs) = Some ?w"
    using h A(1) by (simp add: put_bytes_def min_def add.assoc)
  then obtain w1 where "put_bytes (take A (Ptr s)) ?k hd_bytes = Some w1" "put_bytes w1 ?to bs = Some ?w"
    using put_put[of ?to ?k hd_bytes "take A (Ptr s)" bs] by (auto split: bind_splits)
  moreover have "unat (word_of_nat (?to + length bs) :: uint32) = ?to + length bs"
    by (subst unat_of_nat) (use h A(2) in simp)
  moreover have "string_wf ?b \<and> contents ?b = contents s @ hd_bytes @ bs"
    using calculation(3) h A assms(1) by (auto simp: string_wf_def contents_def A_def)
  ultimately show ?thesis by (auto simp: net_store_length_put hd_bytes_def)
qed

lemma net_store_data_ok:
  assumes m: "malloc_ok m" and wf: "string_wf s" and n: "length (contents s) + length bs + 18 \<le> 2 ^ 32"
  shows "\<exists>s' e. net_store_data m s bs = Some (s', e) \<and> string_wf s' \<and>
    (if e then s' = s else contents s' = contents s @ field_bytes (Some bs))"
proof -
  let ?need = "unat (str_length s) + 9 + length bs"
  have len: "unat (word_of_nat ?need :: uint32) = ?need"
    by (subst unat_of_nat) (use n length_contents[OF wf] in simp)
  have store: "\<exists>s'. net_store_data m s bs = Some (s', False) \<and> string_wf s' \<and> contents s' = contents s @ field_bytes (Some bs)"
    if "(if ?need > unat (Alloced_length s) then string_realloc m s (word_of_nat ?need) else Some (s, False)) = Some (t, False)"
      "string_wf t" "contents t = contents s" "str_length t = str_length s" "?need \<le> unat (Alloced_length t)" for t
    using area_append[of t bs] that by (simp add: net_store_data_def field_bytes_def Let_def)
  show ?thesis
  proof (cases "?need > unat (Alloced_length s)")
    case False then show ?thesis using store[of s] wf by auto
  next
    case True
    have le: "unat (str_length s) \<le> unat (word_of_nat ?need :: uint32)" "unat (word_of_nat ?need :: uint32) + 9 \<le> 2 ^ 32"
      unfolding len using n length_contents[OF wf] by auto
    from wf m le show ?thesis
    proof (cases rule: string_realloc_cases)
      case err
      then have "net_store_data m s bs = Some (s, True)" using True by (simp add: net_store_data_def Let_def)
      then show ?thesis using wf by auto
    next
      case (ok t) then show ?thesis using store[of t] True unfolding len by auto
    qed
  qed
qed

lemma store_null_ok:
  assumes "malloc_ok m" "string_wf s" "length (contents s) + 1034 \<le> 2 ^ 32"
  shows "\<exists>s' e. store_null m s = Some (s', e) \<and> string_wf s' \<and> (if e then s' = s else contents s' = contents s @ field_bytes None)"
proof -
  have le: "length (contents s) + length [251 :: uchar] + (unat PACKET_BUFFER_EXTRA_ALLOC + 9) \<le> 2 ^ 32"
    using assms(3) by (simp add: PACKET_BUFFER_EXTRA_ALLOC_def)
  obtain s' e where "store_null m s = Some (s', e)" "string_wf s'"
      "if e then s' = s \<and> (\<exists>k. m k = None) else contents s' = contents s @ [251]"
    using by_step.app_ok[OF assms(1,2) le] unfolding store_null_def by blast
  then show ?thesis by (intro exI[of _ s'] exI[of _ e]) (auto simp: field_bytes_def split: if_splits)
qed

lemma store_fields_ok:
  assumes "malloc_ok m" "string_wf s" "length (contents s) + length (row_bytes fs) + 1034 \<le> 2 ^ 32"
  shows "\<exists>s' e. store_fields m s fs = Some (s', e) \<and> string_wf s' \<and> (e \<or> contents s' = contents s @ row_bytes fs)"
  using assms
proof (induction fs arbitrary: s)
  case Nil then show ?case by (auto simp: row_bytes_def)
next
  case (Cons f fs)
  have split: "row_bytes (f # fs) = field_bytes f @ row_bytes fs" by (simp add: row_bytes_def)
  have "\<exists>s' e. (case f of None \<Rightarrow> store_null m s | Some from \<Rightarrow> net_store_data m s from) = Some (s', e) \<and> string_wf s' \<and>
      (if e then s' = s else contents s' = contents s @ field_bytes f)"
  proof (cases f)
    case None
    have "length (contents s) + 1034 \<le> 2 ^ 32" using Cons.prems(3) by linarith
    from store_null_ok[OF Cons.prems(1,2) this] show ?thesis unfolding None by (simp split del: if_split)
  next
    case (Some a)
    have "length a \<le> length (row_bytes (f # fs))" unfolding Some by (simp add: row_bytes_def field_bytes_def)
    then have "length (contents s) + length a + 18 \<le> 2 ^ 32" using Cons.prems(3) by linarith
    from net_store_data_ok[OF Cons.prems(1,2) this] show ?thesis unfolding Some by (simp split del: if_split)
  qed
  then obtain s1 e where s1: "(case f of None \<Rightarrow> store_null m s | Some from \<Rightarrow> net_store_data m s from) = Some (s1, e)"
      "string_wf s1" "if e then s1 = s else contents s1 = contents s @ field_bytes f" by blast
  show ?case
  proof (cases e)
    case True then show ?thesis using s1 by auto
  next
    case False
    then have "\<exists>s' e. store_fields m s1 fs = Some (s', e) \<and> string_wf s' \<and> (e \<or> contents s' = contents s1 @ row_bytes fs)"
      using Cons.IH[of s1] Cons.prems s1 split by auto
    then show ?thesis using s1 False split by auto
  qed
qed

subsection \<open>What the client reads\<close>

text \<open>Field \<open>f\<close> of a row is delivered as pointer \<open>r\<close> and length \<open>l\<close>: its bytes are at the pointer and,
  unless it ends the packet, are followed by a zero.\<close>

definition field_ok :: "uchar list \<Rightarrow> nat \<Rightarrow> uchar list option \<Rightarrow> nat option \<Rightarrow> ulonglong \<Rightarrow> bool" where
  "field_ok b e f r l =
     (case f of
        None \<Rightarrow> r = None \<and> l = 0
      | Some bs \<Rightarrow>
          (case r of
             None \<Rightarrow> False
           | Some p \<Rightarrow> l = word_of_nat (length bs) \<and> get_bytes b p (length bs) = Some bs \<and> p + length bs \<le> e \<and>
               (p + length bs < e \<longrightarrow> b ! (p + length bs) = 0)))"

definition fields_ok :: "uchar list \<Rightarrow> nat \<Rightarrow> uchar list option list \<Rightarrow> nat option list \<Rightarrow> ulonglong list \<Rightarrow> bool" where
  "fields_ok b e fs rs ls \<longleftrightarrow> length rs = length fs \<and> length ls = length fs \<and>
     (\<forall>i < length fs. field_ok b e (fs ! i) (rs ! i) (ls ! i))"

lemma fields_ok_Nil [simp]: "fields_ok b e [] [] []"
  by (simp add: fields_ok_def)

lemma fields_ok_Cons [simp]: "fields_ok b e (f # fs) (r # rs) (l # ls) \<longleftrightarrow> field_ok b e f r l \<and> fields_ok b e fs rs ls"
  by (auto simp: fields_ok_def nth_Cons split: nat.splits)

text \<open>The header of a field in the buffer is read as its length.\<close>

lemma get_bytes_appendD:
  "get_bytes b p n = Some (xs @ ys) \<Longrightarrow>
    get_bytes b p (length xs) = Some xs \<and> get_bytes b (p + length xs) (length ys) = Some ys"
proof -
  assume g: "get_bytes b p n = Some (xs @ ys)"
  then have n: "n = length xs + length ys" "p + n \<le> length b"
    by (auto simp: get_bytes_def length_slice split: if_splits dest!: arg_cong[where f=length])
  moreover have "take (length xs) (drop p b) = xs" "take (length ys) (drop (length xs) (drop p b)) = ys"
    using g n by (auto simp: get_bytes_def arr_slice_def take_add split: if_splits)
  ultimately show ?thesis by (simp add: get_bytes_def arr_slice_def add.commute)
qed

lemma null_header: "get_bytes b p n = Some (field_bytes None @ zs) \<Longrightarrow> net_field_length b p = Some (NULL_LENGTH, p + 1)"
  using get_bytes_appendD[of b p n "field_bytes None" zs]
  by (simp add: field_bytes_def get_bytes_Cons net_field_length_def)

lemma some_header:
  assumes "get_bytes b p n = Some (field_bytes (Some bs) @ zs)" "length bs < 2 ^ 32"
  defines "h \<equiv> length (length_bytes (word_of_nat (length bs)))"
  shows "net_field_length b p = Some (word_of_nat (length bs), p + h)"
    and "get_bytes b (p + h) (length bs) = Some bs" and "1 \<le> h"
    and "(word_of_nat (length bs) :: ulonglong) \<noteq> NULL_LENGTH" and "unat (word_of_nat (length bs) :: ulonglong) = length bs"
proof -
  let ?hb = "length_bytes (word_of_nat (length bs))"
  have "get_bytes b p (length ?hb) = Some ?hb \<and> get_bytes b (p + length ?hb) (length (bs @ zs)) = Some (bs @ zs)"
    using get_bytes_appendD[of b p n ?hb "bs @ zs"] assms(1) by (simp add: field_bytes_def)
  then have g: "get_bytes b p (length ?hb) = Some ?hb" "get_bytes b (p + h) (length bs) = Some bs"
    using get_bytes_appendD[of b "p + length ?hb" _ bs zs] by (auto simp: h_def)
  show u: "unat (word_of_nat (length bs) :: ulonglong) = length bs" using assms(2) by (simp add: unat_of_nat)
  have "take_bit 32 (word_of_nat (length bs) :: ulonglong) = word_of_nat (length bs)"
    using assms(2) by (simp add: word_unat_eq_iff unsigned_take_bit_eq u take_bit_nat_eq_self)
  then show "net_field_length b p = Some (word_of_nat (length bs), p + h)"
    using net_field_length_bytes[OF g(1)] by (simp add: h_def)
  show "get_bytes b (p + h) (length bs) = Some bs" by (fact g(2))
  show "1 \<le> h" using length_bytes_le9 by (simp add: h_def)
  have "unat NULL_LENGTH = 2 ^ 64 - 1" by (simp add: NULL_LENGTH_def unsigned_minus_1_eq_mask mask_eq_exp_minus_1)
  then show "(word_of_nat (length bs) :: ulonglong) \<noteq> NULL_LENGTH" using u assms(2) by (auto dest: arg_cong[where f=unat])
qed

lemma get_bytes_update_other: "i < p \<or> p + n \<le> i \<Longrightarrow> get_bytes (b[i := v]) p n = get_bytes b p n"
  by (simp add: get_bytes_def arr_slice_update_outside)

lemma get_bytes_agree: "length b = length c \<Longrightarrow> (\<And>i. i < p + n \<Longrightarrow> b ! i = c ! i) \<Longrightarrow> get_bytes b p n = get_bytes c p n"
  by (auto simp: get_bytes_nths)

lemma row_bytes_Nil [simp]: "row_bytes [] = []"
  by (simp add: row_bytes_def)

lemma row_bytes_Cons: "row_bytes (f # fs) = field_bytes f @ row_bytes fs"
  by (simp add: row_bytes_def)

lemma length_field_bytes: "1 \<le> length (field_bytes f)"
  using length_bytes_le9(2) by (auto simp: field_bytes_def split: option.splits intro: trans_le_add1)

lemma field_bytes_nonempty [simp]: "field_bytes f \<noteq> []"
  using length_field_bytes[of f] by auto

text \<open>One field: what is read at its header, and where the next field starts.\<close>

lemma read_field_step:
  assumes g: "get_bytes buff pos n = Some (field_bytes f @ zs)" and e: "pos + length (field_bytes f) \<le> e" "e < 2 ^ 32"
    and t: "terminate buff prev = Some buff1"
  defines "p2 \<equiv> pos + length (field_bytes f)"
  shows "\<exists>r l. read_fields (Suc k) buff pos e prev =
      map_option (map_sum id (\<lambda>(b, p, rs, ls). (b, p, r # rs, l # ls))) (read_fields k buff1 p2 e (Some p2)) \<and>
    (case f of None \<Rightarrow> r = None \<and> l = 0
     | Some bs \<Rightarrow> r = Some (p2 - length bs) \<and> l = word_of_nat (length bs) \<and> pos < p2 - length bs \<and>
         length bs \<le> p2 \<and> get_bytes buff (p2 - length bs) (length bs) = Some bs)"
proof (cases f)
  case None
  then show ?thesis using null_header[of buff pos n zs] g t
    by (intro exI[of _ None] exI[of _ 0]) (auto simp: p2_def field_bytes_def split: option.splits bind_splits)
next
  case (Some bs)
  let ?h = "length (length_bytes (word_of_nat (length bs)))"
  have p2: "p2 = pos + ?h + length bs" using Some by (simp add: p2_def field_bytes_def)
  then have lt: "length bs < 2 ^ 32" using e p2_def by simp
  note h = some_header[OF g[unfolded Some] lt]
  have "(word_of_int (int e - int (pos + ?h)) :: ulonglong) = word_of_nat (e - (pos + ?h))"
    using p2 e(1) p2_def by (simp add: of_nat_diff)
  moreover have "unat (word_of_nat (e - (pos + ?h)) :: ulonglong) = e - (pos + ?h)" using e(2) by (simp add: unat_of_nat)
  ultimately have "\<not> word_of_nat (length bs) > (word_of_int (int e - int (pos + ?h)) :: ulonglong)"
    using p2 e(1) p2_def h(5) by (simp add: word_less_nat_alt)
  then show ?thesis using h t p2 Some
    by (intro exI[of _ "Some (pos + ?h)"] exI[of _ "word_of_nat (length bs)"]) (auto split: option.splits bind_splits)
qed

lemma read_fields_ok:
  assumes "get_bytes buff pos (length (row_bytes fs)) = Some (row_bytes fs)" "e = pos + length (row_bytes fs)"
    "e < 2 ^ 32" "e < length buff" "prev = None \<or> prev = Some pos"
  shows "\<exists>b rs ls. read_fields (length fs) buff pos e prev = Some (Inr (b, if fs = [] then prev else Some e, rs, ls)) \<and>
    length b = length buff \<and> (\<forall>i < pos. b ! i = buff ! i) \<and> (prev = Some pos \<and> fs \<noteq> [] \<longrightarrow> b ! pos = 0) \<and>
    fields_ok b e fs rs ls"
  using assms
proof (induction fs arbitrary: buff pos prev)
  case Nil then show ?case by simp
next
  case (Cons f fs)
  let ?p2 = "pos + length (field_bytes f)"
  define b1 where "b1 = (if prev = None then buff else buff[pos := 0])"
  have b1: "length b1 = length buff" "\<And>i. i \<noteq> pos \<Longrightarrow> b1 ! i = buff ! i"
      "\<And>p n. pos < p \<Longrightarrow> get_bytes b1 p n = get_bytes buff p n"
    by (auto simp: b1_def get_bytes_update_other)
  have e: "e = ?p2 + length (row_bytes fs)" using Cons.prems(2) by (simp add: row_bytes_Cons)
  have t: "terminate buff prev = Some b1" using Cons.prems e by (auto simp: terminate_def b1_def)
  have g: "get_bytes buff pos (length (row_bytes (f # fs))) = Some (field_bytes f @ row_bytes fs)"
    using Cons.prems(1) by (simp add: row_bytes_Cons)
  have pl: "pos < ?p2" using length_field_bytes[of f] by linarith
  have "get_bytes b1 ?p2 (length (row_bytes fs)) = Some (row_bytes fs)"
    using get_bytes_appendD[OF g] pl by (simp add: b1)
  from Cons.IH[OF this e Cons.prems(3), of "Some ?p2"] Cons.prems(4) b1(1)
  obtain b rs ls where b: "read_fields (length fs) b1 ?p2 e (Some ?p2) = Some (Inr (b, if fs = [] then Some ?p2 else Some e, rs, ls))"
      "length b = length buff" "\<forall>i < ?p2. b ! i = b1 ! i" "fs \<noteq> [] \<longrightarrow> b ! ?p2 = 0" "fields_ok b e fs rs ls"
    by auto
  obtain r l where r: "read_fields (Suc (length fs)) buff pos e prev =
        map_option (map_sum id (\<lambda>(b, p, rs, ls). (b, p, r # rs, l # ls))) (read_fields (length fs) b1 ?p2 e (Some ?p2))"
      "case f of None \<Rightarrow> r = None \<and> l = 0
       | Some bs \<Rightarrow> r = Some (?p2 - length bs) \<and> l = word_of_nat (length bs) \<and> pos < ?p2 - length bs \<and>
           length bs \<le> ?p2 \<and> get_bytes buff (?p2 - length bs) (length bs) = Some bs"
    using read_field_step[OF g _ Cons.prems(3) t, of "length fs"] e by auto
  have "field_ok b e f r l"
  proof (cases f)
    case None then show ?thesis using r by (simp add: field_ok_def)
  next
    case (Some bs)
    have "get_bytes b (?p2 - length bs) (length bs) = get_bytes b1 (?p2 - length bs) (length bs)"
      using b(2,3) b1(1) r(2) Some by (intro get_bytes_agree) auto
    also have "\<dots> = get_bytes buff (?p2 - length bs) (length bs)" using r(2) Some by (simp add: b1(3))
    finally have gb: "get_bytes b (?p2 - length bs) (length bs) = Some bs" using r(2) Some by simp
    have "?p2 < e \<longrightarrow> b ! ?p2 = 0" using b(4) e by (auto simp: row_bytes_def)
    then show ?thesis using gb r(2) Some e by (simp add: field_ok_def)
  qed
  moreover have "prev = Some pos \<Longrightarrow> b ! pos = 0" using b(3) pl Cons.prems(4) e by (simp add: b1_def)
  moreover have "read_fields (length (f # fs)) buff pos e prev = Some (Inr (b, Some e, r # rs, l # ls))"
    using r(1) b(1) e by (cases "fs = []") (simp_all del: read_fields.simps)
  ultimately show ?case using b pl b1(2) by (auto simp del: read_fields.simps)
qed

text \<open>A row starts with 254 only if its first field is longer than an end-of-data packet.\<close>

lemma length_bytes_254: "length_bytes n ! 0 = 254 \<Longrightarrow> 16777216 \<le> unat n"
  using ucast_small[of n] by (auto simp: length_bytes_def word_less_nat_alt split: if_splits)

lemma row_bytes_first:
  assumes "fs \<noteq> []" "length (row_bytes fs) \<le> 8"
  shows "row_bytes fs ! 0 \<noteq> 254"
proof -
  obtain f gs where fs: "fs = f # gs" using assms(1) by (cases fs) auto
  have first: "row_bytes fs ! 0 = field_bytes f ! 0"
    by (simp add: fs row_bytes_Cons nth_append)
  show ?thesis
  proof (cases f)
    case None then show ?thesis by (simp add: first field_bytes_def)
  next
    case (Some bs)
    have "length bs \<le> 8" using assms(2) Some by (simp add: fs row_bytes_Cons field_bytes_def)
    then have "unat (word_of_nat (length bs) :: ulonglong) \<le> 8" by (simp add: unat_of_nat)
    then show ?thesis using length_bytes_254[of "word_of_nat (length bs)"] length_bytes_le9(2)[of "word_of_nat (length bs)"] Some
      by (auto simp: first field_bytes_def nth_append)
  qed
qed

lemma fields_ok_terminated:
  assumes "fields_ok b e fs rs ls" "e < length b" "i < length fs"
  shows "case fs ! i of
      None \<Rightarrow> rs ! i = None \<and> ls ! i = 0
    | Some bs \<Rightarrow> \<exists>p. rs ! i = Some p \<and> ls ! i = word_of_nat (length bs) \<and>
        get_bytes (b[e := 0]) p (length bs) = Some bs \<and> b[e := 0] ! (p + length bs) = 0"
proof -
  have ok: "field_ok b e (fs ! i) (rs ! i) (ls ! i)" using assms by (simp add: fields_ok_def)
  show ?thesis
  proof (cases "fs ! i")
    case None then show ?thesis using ok by (simp add: field_ok_def)
  next
    case (Some bs)
    then obtain p where p: "rs ! i = Some p" "ls ! i = word_of_nat (length bs)" "get_bytes b p (length bs) = Some bs"
        "p + length bs \<le> e" "p + length bs < e \<longrightarrow> b ! (p + length bs) = 0"
      using ok by (auto simp: field_ok_def split: option.splits)
    then show ?thesis using Some assms(2) by (auto simp: get_bytes_update_other nth_list_update)
  qed
qed

subsection \<open>Properties\<close>

text \<open>C29. A row that the server has written into a fresh packet is read back by the client: every null
  field as a null pointer of length zero, every other field as a pointer to its bytes in the network
  buffer with its length, followed by a zero byte. The zeros that the client writes into the buffer
  while it goes on reading destroy no field, and a row is never taken for the end of the data.\<close>

theorem row_roundtrip:
  assumes "malloc_ok m" "string_wf packet" "fs \<noteq> []" "length (row_bytes fs) + 1034 \<le> 2 ^ 32"
    and "store_fields m (prepare_for_resend packet) fs = Some (s, False)"
    and "buff = contents s @ rest" "rest \<noteq> []"
  shows "\<exists>b rs ls. read_one_row mysql buff (Some (length (contents s))) (length fs) = Some (Row mysql b rs ls) \<and>
    length rs = length fs + 1 \<and> length ls = length fs \<and>
    (\<forall>i < length fs. case fs ! i of
        None \<Rightarrow> rs ! i = None \<and> ls ! i = 0
      | Some bs \<Rightarrow> \<exists>p. rs ! i = Some p \<and> ls ! i = word_of_nat (length bs) \<and>
          get_bytes b p (length bs) = Some bs \<and> b ! (p + length bs) = 0)"
proof -
  let ?e = "length (row_bytes fs)"
  have "string_wf (prepare_for_resend packet)" "contents (prepare_for_resend packet) = []"
    using assms(2) by (auto simp: prepare_for_resend_def string_wf_def contents_def)
  then have c: "contents s = row_bytes fs"
    using store_fields_ok[of m "prepare_for_resend packet" fs] assms(1,4,5) by auto
  have buff: "get_bytes buff 0 ?e = Some (row_bytes fs)" "?e < length buff"
    using assms(6,7) c by (auto simp: get_bytes_def arr_slice_def)
  from read_fields_ok[OF buff(1), of ?e None] assms(4) buff(2) obtain b rs ls where
      b: "read_fields (length fs) buff 0 ?e None = Some (Inr (b, Some ?e, rs, ls))" "length b = length buff" "fields_ok b ?e fs rs ls"
    using assms(3) by auto
  have "row_bytes fs \<noteq> []" using assms(3) by (cases fs) (auto simp: row_bytes_Cons)
  then have first: "?e \<le> 8 \<Longrightarrow> aget buff 0 = Some (row_bytes fs ! 0)" using assms(6) c by (simp add: nth_append)
  have "read_one_row mysql buff (Some ?e) (length fs) = Some (Row mysql (b[?e := 0]) (rs @ [Some (?e + 1)]) ls)"
    using b(1,2) buff(2) first row_bytes_first[OF assms(3)] by (simp add: read_one_row_def)
  moreover have "length rs = length fs" "length ls = length fs" using b(3) by (auto simp: fields_ok_def)
  ultimately show ?thesis using fields_ok_terminated[OF b(3)] b(2) buff(2) unfolding c
    by (intro exI[of _ "b[?e := 0]"] exI[of _ "rs @ [Some (?e + 1)]"] exI[of _ ls]) (simp add: nth_append cong: option.case_cong)
qed

definition sample_mysql :: MYSQL where
  "sample_mysql = \<lparr>warning_count = 0, server_status = 0, last_errno = 0\<rparr>"

definition sample_packet :: sql_string where
  "sample_packet = \<lparr>Ptr = replicate 16 9, str_length = 7, Alloced_length = 16, alloced = True\<rparr>"

definition sample_row :: sql_string where
  "sample_row = \<lparr>Ptr = [1, 65, 251, 9, 9, 9, 9, 9, 9, 9, 9, 9, 9, 9, 9, 9], str_length = 3, Alloced_length = 16, alloced = True\<rparr>"

lemma sample_row_stored:
  "store_fields (\<lambda>n. Some (replicate n 0)) (prepare_for_resend sample_packet) [Some [65], None] = Some (sample_row, False)"
  by code_simp

theorem row_roundtrip_witness:
  "\<exists>b rs ls. read_one_row sample_mysql ([1, 65, 251] @ [0]) (Some 3) 2 = Some (Row sample_mysql b rs ls) \<and>
    rs ! 1 = None \<and> (\<exists>p. rs ! 0 = Some p \<and> get_bytes b p 1 = Some [65] \<and> b ! (p + 1) = 0)"
proof -
  let ?fs = "[Some [65], None] :: uchar list option list"
  have pre: "malloc_ok (\<lambda>n. Some (replicate n (0 :: uchar)))" "string_wf sample_packet" "?fs \<noteq> []" "length (row_bytes ?fs) + 1034 \<le> 2 ^ 32"
    and c: "contents sample_row = [1, 65, 251]"
    by (simp_all add: malloc_ok_def string_wf_def contents_def sample_packet_def sample_row_def row_bytes_def field_bytes_def length_bytes_def)
  obtain b rs ls where r: "read_one_row sample_mysql (contents sample_row @ [0]) (Some (length (contents sample_row))) (length ?fs) = Some (Row sample_mysql b rs ls)"
      and f: "\<forall>i < length ?fs. case ?fs ! i of
        None \<Rightarrow> rs ! i = None \<and> ls ! i = 0
      | Some bs \<Rightarrow> \<exists>p. rs ! i = Some p \<and> ls ! i = word_of_nat (length bs) \<and>
          get_bytes b p (length bs) = Some bs \<and> b ! (p + length bs) = 0"
    using row_roundtrip[OF pre sample_row_stored refl, of "[0]" sample_mysql] by blast
  from f[rule_format, of 0] f[rule_format, of 1] have "rs ! 1 = None" "\<exists>p. rs ! 0 = Some p \<and> get_bytes b p 1 = Some [65] \<and> b ! (p + 1) = 0"
    by auto
  moreover have "read_one_row sample_mysql ([1, 65, 251] @ [0]) (Some 3) 2 = Some (Row sample_mysql b rs ls)"
    using r unfolding c by (simp add: numeral_eq_Suc)
  ultimately show ?thesis by blast
qed

text \<open>C30. The length check of \<open>read_one_row\<close> does not cover the packed length itself: a packet of one byte
  that announces a length of two bytes is accepted, and the row points to bytes that come after the
  end of the packet.\<close>

theorem read_one_row_past_end:
  assumes "unat lo + 256 * unat hi < length rest"
  shows "\<exists>b. read_one_row mysql ([252, lo, hi] @ rest) (Some 1) 1 =
    Some (Row mysql b [Some 3, Some (4 + unat lo + 256 * unat hi)] [word_of_nat (unat lo + 256 * unat hi)])"
proof -
  define n where "n = unat lo + 256 * unat hi"
  let ?b = "[252, lo, hi] @ rest"
  have "unat lo < 256" "unat hi < 256" using unsigned_less[of lo] unsigned_less[of hi] by simp_all
  then have lt: "n < 2 ^ 16" by (simp add: n_def)
  have "map_option unat (uint2korr ?b 1) = Some n" by (simp add: uint2korr_bytes get_bytes_def arr_slice_def numeral_2_eq_2 n_def)
  then obtain v where v: "uint2korr ?b (Suc 0) = Some v" "unat v = n" by auto
  have cast: "ucast v = (word_of_nat n :: ulonglong)" using v(2) by (metis of_nat_unat)
  have u: "unat (word_of_nat n :: ulonglong) = n" using lt by (simp add: unat_of_nat)
  have "unat (- 2 :: ulonglong) = 2 ^ 64 - 2" by simp
  then have le: "\<not> word_of_nat n > (- 2 :: ulonglong)" using u lt by (simp add: word_less_nat_alt)
  have null: "(word_of_nat n :: ulonglong) \<noteq> NULL_LENGTH"
    using u lt by (auto simp: NULL_LENGTH_def unsigned_minus_1_eq_mask mask_eq_exp_minus_1 dest!: arg_cong[where f=unat])
  have "net_field_length ?b 0 = Some (word_of_nat n, 3)" using v(1) cast by (simp add: net_field_length_def)
  then have "read_fields 1 ?b 0 1 None = Some (Inr (?b, Some (3 + n), [Some 3], [word_of_nat n]))"
    using null le u by (simp add: terminate_def)
  then show ?thesis using assms unfolding n_def[symmetric] by (simp add: read_one_row_def add.assoc flip: n_def)
qed

theorem read_one_row_past_end_witness:
  "\<exists>b. read_one_row sample_mysql ([252, 2, 0] @ [7, 8, 9]) (Some 1) 1 = Some (Row sample_mysql b [Some 3, Some 6] [2])"
  using read_one_row_past_end[of 2 0 "[7, 8, 9]" sample_mysql] by simp

end
