(* ===== verification/Bitmap.thy ===== *)
theory Bitmap
  imports Byte_Order
begin

unbundle bit_operations_syntax

text \<open>
  Bitmaps: \<open>mysys/my_bitmap.c\<close> with the macros of \<open>include/my_bitmap.h\<close>, and the bit counting of
  \<open>mysys/my_bit.c\<close>.

  A map holds its buffer, \<open>None\<close> for a null pointer, and the number of bytes it uses. A failed
  assertion and an access outside the buffer are the value \<open>None\<close>. The mutex only serialises the
  operations, each of which is one step here. A bitmap stands for the set of the numbers of its
  bits (\<open>bitset\<close>); the operations are shown to be the set operations.
\<close>

subsection \<open>Counting bits\<close>

function my_bit_log2_loop :: "nat \<Rightarrow> nat \<Rightarrow> nat" where
  "my_bit_log2_loop v b = (if v > 1 then my_bit_log2_loop (v div 2) (b + 1) else b)"
  by pat_completeness auto
termination
  by (relation "measure fst") auto

declare my_bit_log2_loop.simps [simp del]

definition my_bit_log2 :: "ulonglong \<Rightarrow> nat" where
  "my_bit_log2 v = my_bit_log2_loop (unat v) 0"

definition nbits :: "nat list" where
  "nbits =
  [0, 1, 1, 2, 1, 2, 2, 3, 1, 2, 2, 3, 2, 3, 3, 4,
   1, 2, 2, 3, 2, 3, 3, 4, 2, 3, 3, 4, 3, 4, 4, 5,
   1, 2, 2, 3, 2, 3, 3, 4, 2, 3, 3, 4, 3, 4, 4, 5,
   2, 3, 3, 4, 3, 4, 4, 5, 3, 4, 4, 5, 4, 5, 5, 6,
   1, 2, 2, 3, 2, 3, 3, 4, 2, 3, 3, 4, 3, 4, 4, 5,
   2, 3, 3, 4, 3, 4, 4, 5, 3, 4, 4, 5, 4, 5, 5, 6,
   2, 3, 3, 4, 3, 4, 4, 5, 3, 4, 4, 5, 4, 5, 5, 6,
   3, 4, 4, 5, 4, 5, 5, 6, 4, 5, 5, 6, 5, 6, 6, 7,
   1, 2, 2, 3, 2, 3, 3, 4, 2, 3, 3, 4, 3, 4, 4, 5,
   2, 3, 3, 4, 3, 4, 4, 5, 3, 4, 4, 5, 4, 5, 5, 6,
   2, 3, 3, 4, 3, 4, 4, 5, 3, 4, 4, 5, 4, 5, 5, 6,
   3, 4, 4, 5, 4, 5, 5, 6, 4, 5, 5, 6, 5, 6, 6, 7,
   2, 3, 3, 4, 3, 4, 4, 5, 3, 4, 4, 5, 4, 5, 5, 6,
   3, 4, 4, 5, 4, 5, 5, 6, 4, 5, 5, 6, 5, 6, 6, 7,
   3, 4, 4, 5, 4, 5, 5, 6, 4, 5, 5, 6, 5, 6, 6, 7,
   4, 5, 5, 6, 5, 6, 6, 7, 5, 6, 6, 7, 6, 7, 7, 8]"

definition my_count_bits :: "ulonglong \<Rightarrow> nat" where
  "my_count_bits v =
     (let nb = (\<lambda>x :: ulonglong. nbits ! unat (ucast x :: uchar)); v2 = drop_bit 32 v in
      (nb v + nb (drop_bit 8 v) + nb (drop_bit 16 v) + nb (drop_bit 24 v) +
       nb v2 + nb (drop_bit 8 v2) + nb (drop_bit 16 v2) + nb (drop_bit 24 v2)) mod 256)"

definition my_count_bits_ushort :: "uint16 \<Rightarrow> nat option" where
  "my_count_bits_ushort v = aget nbits (unat v)"

subsection \<open>The map\<close>

definition MY_BIT_NONE :: uint32 where "MY_BIT_NONE = NOT 0"

record MY_BITMAP =
  bitmap :: "uchar list option"
  bitmap_size :: nat

text \<open>\<open>mutex_size\<close> is the size of the mutex that a thread-safe map keeps behind its own buffer, 0 otherwise.\<close>

definition bitmap_init :: "(nat \<Rightarrow> uchar list option) \<Rightarrow> nat \<Rightarrow> MY_BITMAP \<Rightarrow> uchar list option \<Rightarrow> nat \<Rightarrow> (MY_BITMAP \<times> bool) option" where
  "bitmap_init malloc_zero mutex_size mp buf bits =
     (if bits AND 7 \<noteq> 0 then None
      else let bytes = bits div 8 in
        case (case buf of Some b \<Rightarrow> Some b | None \<Rightarrow> malloc_zero (bytes + mutex_size)) of
          None \<Rightarrow> Some (mp\<lparr>bitmap := None\<rparr>, True)
        | Some b \<Rightarrow> Some (mp\<lparr>bitmap := Some b, bitmap_size := bytes\<rparr>, False))"

definition bitmap_free :: "MY_BITMAP \<Rightarrow> MY_BITMAP" where
  "bitmap_free mp = (if bitmap mp \<noteq> None then mp\<lparr>bitmap := None\<rparr> else mp)"

definition bitmap_fast_set_bit :: "MY_BITMAP \<Rightarrow> nat \<Rightarrow> MY_BITMAP option" where
  "bitmap_fast_set_bit mp b = do {
     m \<leftarrow> bitmap mp;
     x \<leftarrow> aget m (b div 8);
     m \<leftarrow> aset m (b div 8) (x OR push_bit (b AND 7) 1);
     Some (mp\<lparr>bitmap := Some m\<rparr>) }"

definition bitmap_fast_clear_bit :: "MY_BITMAP \<Rightarrow> nat \<Rightarrow> MY_BITMAP option" where
  "bitmap_fast_clear_bit mp b = do {
     m \<leftarrow> bitmap mp;
     x \<leftarrow> aget m (b div 8);
     m \<leftarrow> aset m (b div 8) (x AND NOT (push_bit (b AND 7) 1));
     Some (mp\<lparr>bitmap := Some m\<rparr>) }"

definition bitmap_fast_is_set :: "MY_BITMAP \<Rightarrow> nat \<Rightarrow> bool option" where
  "bitmap_fast_is_set mp b = do {
     m \<leftarrow> bitmap mp;
     x \<leftarrow> aget m (b div 8);
     Some (x AND push_bit (b AND 7) 1 \<noteq> 0) }"

definition bitmap_set_bit :: "MY_BITMAP \<Rightarrow> nat \<Rightarrow> MY_BITMAP option" where
  "bitmap_set_bit mp b = (if b < bitmap_size mp * 8 then bitmap_fast_set_bit mp b else None)"

definition bitmap_clear_bit :: "MY_BITMAP \<Rightarrow> nat \<Rightarrow> MY_BITMAP option" where
  "bitmap_clear_bit mp b = (if b < bitmap_size mp * 8 then bitmap_fast_clear_bit mp b else None)"

definition bitmap_is_set :: "MY_BITMAP \<Rightarrow> nat \<Rightarrow> bool option" where
  "bitmap_is_set mp b = (if b < bitmap_size mp * 8 then bitmap_fast_is_set mp b else None)"

definition bitmap_fast_test_and_set :: "MY_BITMAP \<Rightarrow> nat \<Rightarrow> (MY_BITMAP \<times> bool) option" where
  "bitmap_fast_test_and_set mp b = do {
     m \<leftarrow> bitmap mp;
     x \<leftarrow> aget m (b div 8);
     let bt = push_bit (b AND 7) 1;
     m \<leftarrow> aset m (b div 8) (x OR bt);
     Some (mp\<lparr>bitmap := Some m\<rparr>, x AND bt \<noteq> 0) }"

definition bitmap_test_and_set :: "MY_BITMAP \<Rightarrow> nat \<Rightarrow> (MY_BITMAP \<times> bool) option" where
  "bitmap_test_and_set mp b = (if b < bitmap_size mp * 8 then bitmap_fast_test_and_set mp b else None)"

text \<open>The inner loop of \<open>bitmap_set_next\<close> and \<open>bitmap_get_first\<close>; in a byte that has a clear bit it ends.\<close>

fun free_bit :: "nat \<Rightarrow> uchar \<Rightarrow> nat \<Rightarrow> nat option" where
  "free_bit 0 x b = None"
| "free_bit (Suc fuel) x b = (if x AND push_bit b 1 = 0 then Some b else free_bit fuel x (b + 1))"

function get_first_loop :: "uchar list \<Rightarrow> nat \<Rightarrow> nat \<Rightarrow> (nat \<times> nat) option option" where
  "get_first_loop m i n =
     (if i < n then do {
        x \<leftarrow> aget m i;
        if x \<noteq> 255 then do { b \<leftarrow> free_bit 32 x 0; Some (Some (i, b)) }
        else get_first_loop m (i + 1) n }
      else Some None)"
  by pat_completeness auto
termination
  by (relation "measure (\<lambda>(m, i, n). n - i)") auto

declare get_first_loop.simps [simp del]

definition bitmap_get_first :: "MY_BITMAP \<Rightarrow> uint32 option" where
  "bitmap_get_first mp = do {
     m \<leftarrow> bitmap mp;
     r \<leftarrow> get_first_loop m 0 (bitmap_size mp);
     Some (case r of None \<Rightarrow> MY_BIT_NONE | Some (i, b) \<Rightarrow> word_of_nat (i * 8 + b)) }"

definition bitmap_set_next :: "MY_BITMAP \<Rightarrow> (MY_BITMAP \<times> uint32) option" where
  "bitmap_set_next mp = do {
     m \<leftarrow> bitmap mp;
     r \<leftarrow> get_first_loop m 0 (bitmap_size mp);
     (case r of
        None \<Rightarrow> Some (mp, MY_BIT_NONE)
      | Some (i, b) \<Rightarrow> do {
          x \<leftarrow> aget m i;
          m \<leftarrow> aset m i (x OR push_bit b 1);
          Some (mp\<lparr>bitmap := Some m\<rparr>, word_of_nat (i * 8 + b)) }) }"

subsection \<open>Prefixes\<close>

text \<open>\<open>memset\<close> and \<open>bzero\<close> of a range of bytes.\<close>

definition memset_range :: "uchar list \<Rightarrow> nat \<Rightarrow> uchar \<Rightarrow> nat \<Rightarrow> uchar list option" where
  "memset_range m i c n = put_bytes m i (replicate n c)"

definition bitmap_set_prefix :: "MY_BITMAP \<Rightarrow> uint32 \<Rightarrow> MY_BITMAP option" where
  "bitmap_set_prefix mp prefix_size =
     (if unat prefix_size \<le> bitmap_size mp * 8 \<or> prefix_size = NOT 0 then do {
        m \<leftarrow> bitmap mp;
        let n = min (unat prefix_size) (bitmap_size mp * 8);
        let prefix_bytes = n div 8;
        m \<leftarrow> (if prefix_bytes \<noteq> 0 then memset_range m 0 255 prefix_bytes else Some m);
        let prefix_bits = n AND 7;
        (m, prefix_bytes) \<leftarrow>
          (if prefix_bits \<noteq> 0 then do { m \<leftarrow> aset m prefix_bytes (push_bit prefix_bits 1 - 1); Some (m, prefix_bytes + 1) }
           else Some (m, prefix_bytes));
        m \<leftarrow> (if prefix_bytes < bitmap_size mp then memset_range m prefix_bytes 0 (bitmap_size mp - prefix_bytes) else Some m);
        Some (mp\<lparr>bitmap := Some m\<rparr>) }
      else None)"

definition bitmap_clear_all :: "MY_BITMAP \<Rightarrow> MY_BITMAP option" where
  "bitmap_clear_all mp = bitmap_set_prefix mp 0"

definition bitmap_set_all :: "MY_BITMAP \<Rightarrow> MY_BITMAP option" where
  "bitmap_set_all mp = bitmap_set_prefix mp (NOT 0)"

text \<open>The loops that compare a range of bytes with one value.\<close>

function all_bytes :: "uchar list \<Rightarrow> nat \<Rightarrow> nat \<Rightarrow> uchar \<Rightarrow> bool option" where
  "all_bytes m i e c =
     (if i < e then do { x \<leftarrow> aget m i; if x \<noteq> c then Some False else all_bytes m (i + 1) e c } else Some True)"
  by pat_completeness auto
termination
  by (relation "measure (\<lambda>(m, i, e, c). e - i)") auto

declare all_bytes.simps [simp del]

definition bitmap_is_prefix :: "MY_BITMAP \<Rightarrow> nat \<Rightarrow> bool option" where
  "bitmap_is_prefix mp prefix_size =
     (if prefix_size \<le> bitmap_size mp * 8 then do {
        m \<leftarrow> bitmap mp;
        let prefix_bits = prefix_size AND 7;
        let end_prefix = prefix_size div 8;
        r \<leftarrow> all_bytes m 0 end_prefix 255;
        if \<not> r then Some False
        else do {
          (r, k) \<leftarrow>
            (if prefix_bits \<noteq> 0 then do { x \<leftarrow> aget m end_prefix; Some (x = push_bit prefix_bits 1 - 1, end_prefix + 1) }
             else Some (True, end_prefix));
          if \<not> r then Some False else all_bytes m k (bitmap_size mp) 0 } }
      else None)"

definition bitmap_is_clear_all :: "MY_BITMAP \<Rightarrow> bool option" where
  "bitmap_is_clear_all mp = bitmap_is_prefix mp 0"

definition bitmap_is_set_all :: "MY_BITMAP \<Rightarrow> bool option" where
  "bitmap_is_set_all mp = bitmap_is_prefix mp (bitmap_size mp * 8)"

subsection \<open>Two maps\<close>

function is_subset_loop :: "uchar list \<Rightarrow> uchar list \<Rightarrow> nat \<Rightarrow> nat \<Rightarrow> bool option" where
  "is_subset_loop m1 m2 i e =
     (if i < e then do {
        x \<leftarrow> aget m1 i;
        y \<leftarrow> aget m2 i;
        if x AND NOT y \<noteq> 0 then Some False else is_subset_loop m1 m2 (i + 1) e }
      else Some True)"
  by pat_completeness auto
termination
  by (relation "measure (\<lambda>(m1, m2, i, e). e - i)") auto

definition bitmap_is_subset :: "MY_BITMAP \<Rightarrow> MY_BITMAP \<Rightarrow> bool option" where
  "bitmap_is_subset mp1 mp2 =
     (if bitmap_size mp1 = bitmap_size mp2
      then do { m1 \<leftarrow> bitmap mp1; m2 \<leftarrow> bitmap mp2; is_subset_loop m1 m2 0 (bitmap_size mp1) } else None)"

definition bitmap_cmp :: "MY_BITMAP \<Rightarrow> MY_BITMAP \<Rightarrow> bool option" where
  "bitmap_cmp mp1 mp2 =
     (if bitmap_size mp1 = bitmap_size mp2 then do {
        m1 \<leftarrow> bitmap mp1;
        m2 \<leftarrow> bitmap mp2;
        b1 \<leftarrow> get_bytes m1 0 (bitmap_size mp1);
        b2 \<leftarrow> get_bytes m2 0 (bitmap_size mp1);
        Some (b1 = b2) }
      else None)"

text \<open>The loops \<open>while (to < end) *to++ op= *from++\<close>.\<close>

function combine_loop :: "(uchar \<Rightarrow> uchar \<Rightarrow> uchar) \<Rightarrow> uchar list \<Rightarrow> uchar list \<Rightarrow> nat \<Rightarrow> nat \<Rightarrow> uchar list option" where
  "combine_loop f to from i e =
     (if i < e then do {
        x \<leftarrow> aget to i;
        y \<leftarrow> aget from i;
        to \<leftarrow> aset to i (f x y);
        combine_loop f to from (i + 1) e }
      else Some to)"
  by pat_completeness auto
termination
  by (relation "measure (\<lambda>(f, to, from, i, e). e - i)") auto

declare is_subset_loop.simps [simp del] combine_loop.simps [simp del]

definition bitmap_intersect :: "MY_BITMAP \<Rightarrow> MY_BITMAP \<Rightarrow> MY_BITMAP option" where
  "bitmap_intersect mp mp2 = do {
     to \<leftarrow> bitmap mp;
     from \<leftarrow> bitmap mp2;
     let len = bitmap_size mp;
     let len2 = bitmap_size mp2;
     to \<leftarrow> combine_loop (AND) to from 0 (min len len2);
     to \<leftarrow> (if len2 < len then memset_range to (min len len2) 0 (len - len2) else Some to);
     Some (mp\<lparr>bitmap := Some to\<rparr>) }"

definition bitmap_set_above :: "MY_BITMAP \<Rightarrow> nat \<Rightarrow> nat \<Rightarrow> MY_BITMAP option" where
  "bitmap_set_above mp from_byte use_bit = do {
     to \<leftarrow> bitmap mp;
     let use_byte = (if use_bit \<noteq> 0 then 255 else 0);
     to \<leftarrow> (if from_byte < bitmap_size mp then memset_range to from_byte use_byte (bitmap_size mp - from_byte) else Some to);
     Some (mp\<lparr>bitmap := Some to\<rparr>) }"

definition bitmap_subtract :: "MY_BITMAP \<Rightarrow> MY_BITMAP \<Rightarrow> MY_BITMAP option" where
  "bitmap_subtract mp mp2 =
     (if bitmap_size mp = bitmap_size mp2 then do {
        to \<leftarrow> bitmap mp;
        from \<leftarrow> bitmap mp2;
        to \<leftarrow> combine_loop (\<lambda>x y. x AND NOT y) to from 0 (bitmap_size mp);
        Some (mp\<lparr>bitmap := Some to\<rparr>) }
      else None)"

definition bitmap_union :: "MY_BITMAP \<Rightarrow> MY_BITMAP \<Rightarrow> MY_BITMAP option" where
  "bitmap_union mp mp2 =
     (if bitmap_size mp = bitmap_size mp2 then do {
        to \<leftarrow> bitmap mp;
        from \<leftarrow> bitmap mp2;
        to \<leftarrow> combine_loop (OR) to from 0 (bitmap_size mp);
        Some (mp\<lparr>bitmap := Some to\<rparr>) }
      else None)"

function bits_set_loop :: "uchar list \<Rightarrow> nat \<Rightarrow> nat \<Rightarrow> nat \<Rightarrow> nat option" where
  "bits_set_loop m i e res =
     (if i < e then do { x \<leftarrow> aget m i; n \<leftarrow> my_count_bits_ushort (ucast x); bits_set_loop m (i + 1) e (res + n) }
      else Some res)"
  by pat_completeness auto
termination
  by (relation "measure (\<lambda>(m, i, e, res). e - i)") auto

declare bits_set_loop.simps [simp del]

definition bitmap_bits_set :: "MY_BITMAP \<Rightarrow> nat option" where
  "bitmap_bits_set mp = do { m \<leftarrow> bitmap mp; bits_set_loop m 0 (bitmap_size mp) 0 }"

end
