(* ===== verification/Bitmap_Props.thy ===== *)
theory Bitmap_Props
  imports Bitmap
begin

unbundle bit_operations_syntax

text \<open>
  A bitmap as the set of the numbers of its bits: every operation of \<open>Bitmap\<close> is the set operation
  that its name says, inside the buffer. The locale \<open>bit_store\<close> is what a user of single bits relies
  on; it is interpreted on the bitmap operations.
\<close>

definition bitmap_wf :: "MY_BITMAP \<Rightarrow> bool" where
  "bitmap_wf m \<longleftrightarrow> (case bitmap m of None \<Rightarrow> False | Some bs \<Rightarrow> bitmap_size m \<le> length bs)"

definition bit_of :: "uchar list \<Rightarrow> nat \<Rightarrow> bool" where
  "bit_of bs i = bit (bs ! (i div 8)) (i mod 8)"

definition bitset :: "MY_BITMAP \<Rightarrow> nat set" where
  "bitset m = {i. i < 8 * bitmap_size m \<and> (case bitmap m of None \<Rightarrow> False | Some bs \<Rightarrow> bit_of bs i)}"

lemma bitmap_wfE:
  assumes "bitmap_wf m"
  obtains bs where "bitmap m = Some bs" "bitmap_size m \<le> length bs"
  using assms by (auto simp: bitmap_wf_def split: option.splits)

lemma bitset_Some: "bitmap m = Some bs \<Longrightarrow> bitset m = {i. i < 8 * bitmap_size m \<and> bit_of bs i}"
  by (simp add: bitset_def)

lemma and_7: "(n::nat) AND 7 = n mod 8"
  using take_bit_eq_mask[of 3 n] by (simp add: take_bit_eq_mod mask_eq_exp_minus_1)

lemma bit_uchar_lt: "bit (x :: uchar) n \<Longrightarrow> n < 8"
  using bit_imp_le_length[of x n] by simp

lemma test_bit: "k < 8 \<Longrightarrow> (x :: uchar) AND push_bit k 1 \<noteq> 0 \<longleftrightarrow> bit x k"
  using and_exp_eq_0_iff_not_bit[of x k] by (simp add: push_bit_eq_mult)

subsection \<open>Single bits\<close>

lemma div_mod_8_eq: "i div 8 = b div 8 \<and> i mod 8 = b mod 8 \<longleftrightarrow> i = (b :: nat)"
  by (metis div_mod_decomp)

lemma bit_of_set:
  "b div 8 < length bs \<Longrightarrow> bit_of (bs[b div 8 := bs ! (b div 8) OR 2 ^ (b mod 8)]) i \<longleftrightarrow> bit_of bs i \<or> i = b"
  using div_mod_8_eq[of i b] by (auto simp: bit_of_def nth_list_update bit_simps)

lemma bit_of_clear:
  "b div 8 < length bs \<Longrightarrow> bit_of (bs[b div 8 := bs ! (b div 8) AND NOT (2 ^ (b mod 8))]) i \<longleftrightarrow> bit_of bs i \<and> i \<noteq> b"
  using div_mod_8_eq[of i b] by (auto simp: bit_of_def nth_list_update bit_simps)

lemma index_ok: "b < 8 * bitmap_size m \<Longrightarrow> bitmap_size m \<le> length bs \<Longrightarrow> b div 8 < length bs"
  by (simp add: less_mult_imp_div_less mult.commute)

lemma bitmap_set_bit_ok:
  assumes "bitmap_wf m" "b < 8 * bitmap_size m"
  shows "\<exists>m'. bitmap_set_bit m b = Some m' \<and> bitmap_wf m' \<and> bitmap_size m' = bitmap_size m \<and> bitset m' = insert b (bitset m)"
proof -
  obtain bs where bs: "bitmap m = Some bs" "bitmap_size m \<le> length bs" using assms(1) by (rule bitmap_wfE)
  note i = index_ok[OF assms(2) bs(2)]
  let ?m = "m\<lparr>bitmap := Some (bs[b div 8 := bs ! (b div 8) OR push_bit (b mod 8) 1])\<rparr>"
  have "bitmap_set_bit m b = Some ?m" using assms(2) bs i by (simp add: bitmap_set_bit_def bitmap_fast_set_bit_def and_7 mult.commute)
  moreover have "bitset ?m = insert b (bitset m)" using assms(2) bs i by (auto simp: bitset_def bit_of_set)
  ultimately show ?thesis using bs by (auto simp: bitmap_wf_def)
qed

lemma bitmap_clear_bit_ok:
  assumes "bitmap_wf m" "b < 8 * bitmap_size m"
  shows "\<exists>m'. bitmap_clear_bit m b = Some m' \<and> bitmap_wf m' \<and> bitmap_size m' = bitmap_size m \<and> bitset m' = bitset m - {b}"
proof -
  obtain bs where bs: "bitmap m = Some bs" "bitmap_size m \<le> length bs" using assms(1) by (rule bitmap_wfE)
  note i = index_ok[OF assms(2) bs(2)]
  let ?m = "m\<lparr>bitmap := Some (bs[b div 8 := bs ! (b div 8) AND NOT (push_bit (b mod 8) 1)])\<rparr>"
  have "bitmap_clear_bit m b = Some ?m" using assms(2) bs i by (simp add: bitmap_clear_bit_def bitmap_fast_clear_bit_def and_7 mult.commute)
  moreover have "bitset ?m = bitset m - {b}" using assms(2) bs i by (auto simp: bitset_def bit_of_clear)
  ultimately show ?thesis using bs by (auto simp: bitmap_wf_def)
qed

lemma bitmap_is_set_ok:
  assumes "bitmap_wf m" "b < 8 * bitmap_size m"
  shows "bitmap_is_set m b = Some (b \<in> bitset m)"
proof -
  obtain bs where bs: "bitmap m = Some bs" "bitmap_size m \<le> length bs" using assms(1) by (rule bitmap_wfE)
  show ?thesis using assms(2) bs index_ok[OF assms(2) bs(2)] test_bit[of "b mod 8" "bs ! (b div 8)"]
    by (simp add: bitmap_is_set_def bitmap_fast_is_set_def and_7 bitset_Some bit_of_def mult.commute)
qed

lemma bitmap_test_and_set_ok:
  assumes "bitmap_wf m" "b < 8 * bitmap_size m"
  shows "\<exists>m'. bitmap_test_and_set m b = Some (m', b \<in> bitset m) \<and> bitmap_wf m' \<and> bitmap_size m' = bitmap_size m \<and>
    bitset m' = insert b (bitset m)"
proof -
  have "bitmap_test_and_set m b = do { m' \<leftarrow> bitmap_set_bit m b; r \<leftarrow> bitmap_is_set m b; Some (m', r) }"
    by (cases "bitmap m") (auto simp: bitmap_test_and_set_def bitmap_fast_test_and_set_def bitmap_set_bit_def bitmap_is_set_def
        bitmap_fast_set_bit_def bitmap_fast_is_set_def Let_def aget_def aset_def)
  then show ?thesis using bitmap_set_bit_ok[OF assms] bitmap_is_set_ok[OF assms] by auto
qed

text \<open>A user of single bits: adding a series of bits leaves their set.\<close>

locale bit_store =
  fixes inv :: "'m \<Rightarrow> bool" and room :: "'m \<Rightarrow> nat" and elems :: "'m \<Rightarrow> nat set"
    and add :: "'m \<Rightarrow> nat \<Rightarrow> 'm option" and del :: "'m \<Rightarrow> nat \<Rightarrow> 'm option" and has :: "'m \<Rightarrow> nat \<Rightarrow> bool option"
  assumes add_ok: "inv m \<Longrightarrow> b < room m \<Longrightarrow> \<exists>m'. add m b = Some m' \<and> inv m' \<and> room m' = room m \<and> elems m' = insert b (elems m)"
    and del_ok: "inv m \<Longrightarrow> b < room m \<Longrightarrow> \<exists>m'. del m b = Some m' \<and> inv m' \<and> room m' = room m \<and> elems m' = elems m - {b}"
    and has_ok: "inv m \<Longrightarrow> b < room m \<Longrightarrow> has m b = Some (b \<in> elems m)"
begin

lemma add_all:
  "inv m \<Longrightarrow> \<forall>b \<in> set bs. b < room m \<Longrightarrow>
    \<exists>m'. fold (\<lambda>b r. Option.bind r (\<lambda>m. add m b)) bs (Some m) = Some m' \<and> inv m' \<and> room m' = room m \<and> elems m' = elems m \<union> set bs"
proof (induction bs arbitrary: m)
  case (Cons b bs)
  obtain m1 where m1: "add m b = Some m1" "inv m1" "room m1 = room m" "elems m1 = insert b (elems m)"
    using add_ok[of m b] Cons.prems by auto
  obtain m2 where "fold (\<lambda>b r. Option.bind r (\<lambda>m. add m b)) bs (Some m1) = Some m2" "inv m2" "room m2 = room m1"
      "elems m2 = elems m1 \<union> set bs"
    using Cons.IH[OF m1(2)] Cons.prems m1(3) by auto
  then show ?case using m1 by auto
qed simp

lemma has_after_add: "inv m \<Longrightarrow> b < room m \<Longrightarrow> c < room m \<Longrightarrow> Option.bind (add m b) (\<lambda>m. has m c) = Some (c = b \<or> c \<in> elems m)"
  using add_ok[of m b] has_ok by fastforce

end

interpretation bits: bit_store bitmap_wf "\<lambda>m. 8 * bitmap_size m" bitset bitmap_set_bit bitmap_clear_bit bitmap_is_set
  by unfold_locales (use bitmap_set_bit_ok bitmap_clear_bit_ok bitmap_is_set_ok in auto)

subsection \<open>Bytes\<close>

lemma uchar_eqI: "(\<And>k. k < 8 \<Longrightarrow> bit x k = bit y k) \<Longrightarrow> x = (y :: uchar)"
  by (rule bit_word_eqI) simp

lemma bit_255_int [simp]: "bit (255 :: int) k \<longleftrightarrow> k < 8"
  using bit_mask_iff[where 'a = int, of 8 k] by (simp add: mask_eq_exp_minus_1)

lemma bit_255_nat [simp]: "bit (255 :: nat) k \<longleftrightarrow> k < 8"
  using bit_mask_iff[where 'a = nat, of 8 k] by (simp add: mask_eq_exp_minus_1)

lemma bit_255: "bit (255 :: uchar) k \<longleftrightarrow> k < 8"
  by simp

lemma bytes_eq_iff:
  "(\<forall>j < s. bs ! j = (f j :: uchar)) \<longleftrightarrow> (\<forall>i < 8 * s. bit_of bs i = bit (f (i div 8)) (i mod 8))" (is "?l = ?r")
proof
  show "?l \<Longrightarrow> ?r" by (auto simp: bit_of_def less_mult_imp_div_less mult.commute)
  assume r: ?r
  show ?l
  proof (intro allI impI uchar_eqI)
    fix j k assume "j < s" "k < (8::nat)"
    then show "bit (bs ! j) k = bit (f j) k" using r[rule_format, of "8 * j + k"] by (simp add: bit_of_def)
  qed
qed

text \<open>The byte \<open>j\<close> of a map in which exactly the first \<open>n\<close> bits are set.\<close>

definition prefix_byte :: "nat \<Rightarrow> nat \<Rightarrow> uchar" where
  "prefix_byte n j = mask (min 8 (n - 8 * j))"

lemma bit_prefix_byte: "k < 8 \<Longrightarrow> bit (prefix_byte n j) k \<longleftrightarrow> 8 * j + k < n"
  by (auto simp: prefix_byte_def bit_mask_iff possible_bit_def)

lemma prefix_bytes: "(\<forall>j < s. bs ! j = prefix_byte n j) \<longleftrightarrow> (\<forall>i < 8 * s. bit_of bs i \<longleftrightarrow> i < n)"
  unfolding bytes_eq_iff by (simp add: bit_prefix_byte)

lemma prefix_byte_full: "j < n div 8 \<Longrightarrow> prefix_byte n j = 255"
proof (intro uchar_eqI)
  fix k :: nat assume "j < n div 8" "k < 8"
  then have "8 * j + k < n" by linarith
  then show "bit (prefix_byte n j) k = bit (255 :: uchar) k" using \<open>k < 8\<close> bit_255[of k] bit_prefix_byte[of k n j] by blast
qed

lemma prefix_byte_empty: "n \<le> 8 * j \<Longrightarrow> prefix_byte n j = 0"
  by (simp add: prefix_byte_def)

lemma prefix_byte_part: "prefix_byte n (n div 8) = push_bit (n mod 8) 1 - 1"
proof -
  have "n - 8 * (n div 8) = n mod 8" by (simp add: minus_mult_div_eq_mod)
  moreover have "min 8 (n mod 8) = n mod 8" by simp
  ultimately show ?thesis by (simp only: prefix_byte_def) (simp add: mask_eq_exp_minus_1)
qed

lemma memset_range_ok:
  assumes "i + n \<le> length m"
  shows "\<exists>r. memset_range m i c n = Some r \<and> length r = length m \<and> (\<forall>j < length m. r ! j = (if i \<le> j \<and> j < i + n then c else m ! j))"
  using assms by (auto simp: memset_range_def put_bytes_def nth_append)

lemma range_step: "i < e \<Longrightarrow> (\<forall>j. i \<le> j \<and> j < e \<longrightarrow> P j) \<longleftrightarrow> P i \<and> (\<forall>j. i + 1 \<le> j \<and> j < (e::nat) \<longrightarrow> P j)"
  by (metis Suc_eq_plus1 Suc_leD Suc_leI le_neq_implies_less order_refl)

lemma all_bytes_ok: "e \<le> length m \<Longrightarrow> all_bytes m i e c = Some (\<forall>j. i \<le> j \<and> j < e \<longrightarrow> m ! j = c)"
proof (induction m i e c rule: all_bytes.induct)
  case (1 m i e c)
  show ?case
  proof (cases "i < e")
    case True
    show ?thesis using 1 True by (subst all_bytes.simps) (simp add: range_step[OF True] del: One_nat_def)
  qed (auto simp: all_bytes.simps)
qed

lemma combine_loop_ok:
  "e \<le> length to \<Longrightarrow> e \<le> length from \<Longrightarrow>
    \<exists>r. combine_loop f to from i e = Some r \<and> length r = length to \<and>
      (\<forall>j < length to. r ! j = (if i \<le> j \<and> j < e then f (to ! j) (from ! j) else to ! j))"
proof (induction f to "from" i e rule: combine_loop.induct)
  case (1 f to "from" i e)
  show ?case
  proof (cases "i < e")
    case True
    obtain r where "combine_loop f (to[i := f (to ! i) (from ! i)]) from (i + 1) e = Some r" "length r = length to"
      "\<forall>j < length to. r ! j = (if i + 1 \<le> j \<and> j < e then f (to[i := f (to ! i) (from ! i)] ! j) (from ! j)
         else to[i := f (to ! i) (from ! i)] ! j)"
      using 1 True by force
    then show ?thesis using "1.prems" True by (subst combine_loop.simps) (auto simp: nth_list_update not_less_eq_eq dest: le_antisym)
  qed (auto simp: combine_loop.simps)
qed

lemma is_subset_loop_ok:
  "e \<le> length m1 \<Longrightarrow> e \<le> length m2 \<Longrightarrow>
    is_subset_loop m1 m2 i e = Some (\<forall>j. i \<le> j \<and> j < e \<longrightarrow> m1 ! j AND NOT (m2 ! j) = 0)"
proof (induction m1 m2 i e rule: is_subset_loop.induct)
  case (1 m1 m2 i e)
  show ?case
  proof (cases "i < e")
    case True
    show ?thesis using 1 True by (subst is_subset_loop.simps) (simp add: range_step[OF True] del: One_nat_def)
  qed (auto simp: is_subset_loop.simps)
qed

subsection \<open>Whole maps\<close>

lemma bitmap_updated:
  assumes "bitmap m = Some bs" "bitmap_size m \<le> length bs" "length r = length bs"
    and "\<And>i. i < 8 * bitmap_size m \<Longrightarrow> bit_of r i \<longleftrightarrow> i \<in> S"
  shows "bitmap_wf (m\<lparr>bitmap := Some r\<rparr>)" "bitset (m\<lparr>bitmap := Some r\<rparr>) = {i \<in> S. i < 8 * bitmap_size m}"
  using assms by (auto simp: bitmap_wf_def bitset_def)

lemma div_8_less: "n \<le> 8 * s \<Longrightarrow> n mod 8 \<noteq> 0 \<Longrightarrow> n div 8 < (s::nat)"
  by presburger

lemma range_split: "p \<le> s \<Longrightarrow> (\<forall>j < s. P j) \<longleftrightarrow> (\<forall>j < p. P j) \<and> (\<forall>j. p \<le> j \<and> j < (s::nat) \<longrightarrow> P j)"
  by (meson linorder_not_le order_less_le_trans)

text \<open>The three writes of \<open>bitmap_set_prefix\<close>.\<close>

definition prefix_fill :: "uchar list \<Rightarrow> nat \<Rightarrow> nat \<Rightarrow> uchar list option" where
  "prefix_fill bs s n = do {
      m \<leftarrow> (if n div 8 \<noteq> 0 then memset_range bs 0 255 (n div 8) else Some bs);
      (m, p) \<leftarrow> (if n mod 8 \<noteq> 0 then do { m \<leftarrow> aset m (n div 8) (push_bit (n mod 8) 1 - 1); Some (m, n div 8 + 1) }
        else Some (m, n div 8));
      if p < s then memset_range m p 0 (s - p) else Some m }"

lemma prefix_fill_ok:
  assumes n: "n \<le> s * 8" and s: "s \<le> length bs"
  shows "\<exists>r. prefix_fill bs s n = Some r \<and> length r = length bs \<and> (\<forall>j < s. r ! j = prefix_byte n j)"
proof -
  define p where "p = n div 8"
  have p: "p \<le> s" "n mod 8 \<noteq> 0 \<Longrightarrow> p < s" using n div_8_less[of n s] by (auto simp: p_def mult.commute)
  obtain m1 where m1: "(if p \<noteq> 0 then memset_range bs 0 255 p else Some bs) = Some m1" "length m1 = length bs"
      "\<forall>j < p. m1 ! j = 255"
    using memset_range_ok[of 0 p bs 255] p s by (cases "p = 0") auto
  obtain m2 p2 where m2: "(if n mod 8 \<noteq> 0 then do { m \<leftarrow> aset m1 p (push_bit (n mod 8) 1 - 1); Some (m, p + 1) } else Some (m1, p)) = Some (m2, p2)"
      "length m2 = length bs" "p2 \<le> s" "n \<le> 8 * p2" "\<forall>j < p2. m2 ! j = prefix_byte n j"
    using m1 p s prefix_byte_part[of n] prefix_byte_full[of _ n]
    by (cases "n mod 8 = 0") (auto simp: p_def nth_list_update less_Suc_eq)
  obtain r where r: "(if p2 < s then memset_range m2 p2 0 (s - p2) else Some m2) = Some r" "length r = length bs"
      "\<forall>j < length bs. r ! j = (if p2 \<le> j \<and> j < s then 0 else m2 ! j)"
  proof (cases "p2 < s")
    case True
    then show thesis using that memset_range_ok[of p2 "s - p2" m2 0] m2(2,3) s by auto
  next
    case False
    then have "(if p2 \<le> j \<and> j < s then 0 else m2 ! j) = m2 ! j" for j by auto
    then show thesis using that[of m2] False m2(2) by simp
  qed
  have "\<forall>j < s. r ! j = prefix_byte n j"
    using r(3) m2(4,5) s by (auto simp: prefix_byte_empty)
  moreover have "prefix_fill bs s n = Some r"
    unfolding prefix_fill_def p_def[symmetric] m1(1) Option.bind.bind_lunit m2(1) by (simp add: r(1))
  ultimately show ?thesis using r(2) by blast
qed

lemma bitmap_set_prefix_ok:
  assumes "bitmap_wf m" "unat n \<le> 8 * bitmap_size m \<or> n = NOT 0"
  shows "\<exists>m'. bitmap_set_prefix m n = Some m' \<and> bitmap_wf m' \<and> bitmap_size m' = bitmap_size m \<and>
    bitset m' = {i. i < unat n \<and> i < 8 * bitmap_size m}"
proof -
  obtain bs where bs: "bitmap m = Some bs" "bitmap_size m \<le> length bs" using assms(1) by (rule bitmap_wfE)
  define k where "k = min (unat n) (bitmap_size m * 8)"
  have c: "unat n \<le> bitmap_size m * 8 \<or> n = NOT 0" using assms(2) by (simp add: mult.commute)
  have eq: "bitmap_set_prefix m n = Option.bind (prefix_fill bs (bitmap_size m) k) (\<lambda>r. Some (m\<lparr>bitmap := Some r\<rparr>))"
    unfolding bitmap_set_prefix_def if_P[OF c] prefix_fill_def bs(1) k_def[symmetric]
    by (simp add: and_7 Let_def bind_assoc case_prod_unfold)
  obtain r where "prefix_fill bs (bitmap_size m) k = Some r" "length r = length bs" "\<forall>j < bitmap_size m. r ! j = prefix_byte k j"
    using prefix_fill_ok[of k "bitmap_size m" bs] bs by (auto simp: k_def)
  with eq have r: "bitmap_set_prefix m n = Some (m\<lparr>bitmap := Some r\<rparr>)" "length r = length bs" "\<forall>j < bitmap_size m. r ! j = prefix_byte k j"
    by auto
  have "bit_of r i \<longleftrightarrow> i \<in> {..<k}" if "i < 8 * bitmap_size m" for i using r(3)[unfolded prefix_bytes] that by simp
  note u = bitmap_updated[OF bs r(2) this]
  have "{i \<in> {..<k}. i < 8 * bitmap_size m} = {i. i < unat n \<and> i < 8 * bitmap_size m}" unfolding k_def by auto
  then show ?thesis using r(1) u by simp
qed

lemma bitmap_is_prefix_ok:
  assumes "bitmap_wf m" "n \<le> 8 * bitmap_size m"
  shows "bitmap_is_prefix m n = Some (bitset m = {..<n})"
proof -
  obtain bs where bs: "bitmap m = Some bs" "bitmap_size m \<le> length bs" using assms(1) by (rule bitmap_wfE)
  let ?s = "bitmap_size m" let ?p = "n div 8"
  have p: "?p \<le> ?s" "n mod 8 \<noteq> 0 \<Longrightarrow> ?p < ?s" using assms(2) div_8_less[of n ?s] by auto
  let ?r = "\<lambda>k. \<forall>j. k \<le> j \<and> j < ?s \<longrightarrow> bs ! j = prefix_byte n j"
  have full: "all_bytes bs 0 ?p 255 = Some (\<forall>j < ?p. bs ! j = prefix_byte n j)"
    using p bs(2) by (simp add: all_bytes_ok prefix_byte_full)
  have empty: "all_bytes bs k ?s 0 = Some (?r k)" if "n \<le> 8 * k" for k
    using bs(2) that prefix_byte_empty[of n] by (auto simp: all_bytes_ok)
  have "bitmap_is_prefix m n = Some (\<forall>j < ?s. bs ! j = prefix_byte n j)"
  proof (cases "n mod 8 = 0")
    case True
    then have "n \<le> 8 * ?p" by auto
    then show ?thesis using assms(2) bs True full empty by (auto simp: bitmap_is_prefix_def and_7 mult.commute range_split[OF p(1)])
  next
    case False
    have "n \<le> 8 * (?p + 1)" by simp
    note e = empty[OF this]
    show ?thesis using assms(2) bs False full e range_step[OF p(2)[OF False], of "\<lambda>j. bs ! j = prefix_byte n j"] prefix_byte_part[of n] p(2)
      by (simp add: bitmap_is_prefix_def and_7 mult.commute range_split[OF p(1)] Let_def del: One_nat_def)
  qed
  moreover have "(\<forall>j < ?s. bs ! j = prefix_byte n j) \<longleftrightarrow> bitset m = {..<n}"
    unfolding prefix_bytes using assms(2) bs by (auto simp: bitset_def set_eq_iff)
  ultimately show ?thesis by simp
qed

subsection \<open>Two maps\<close>

lemma combine_bits:
  assumes "e \<le> length to" "e \<le> length from"
  shows "\<exists>r. combine_loop f to from 0 e = Some r \<and> length r = length to \<and>
    (\<forall>i < 8 * e. bit_of r i = bit (f (to ! (i div 8)) (from ! (i div 8))) (i mod 8)) \<and> (\<forall>j. e \<le> j \<and> j < length to \<longrightarrow> r ! j = to ! j)"
proof -
  obtain r where r: "combine_loop f to from 0 e = Some r" "length r = length to"
      "\<forall>j < length to. r ! j = (if j < e then f (to ! j) (from ! j) else to ! j)"
    using combine_loop_ok[OF assms, of f 0] by auto
  then have "bit_of r i = bit (f (to ! (i div 8)) (from ! (i div 8))) (i mod 8)" if "i < 8 * e" for i
    using that assms by (simp add: bit_of_def less_mult_imp_div_less mult.commute)
  then show ?thesis using r by auto
qed

lemma same_size_op:
  assumes "bitmap_wf m" "bitmap_wf m2" "bitmap_size m2 = bitmap_size m"
    and f: "\<And>x y k. k < 8 \<Longrightarrow> bit (f x y :: uchar) k = g (bit x k) (bit y k)"
  shows "\<exists>m'. (do { to \<leftarrow> bitmap m; from \<leftarrow> bitmap m2; to \<leftarrow> combine_loop f to from 0 (bitmap_size m); Some (m\<lparr>bitmap := Some to\<rparr>) }) = Some m' \<and>
    bitmap_wf m' \<and> bitmap_size m' = bitmap_size m \<and> bitset m' = {i. i < 8 * bitmap_size m \<and> g (i \<in> bitset m) (i \<in> bitset m2)}"
proof -
  obtain bs where bs: "bitmap m = Some bs" "bitmap_size m \<le> length bs" using assms(1) by (rule bitmap_wfE)
  obtain cs where cs: "bitmap m2 = Some cs" "bitmap_size m2 \<le> length cs" using assms(2) by (rule bitmap_wfE)
  obtain r where r: "combine_loop f bs cs 0 (bitmap_size m) = Some r" "length r = length bs"
      "\<forall>i < 8 * bitmap_size m. bit_of r i = g (bit_of bs i) (bit_of cs i)"
    using combine_bits[of "bitmap_size m" bs cs f] bs(2) cs(2) assms(3) f by (auto simp: bit_of_def)
  have "bit_of r i \<longleftrightarrow> i \<in> {i. g (i \<in> bitset m) (i \<in> bitset m2)}" if "i < 8 * bitmap_size m" for i
    using r(3) that by (simp add: bitset_Some[OF bs(1)] bitset_Some[OF cs(1)] assms(3))
  note u = bitmap_updated[OF bs r(2) this]
  show ?thesis using r(1) bs(1) cs(1) u by (simp add: conj_commute)
qed

lemma bitset_bound: "i \<in> bitset m \<Longrightarrow> i < 8 * bitmap_size m"
  by (simp add: bitset_def)

lemma bitmap_union_ok:
  assumes "bitmap_wf m" "bitmap_wf m2" "bitmap_size m2 = bitmap_size m"
  shows "\<exists>m'. bitmap_union m m2 = Some m' \<and> bitmap_wf m' \<and> bitmap_size m' = bitmap_size m \<and> bitset m' = bitset m \<union> bitset m2"
proof -
  have "{i. i < 8 * bitmap_size m \<and> (i \<in> bitset m \<or> i \<in> bitset m2)} = bitset m \<union> bitset m2"
    using bitset_bound[of _ m] bitset_bound[of _ m2] assms(3) by auto
  then show ?thesis using same_size_op[OF assms, of "(OR)" "(\<or>)"] assms(3) by (simp add: bitmap_union_def bit_or_iff)
qed

lemma bitmap_subtract_ok:
  assumes "bitmap_wf m" "bitmap_wf m2" "bitmap_size m2 = bitmap_size m"
  shows "\<exists>m'. bitmap_subtract m m2 = Some m' \<and> bitmap_wf m' \<and> bitmap_size m' = bitmap_size m \<and> bitset m' = bitset m - bitset m2"
proof -
  have "{i. i < 8 * bitmap_size m \<and> (i \<in> bitset m \<and> \<not> i \<in> bitset m2)} = bitset m - bitset m2"
    using bitset_bound[of _ m] by auto
  moreover have "bit (x AND NOT y) k = (bit x k \<and> \<not> bit y k)" if "k < 8" for x y :: uchar and k
    using that by (simp add: bit_simps)
  ultimately show ?thesis using same_size_op[OF assms, of "\<lambda>x y. x AND NOT y" "\<lambda>a b. a \<and> \<not> b"] assms(3) by (simp add: bitmap_subtract_def)
qed

lemma bitmap_intersect_ok:
  assumes "bitmap_wf m" "bitmap_wf m2"
  shows "\<exists>m'. bitmap_intersect m m2 = Some m' \<and> bitmap_wf m' \<and> bitmap_size m' = bitmap_size m \<and> bitset m' = bitset m \<inter> bitset m2"
proof -
  obtain bs where bs: "bitmap m = Some bs" "bitmap_size m \<le> length bs" using assms(1) by (rule bitmap_wfE)
  obtain cs where cs: "bitmap m2 = Some cs" "bitmap_size m2 \<le> length cs" using assms(2) by (rule bitmap_wfE)
  define n n2 e where "n = bitmap_size m" and "n2 = bitmap_size m2" and "e = min n n2"
  obtain r where r: "combine_loop (AND) bs cs 0 e = Some r" "length r = length bs" "\<forall>i < 8 * e. bit_of r i \<longleftrightarrow> bit_of bs i \<and> bit_of cs i"
  proof -
    have "e \<le> length bs" "e \<le> length cs" using bs(2) cs(2) by (auto simp: e_def n_def n2_def)
    from combine_bits[OF this, of "(AND)"] show thesis using that by (auto simp: bit_of_def bit_and_iff)
  qed
  obtain q where q: "(if n2 < n then memset_range r e 0 (n - n2) else Some r) = Some q" "length q = length bs"
      "\<forall>j < n. q ! j = (if j < e then r ! j else 0)"
  proof (cases "n2 < n")
    case True
    then show thesis using that memset_range_ok[of e "n - n2" r 0] r(2) bs(2) by (auto simp: e_def n_def)
  next
    case False
    then show thesis using that[of r] r(2) by (simp add: e_def)
  qed
  have "bit_of q i \<longleftrightarrow> i \<in> bitset m \<inter> bitset m2" if "i < 8 * bitmap_size m" for i
  proof -
    have "i div 8 < n" "i div 8 < e \<longleftrightarrow> i < 8 * e" using that by (auto simp: n_def less_mult_imp_div_less)
    then show ?thesis using q(3) r(3) that by (auto simp: bitset_Some[OF bs(1)] bitset_Some[OF cs(1)] bit_of_def e_def n_def n2_def)
  qed
  note u = bitmap_updated[OF bs q(2) this]
  have "bitmap_intersect m m2 = Some (m\<lparr>bitmap := Some q\<rparr>)"
    unfolding bitmap_intersect_def Let_def n_def[symmetric] n2_def[symmetric] e_def[symmetric] bs(1) cs(1) Option.bind.bind_lunit r(1) q(1) ..
  then show ?thesis using u bitset_bound[of _ m] by auto
qed

lemma bitmap_is_subset_ok:
  assumes "bitmap_wf m" "bitmap_wf m2" "bitmap_size m2 = bitmap_size m"
  shows "bitmap_is_subset m m2 = Some (bitset m \<subseteq> bitset m2)"
proof -
  obtain bs where bs: "bitmap m = Some bs" "bitmap_size m \<le> length bs" using assms(1) by (rule bitmap_wfE)
  obtain cs where cs: "bitmap m2 = Some cs" "bitmap_size m2 \<le> length cs" using assms(2) by (rule bitmap_wfE)
  have "(\<forall>j < bitmap_size m. bs ! j AND NOT (cs ! j) = 0) \<longleftrightarrow> (\<forall>j < bitmap_size m. bs ! j = bs ! j AND cs ! j)"
    by (auto simp: bit_eq_iff bit_simps)
  also have "\<dots> \<longleftrightarrow> bitset m \<subseteq> bitset m2"
    unfolding bytes_eq_iff using assms(3) by (auto simp: bitset_Some[OF bs(1)] bitset_Some[OF cs(1)] bit_of_def bit_and_iff)
  finally show ?thesis using bs cs assms(3) by (simp add: bitmap_is_subset_def is_subset_loop_ok)
qed

lemma bitmap_cmp_ok:
  assumes "bitmap_wf m" "bitmap_wf m2" "bitmap_size m2 = bitmap_size m"
  shows "bitmap_cmp m m2 = Some (bitset m = bitset m2)"
proof -
  obtain bs where bs: "bitmap m = Some bs" "bitmap_size m \<le> length bs" using assms(1) by (rule bitmap_wfE)
  obtain cs where cs: "bitmap m2 = Some cs" "bitmap_size m2 \<le> length cs" using assms(2) by (rule bitmap_wfE)
  have "take (bitmap_size m) bs = take (bitmap_size m) cs \<longleftrightarrow> (\<forall>j < bitmap_size m. bs ! j = cs ! j)"
    using bs(2) cs(2) assms(3) by (auto simp: list_eq_iff_nth_eq)
  also have "\<dots> \<longleftrightarrow> bitset m = bitset m2"
    unfolding bytes_eq_iff using assms(3) by (auto simp: bitset_Some[OF bs(1)] bitset_Some[OF cs(1)] bit_of_def set_eq_iff)
  finally show ?thesis using bs cs assms(3) by (simp add: bitmap_cmp_def get_bytes_def arr_slice_def)
qed

subsection \<open>The first clear bit\<close>

lemma free_bit_ok:
  "b \<le> k \<Longrightarrow> k < b + fuel \<Longrightarrow> \<not> bit x k \<Longrightarrow> \<forall>c. b \<le> c \<and> c < k \<longrightarrow> bit x c \<Longrightarrow> free_bit fuel x b = Some k"
proof (induction fuel x b rule: free_bit.induct)
  case (2 fuel x b)
  show ?case
  proof (cases "b = k")
    case True
    then show ?thesis using 2 and_exp_eq_0_iff_not_bit[of x k] by (simp add: push_bit_eq_mult)
  next
    case False
    then have "bit x b" using 2 by simp
    then show ?thesis using 2 False and_exp_eq_0_iff_not_bit[of x b] by (simp add: push_bit_eq_mult)
  qed
qed simp

lemma first_clear_in_byte:
  assumes "x \<noteq> 255"
  obtains k where "k < 8" "\<not> bit x k" "\<forall>c < k. bit x c" "free_bit 32 x 0 = Some k"
proof -
  obtain k0 where k0: "k0 < 8" "\<not> bit x k0" using assms uchar_eqI[of x 255] bit_255 by blast
  define k where "k = (LEAST k. \<not> bit x k)"
  have k: "\<not> bit x k" "k \<le> k0" "\<forall>c < k. bit x c"
    unfolding k_def using LeastI[of "\<lambda>k. \<not> bit x k" k0] Least_le[of "\<lambda>k. \<not> bit x k" k0] not_less_Least k0 by auto
  then show thesis using that[of k] k0 free_bit_ok[of 0 k 32 x] by simp
qed

lemma get_first_loop_ok:
  "n \<le> length m \<Longrightarrow> (\<forall>j. i \<le> j \<and> j < n \<longrightarrow> m ! j = 255) \<and> get_first_loop m i n = Some None \<or>
    (\<exists>k b. get_first_loop m i n = Some (Some (k, b)) \<and> i \<le> k \<and> k < n \<and> (\<forall>j. i \<le> j \<and> j < k \<longrightarrow> m ! j = 255) \<and>
      b < 8 \<and> \<not> bit (m ! k) b \<and> (\<forall>c < b. bit (m ! k) c))"
proof (induction m i n rule: get_first_loop.induct)
  case (1 m i n)
  consider "\<not> i < n" | "i < n" "m ! i \<noteq> 255" | "i < n" "m ! i = 255" by blast
  then show ?case
  proof cases
    case 1
    then show ?thesis by (auto simp: get_first_loop.simps)
  next
    case 2
    obtain k where "k < 8" "\<not> bit (m ! i) k" "\<forall>c < k. bit (m ! i) c" "free_bit 32 (m ! i) 0 = Some k"
      using 2(2) by (rule first_clear_in_byte)
    then have "get_first_loop m i n = Some (Some (i, k))" using 2 "1.prems" by (subst get_first_loop.simps) simp
    then show ?thesis using \<open>k < 8\<close> \<open>\<not> bit (m ! i) k\<close> \<open>\<forall>c < k. bit (m ! i) c\<close> 2 by auto
  next
    case 3
    have eq: "get_first_loop m i n = get_first_loop m (i + 1) n" using 3 "1.prems" by (subst get_first_loop.simps) simp
    have step: "(\<forall>j. i \<le> j \<and> j < l \<longrightarrow> m ! j = 255) \<longleftrightarrow> (\<forall>j. i + 1 \<le> j \<and> j < l \<longrightarrow> m ! j = 255)" if "i < l" for l
      using range_step[OF that, of "\<lambda>j. m ! j = 255"] 3(2) by blast
    have "(\<forall>j. i + 1 \<le> j \<and> j < n \<longrightarrow> m ! j = 255) \<and> get_first_loop m (i + 1) n = Some None \<or>
      (\<exists>k b. get_first_loop m (i + 1) n = Some (Some (k, b)) \<and> i + 1 \<le> k \<and> k < n \<and> (\<forall>j. i + 1 \<le> j \<and> j < k \<longrightarrow> m ! j = 255) \<and>
        b < 8 \<and> \<not> bit (m ! k) b \<and> (\<forall>c < b. bit (m ! k) c))" using "1.IH"[of "m ! i"] 3 "1.prems" by simp
    then show ?thesis unfolding eq
    proof (elim disjE conjE exE)
      fix k b assume "i + 1 \<le> k" "\<forall>j. i + 1 \<le> j \<and> j < k \<longrightarrow> m ! j = 255"
      then have "i \<le> k" "\<forall>j. i \<le> j \<and> j < k \<longrightarrow> m ! j = 255" using step[of k] by auto
      moreover assume "get_first_loop m (i + 1) n = Some (Some (k, b))" "k < n" "b < 8" "\<not> bit (m ! k) b" "\<forall>c < b. bit (m ! k) c"
      ultimately show "(\<forall>j. i \<le> j \<and> j < n \<longrightarrow> m ! j = 255) \<and> get_first_loop m (i + 1) n = Some None \<or>
        (\<exists>k b. get_first_loop m (i + 1) n = Some (Some (k, b)) \<and> i \<le> k \<and> k < n \<and> (\<forall>j. i \<le> j \<and> j < k \<longrightarrow> m ! j = 255) \<and>
          b < 8 \<and> \<not> bit (m ! k) b \<and> (\<forall>c < b. bit (m ! k) c))" by blast
    qed (use step[OF 3(1)] in blast)
  qed
qed

text \<open>In terms of bits: the loop stops at the least clear bit, if there is one below \<open>8 * n\<close>.\<close>

lemma get_first_bits:
  assumes "n \<le> length m"
  shows "(\<forall>i < 8 * n. bit_of m i) \<and> get_first_loop m 0 n = Some None \<or>
    (\<exists>k b. get_first_loop m 0 n = Some (Some (k, b)) \<and> b < 8 \<and> k * 8 + b < 8 * n \<and> \<not> bit_of m (k * 8 + b) \<and> (\<forall>i < k * 8 + b. bit_of m i))"
  using get_first_loop_ok[OF assms, of 0]
proof (elim disjE conjE exE)
  assume "\<forall>j. 0 \<le> j \<and> j < n \<longrightarrow> m ! j = 255" "get_first_loop m 0 n = Some None"
  then show ?thesis using bit_255 by (auto simp: bit_of_def less_mult_imp_div_less mult.commute)
next
  fix k b
  assume *: "get_first_loop m 0 n = Some (Some (k, b))" "k < n" "\<forall>j. 0 \<le> j \<and> j < k \<longrightarrow> m ! j = 255" "b < 8"
    "\<not> bit (m ! k) b" "\<forall>c < b. bit (m ! k) c"
  have "bit_of m i" if "i < k * 8 + b" for i
  proof (cases "i div 8 < k")
    case False
    then have d: "i div 8 = k" using that *(4) by linarith
    then have "i mod 8 < b" using that div_mult_mod_eq[of i 8] by simp
    with d show ?thesis using *(6) by (simp add: bit_of_def)
  qed (use *(3) bit_255 in \<open>auto simp: bit_of_def\<close>)
  moreover have "\<not> bit_of m (k * 8 + b)" "k * 8 + b < 8 * n" using * by (auto simp: bit_of_def)
  ultimately show ?thesis using *(1,4) by blast
qed

subsection \<open>Counting\<close>

primrec count_table :: "nat \<Rightarrow> nat list" where
  "count_table 0 = [0]"
| "count_table (Suc k) = count_table k @ map Suc (count_table k)"

lemma length_count_table [simp]: "length (count_table k) = 2 ^ k"
  by (induction k) auto

lemma count_table_nth: "n < 2 ^ k \<Longrightarrow> count_table k ! n = length (filter (bit n) [0..<k])"
proof (induction k arbitrary: n)
  case (Suc k)
  show ?case
  proof (cases "n < 2 ^ k")
    case True
    then show ?thesis using Suc.IH by (simp add: nth_append bit_iff_odd)
  next
    case False
    let ?n = "n - 2 ^ k"
    have n: "?n < 2 ^ k" "n = ?n + 2 ^ k" using False Suc.prems by auto
    then have t: "take_bit k n = ?n" by (metis mod_add_self2 mod_less take_bit_eq_mod)
    have "n div 2 ^ k = 1" using n by (metis div_add_self2 div_less power_not_zero zero_neq_numeral add_0)
    moreover have "filter (bit n) [0..<k] = filter (bit ?n) [0..<k]" unfolding t[symmetric] by (rule filter_cong) (auto simp: bit_take_bit_iff)
    ultimately show ?thesis using False n Suc.IH[of ?n] by (simp add: nth_append bit_iff_odd[of n k])
  qed
qed simp

lemma count_table_numeral: "count_table (numeral v) = count_table (pred_numeral v) @ map Suc (count_table (pred_numeral v))"
  by (simp add: numeral_eq_Suc)

lemma nbits_count_table: "nbits = count_table 8"
  by (simp add: nbits_def count_table_numeral)

lemma length_nbits: "length nbits = 256"
  by (simp add: nbits_count_table)

lemma unat_uchar_lt: "unat (x :: uchar) < 256"
  using unsigned_less[of x] by simp

lemma nbits_ok: "nbits ! unat (x :: uchar) = length (filter (bit x) [0..<8])"
proof -
  have "nbits ! unat x = length (filter (bit (unat x)) [0..<8])"
    unfolding nbits_count_table by (rule count_table_nth) (use unat_uchar_lt in simp)
  moreover have "filter (bit (unat x)) [0..<8] = filter (bit x) [0..<8]" by (rule filter_cong) (auto simp: bit_unsigned_iff)
  ultimately show ?thesis by presburger
qed

lemma card_filter_upt: "card {i. i < n \<and> P i} = length (filter P [0..<n])"
proof -
  have "{i. i < n \<and> P i} = set (filter P [0..<n])" by auto
  then show ?thesis by (simp only: distinct_card distinct_filter distinct_upt)
qed

lemma filter_upt_add: "length (filter P [0..<a + b]) = length (filter P [0..<a]) + length (filter (\<lambda>k. P (a + k)) [0..<b])"
proof -
  have "[0..<a + b] = [0..<a] @ map (\<lambda>i. i + a) [0..<b]"
    using upt_add_eq_append[of 0 a b] map_add_upt[of a b] by (simp add: add.commute)
  then show ?thesis by (simp add: filter_map o_def add.commute)
qed

lemma unat_uchar_ushort: "unat (ucast (x :: uchar) :: uint16) = unat x"
  by (rule bit_eqI) (auto simp: bit_simps dest: bit_imp_le_length)

lemma bits_set_loop_ok:
  "e \<le> length m \<Longrightarrow> i \<le> e \<Longrightarrow> bits_set_loop m i e (length (filter (bit_of m) [0..<8 * i])) = Some (length (filter (bit_of m) [0..<8 * e]))"
proof (induction "e - i" arbitrary: i)
  case (Suc d)
  have "length (filter (bit_of m) [0..<8 * i + 8]) = length (filter (bit_of m) [0..<8 * i]) + nbits ! unat (m ! i)"
    unfolding filter_upt_add nbits_ok
    by (rule arg_cong[where f = "\<lambda>xs. _ + length xs"], rule filter_cong) (auto simp: bit_of_def)
  moreover have "unat (m ! i) < length nbits" unfolding length_nbits by (rule unat_uchar_lt)
  ultimately show ?case using Suc(1)[of "Suc i"] Suc(2-) by (subst bits_set_loop.simps) (simp add: my_count_bits_ushort_def unat_uchar_ushort add.commute)
qed (simp add: bits_set_loop.simps)

lemma bitmap_bits_set_ok:
  assumes "bitmap_wf m"
  shows "bitmap_bits_set m = Some (card (bitset m))"
proof -
  obtain bs where bs: "bitmap m = Some bs" "bitmap_size m \<le> length bs" using assms by (rule bitmap_wfE)
  then show ?thesis using bits_set_loop_ok[OF bs(2), of 0] by (simp add: bitmap_bits_set_def bitset_Some card_filter_upt)
qed

lemma nb_chunk: "nbits ! unat (ucast (drop_bit a (v :: ulonglong)) :: uchar) = length (filter (\<lambda>k. bit v (a + k)) [0..<8])"
  unfolding nbits_ok by (rule arg_cong[where f = length], rule filter_cong) (auto simp: bit_simps dest: bit_imp_le_length)

lemma my_bit_log2_loop_ok: "\<exists>d. my_bit_log2_loop v b = b + d \<and> 2 ^ d \<le> max 1 v \<and> v < 2 ^ (d + 1)"
proof (induction v b rule: my_bit_log2_loop.induct)
  case (1 v b)
  show ?case
  proof (cases "v > 1")
    case True
    then obtain d where d: "my_bit_log2_loop (v div 2) (b + 1) = b + 1 + d" "2 ^ d \<le> max 1 (v div 2)" "v div 2 < 2 ^ (d + 1)"
      using 1 by blast
    then have "2 ^ (d + 1) \<le> max 1 v" "v < 2 ^ (d + 1 + 1)" using True by (auto simp: max_def split: if_splits)
    then show ?thesis using True d(1) by (intro exI[of _ "d + 1"]) (simp add: my_bit_log2_loop.simps[of v b])
  qed (auto simp: my_bit_log2_loop.simps[of v b])
qed

lemma my_count_bits_ok: "my_count_bits v = card {i. i < 64 \<and> bit v i}"
proof -
  let ?c = "\<lambda>n. length (filter (bit v) [0..<n])"
  have step: "?c (n + 8) = ?c n + nbits ! unat (ucast (drop_bit n v) :: uchar)" for n
    unfolding filter_upt_add nb_chunk ..
  have "?c 64 \<le> 64" using length_filter_le[of "bit v" "[0..<64]"] by simp
  moreover have "?c 64 = nbits ! unat (ucast v :: uchar) + nbits ! unat (ucast (drop_bit 8 v) :: uchar) +
      nbits ! unat (ucast (drop_bit 16 v) :: uchar) + nbits ! unat (ucast (drop_bit 24 v) :: uchar) +
      nbits ! unat (ucast (drop_bit 32 v) :: uchar) + nbits ! unat (ucast (drop_bit 40 v) :: uchar) +
      nbits ! unat (ucast (drop_bit 48 v) :: uchar) + nbits ! unat (ucast (drop_bit 56 v) :: uchar)"
    using step[of 0] step[of 8] step[of 16] step[of 24] step[of 32] step[of 40] step[of 48] step[of 56] by simp
  ultimately have "my_count_bits v = ?c 64" unfolding my_count_bits_def Let_def drop_bit_drop_bit by simp
  then show ?thesis by (simp only: card_filter_upt)
qed

subsection \<open>The properties\<close>

text \<open>The result of an operation is a map of the same size that stands for \<open>S\<close>.\<close>

definition becomes :: "MY_BITMAP \<Rightarrow> MY_BITMAP option \<Rightarrow> nat set \<Rightarrow> bool" where
  "becomes m r S \<longleftrightarrow> (\<exists>m'. r = Some m' \<and> bitmap_wf m' \<and> bitmap_size m' = bitmap_size m \<and> bitset m' = S)"

text \<open>C24. The operations that change a bitmap are the operations on sets of bit numbers: setting, clearing and
  testing-and-setting a bit, setting a prefix, all or none of the bits, and union, intersection (with a
  map of any size) and difference with another map; none of them writes outside the buffer.\<close>

theorem bitmap_updates:
  assumes m: "bitmap_wf m" and m2: "bitmap_wf m2" "bitmap_size m2 = bitmap_size m" and m3: "bitmap_wf m3"
    and b: "b < 8 * bitmap_size m" and n: "unat n \<le> 8 * bitmap_size m" and big: "8 * bitmap_size m < 2 ^ 32"
  shows "becomes m (bitmap_set_bit m b) (insert b (bitset m)) \<and>
    becomes m (bitmap_clear_bit m b) (bitset m - {b}) \<and>
    becomes m (map_option fst (bitmap_test_and_set m b)) (insert b (bitset m)) \<and>
    map_option snd (bitmap_test_and_set m b) = Some (b \<in> bitset m) \<and>
    becomes m (bitmap_set_prefix m n) {..<unat n} \<and>
    becomes m (bitmap_set_all m) {..<8 * bitmap_size m} \<and>
    becomes m (bitmap_clear_all m) {} \<and>
    becomes m (bitmap_union m m2) (bitset m \<union> bitset m2) \<and>
    becomes m (bitmap_intersect m m3) (bitset m \<inter> bitset m3) \<and>
    becomes m (bitmap_subtract m m2) (bitset m - bitset m2)"
proof -
  have "unat (NOT 0 :: uint32) = 2 ^ 32 - 1" by (simp add: unsigned_minus_1_eq_mask mask_eq_exp_minus_1)
  then have all: "{i. i < unat (NOT 0 :: uint32) \<and> i < 8 * bitmap_size m} = {..<8 * bitmap_size m}" using big by auto
  have pre: "{i. i < unat n \<and> i < 8 * bitmap_size m} = {..<unat n}" using n by auto
  have "becomes m (bitmap_set_prefix m n) {..<unat n}" using bitmap_set_prefix_ok[OF m, of n] n by (simp add: becomes_def pre)
  moreover have "becomes m (bitmap_set_all m) {..<8 * bitmap_size m}"
    using bitmap_set_prefix_ok[OF m, of "NOT 0"] unfolding all by (simp add: becomes_def bitmap_set_all_def)
  moreover have "becomes m (bitmap_clear_all m) {}" using bitmap_set_prefix_ok[OF m, of 0] by (simp add: becomes_def bitmap_clear_all_def)
  moreover have "becomes m (bitmap_set_bit m b) (insert b (bitset m)) \<and> becomes m (bitmap_clear_bit m b) (bitset m - {b}) \<and>
      becomes m (map_option fst (bitmap_test_and_set m b)) (insert b (bitset m)) \<and>
      map_option snd (bitmap_test_and_set m b) = Some (b \<in> bitset m)"
    using bitmap_set_bit_ok[OF m b] bitmap_clear_bit_ok[OF m b] bitmap_test_and_set_ok[OF m b] by (auto simp: becomes_def)
  moreover have "becomes m (bitmap_union m m2) (bitset m \<union> bitset m2) \<and> becomes m (bitmap_intersect m m3) (bitset m \<inter> bitset m3) \<and>
      becomes m (bitmap_subtract m m2) (bitset m - bitset m2)"
    using bitmap_union_ok[OF m m2] bitmap_intersect_ok[OF m m3] bitmap_subtract_ok[OF m m2] by (simp add: becomes_def)
  ultimately show ?thesis by blast
qed

theorem bitmap_updates_witness:
  "becomes \<lparr>bitmap = Some [5, 1], bitmap_size = 2\<rparr> (bitmap_set_bit \<lparr>bitmap = Some [5, 1], bitmap_size = 2\<rparr> 9)
     (insert 9 (bitset \<lparr>bitmap = Some [5, 1], bitmap_size = 2\<rparr>)) \<and>
   becomes \<lparr>bitmap = Some [5, 1], bitmap_size = 2\<rparr>
     (bitmap_intersect \<lparr>bitmap = Some [5, 1], bitmap_size = 2\<rparr> \<lparr>bitmap = Some [4], bitmap_size = 1\<rparr>)
     (bitset \<lparr>bitmap = Some [5, 1], bitmap_size = 2\<rparr> \<inter> bitset \<lparr>bitmap = Some [4], bitmap_size = 1\<rparr>)"
  using bitmap_updates[of "\<lparr>bitmap = Some [5, 1], bitmap_size = 2\<rparr>" "\<lparr>bitmap = Some [6, 3], bitmap_size = 2\<rparr>"
      "\<lparr>bitmap = Some [4], bitmap_size = 1\<rparr>" 9 3]
  by (simp add: bitmap_wf_def)

text \<open>C25. The tests on bitmaps decide the facts about the sets: whether a bit is in, whether the set is exactly a
  prefix, empty, or everything, whether one set is part of or equal to another, and how many elements it has.\<close>

theorem bitmap_queries:
  assumes m: "bitmap_wf m" and m2: "bitmap_wf m2" "bitmap_size m2 = bitmap_size m"
    and b: "b < 8 * bitmap_size m" and n: "n \<le> 8 * bitmap_size m"
  shows "bitmap_is_set m b = Some (b \<in> bitset m) \<and>
    bitmap_is_prefix m n = Some (bitset m = {..<n}) \<and>
    bitmap_is_clear_all m = Some (bitset m = {}) \<and>
    bitmap_is_set_all m = Some (bitset m = {..<8 * bitmap_size m}) \<and>
    bitmap_is_subset m m2 = Some (bitset m \<subseteq> bitset m2) \<and>
    bitmap_cmp m m2 = Some (bitset m = bitset m2) \<and>
    bitmap_bits_set m = Some (card (bitset m))"
  using bitmap_is_set_ok[OF m b] bitmap_is_prefix_ok[OF m n] bitmap_is_prefix_ok[OF m, of 0] bitmap_is_prefix_ok[OF m, of "8 * bitmap_size m"]
    bitmap_is_subset_ok[OF m m2] bitmap_cmp_ok[OF m m2] bitmap_bits_set_ok[OF m]
  by (simp add: bitmap_is_clear_all_def bitmap_is_set_all_def mult.commute)

theorem bitmap_queries_witness:
  "bitmap_is_prefix \<lparr>bitmap = Some [255, 7], bitmap_size = 2\<rparr> 11 = Some (bitset \<lparr>bitmap = Some [255, 7], bitmap_size = 2\<rparr> = {..<11}) \<and>
   bitmap_bits_set \<lparr>bitmap = Some [255, 7], bitmap_size = 2\<rparr> = Some (card (bitset \<lparr>bitmap = Some [255, 7], bitmap_size = 2\<rparr>))"
  using bitmap_queries[of "\<lparr>bitmap = Some [255, 7], bitmap_size = 2\<rparr>" "\<lparr>bitmap = Some [255, 15], bitmap_size = 2\<rparr>" 3 11]
  by (simp add: bitmap_wf_def)

lemma word_of_nat_bit: "i < 2 ^ 32 \<Longrightarrow> unat (word_of_nat i :: uint32) = i"
  by (subst unat_of_nat) simp

text \<open>C26. \<open>bitmap_get_first\<close> and \<open>bitmap_set_next\<close> find the least clear bit, and the latter sets it and no other;
  when every bit is set they answer \<open>MY_BIT_NONE\<close>, which is no bit of the map, and nothing changes.\<close>

theorem bitmap_next_free:
  assumes m: "bitmap_wf m" and big: "8 * bitmap_size m < 2 ^ 32"
  shows "(if bitset m = {..<8 * bitmap_size m}
      then bitmap_get_first m = Some MY_BIT_NONE \<and> bitmap_set_next m = Some (m, MY_BIT_NONE)
      else \<exists>i m'. bitmap_get_first m = Some i \<and> bitmap_set_next m = Some (m', i) \<and> unat i < 8 * bitmap_size m \<and>
        unat i \<notin> bitset m \<and> {..<unat i} \<subseteq> bitset m \<and> becomes m (Some m') (insert (unat i) (bitset m)))"
proof -
  obtain bs where bs: "bitmap m = Some bs" "bitmap_size m \<le> length bs" using m by (rule bitmap_wfE)
  from get_first_bits[OF bs(2)] show ?thesis
  proof (elim disjE conjE exE)
    assume "\<forall>i < 8 * bitmap_size m. bit_of bs i" "get_first_loop bs 0 (bitmap_size m) = Some None"
    then show ?thesis using bs by (auto simp: bitmap_get_first_def bitmap_set_next_def bitset_def)
  next
    fix k b
    assume *: "get_first_loop bs 0 (bitmap_size m) = Some (Some (k, b))" "b < 8" "k * 8 + b < 8 * bitmap_size m"
      "\<not> bit_of bs (k * 8 + b)" "\<forall>i < k * 8 + b. bit_of bs i"
    define i :: uint32 where "i = word_of_nat (k * 8 + b)"
    have i: "unat i = k * 8 + b" unfolding i_def using *(3) big by (intro word_of_nat_bit) linarith
    have d: "unat i div 8 = k" "unat i mod 8 = b" using *(2) i by auto
    obtain m' where m': "bitmap_set_bit m (unat i) = Some m'" "bitmap_wf m'" "bitmap_size m' = bitmap_size m" "bitset m' = insert (unat i) (bitset m)"
      using bitmap_set_bit_ok[OF m, of "unat i"] *(3) i by auto
    have "bitmap_set_next m = Option.bind (bitmap_set_bit m (unat i)) (\<lambda>m'. Some (m', i))"
      using *(1,3) bs d i by (simp add: bitmap_set_next_def bitmap_set_bit_def bitmap_fast_set_bit_def and_7 mult.commute) (simp add: i_def)
    then have s: "bitmap_set_next m = Some (m', i)" using m'(1) by simp
    have g: "bitmap_get_first m = Some i" using *(1) bs by (simp add: bitmap_get_first_def i_def)
    have n: "unat i < 8 * bitmap_size m" "unat i \<notin> bitset m" "{..<unat i} \<subseteq> bitset m" using * i by (auto simp: bitset_Some[OF bs(1)])
    then have "bitset m \<noteq> {..<8 * bitmap_size m}" by auto
    then show ?thesis using s g n m' by (auto simp: becomes_def)
  qed
qed

theorem bitmap_next_free_witness:
  "\<exists>i m'. bitmap_set_next \<lparr>bitmap = Some [255, 7], bitmap_size = 2\<rparr> = Some (m', i) \<and> unat i < 16 \<and>
    {..<unat i} \<subseteq> bitset \<lparr>bitmap = Some [255, 7], bitmap_size = 2\<rparr> \<and> unat i \<notin> bitset \<lparr>bitmap = Some [255, 7], bitmap_size = 2\<rparr>"
proof -
  have "15 \<notin> bitset \<lparr>bitmap = Some [255, 7], bitmap_size = 2\<rparr>" by (simp add: bitset_def bit_of_def)
  then have "bitset \<lparr>bitmap = Some [255, 7], bitmap_size = 2\<rparr> \<noteq> {..<16}" by (metis lessThan_iff numeral_less_iff semiring_norm(76,80,81))
  then show ?thesis using bitmap_next_free[of "\<lparr>bitmap = Some [255, 7], bitmap_size = 2\<rparr>"] by (auto simp: bitmap_wf_def)
qed

text \<open>C27. \<open>my_count_bits\<close> counts the set bits of a 64-bit number; \<open>my_count_bits_ushort\<close> does so below 256 and reads
  past its table above; \<open>my_bit_log2\<close>, for every value, ends with the logarithm rounded down (0 for 0).\<close>

theorem my_bit_functions:
  "my_count_bits v = card {i. i < 64 \<and> bit v i} \<and>
   my_count_bits_ushort w = (if unat w < 256 then Some (card {i. i < 8 \<and> bit w i}) else None) \<and>
   2 ^ my_bit_log2 v \<le> max 1 (unat v) \<and> unat v < 2 ^ (my_bit_log2 v + 1)"
proof -
  have "filter (bit (unat w)) [0..<8] = filter (bit w) [0..<8]" by (rule filter_cong) (auto simp: bit_unsigned_iff)
  then have "nbits ! unat w = card {i. i < 8 \<and> bit w i}" if "unat w < 256"
    unfolding nbits_count_table card_filter_upt using that count_table_nth[of "unat w" 8] by simp
  then show ?thesis using my_count_bits_ok[of v] my_bit_log2_loop_ok[of "unat v" 0]
    by (auto simp: my_count_bits_ushort_def my_bit_log2_def aget_def length_nbits)
qed

end
