(* ===== verification/Base64.thy ===== *)
theory Base64
  imports Byte_Order "HOL-Library.Signed_Division"
begin

unbundle bit_operations_syntax

text \<open>
  Base64: \<open>mysys/base64.c\<close>, with the classification of white space of the latin1 character set
  (\<open>strings/ctype-latin1.c\<close>, \<open>include/m_ctype.h\<close>).

  The encoder writes at an offset of the destination, the decoder reads and writes at offsets; an access outside a
  buffer is the value \<open>None\<close>. In the decoder \<open>src\<close> and \<open>i\<close> always move together until the first \<open>=\<close>, after which
  nothing is read, so that \<open>i\<close> is the offset of both. \<open>pos\<close> subtracts the address of the table from the result of
  \<open>strchr\<close>, which is the null pointer for a character that is not in the table; the address is the parameter
  \<open>table_addr\<close>. A signed computation that leaves the range of \<open>int\<close> is the value \<open>None\<close>.
\<close>

subsection \<open>White space\<close>

definition ctype_latin1 :: "uchar list" where
  "ctype_latin1 =
  [0,
   32, 32, 32, 32, 32, 32, 32, 32, 32, 40, 40, 40, 40, 40, 32, 32,
   32, 32, 32, 32, 32, 32, 32, 32, 32, 32, 32, 32, 32, 32, 32, 32,
   72, 16, 16, 16, 16, 16, 16, 16, 16, 16, 16, 16, 16, 16, 16, 16,
   132, 132, 132, 132, 132, 132, 132, 132, 132, 132, 16, 16, 16, 16, 16, 16,
   16, 129, 129, 129, 129, 129, 129, 1, 1, 1, 1, 1, 1, 1, 1, 1,
   1, 1, 1, 1, 1, 1, 1, 1, 1, 1, 1, 16, 16, 16, 16, 16,
   16, 130, 130, 130, 130, 130, 130, 2, 2, 2, 2, 2, 2, 2, 2, 2,
   2, 2, 2, 2, 2, 2, 2, 2, 2, 2, 2, 16, 16, 16, 16, 32,
   16, 0, 16, 2, 16, 16, 16, 16, 16, 16, 1, 16, 1, 0, 1, 0,
   0, 16, 16, 16, 16, 16, 16, 16, 16, 16, 2, 16, 2, 0, 2, 1,
   72, 16, 16, 16, 16, 16, 16, 16, 16, 16, 16, 16, 16, 16, 16, 16,
   16, 16, 16, 16, 16, 16, 16, 16, 16, 16, 16, 16, 16, 16, 16, 16,
   1, 1, 1, 1, 1, 1, 1, 1, 1, 1, 1, 1, 1, 1, 1, 1,
   1, 1, 1, 1, 1, 1, 1, 16, 1, 1, 1, 1, 1, 1, 1, 2,
   2, 2, 2, 2, 2, 2, 2, 2, 2, 2, 2, 2, 2, 2, 2, 2,
   2, 2, 2, 2, 2, 2, 2, 16, 2, 2, 2, 2, 2, 2, 2, 2]"

definition MY_SPC :: uchar where "MY_SPC = 8"

definition my_isspace :: "uchar \<Rightarrow> bool" where
  "my_isspace c \<longleftrightarrow> ctype_latin1 ! (1 + unat c) AND MY_SPC \<noteq> 0"

subsection \<open>Lengths\<close>

definition base64_table :: "uchar list" where
  "base64_table = map of_char (''ABCDEFGHIJKLMNOPQRSTUVWXYZ'' @ ''abcdefghijklmnopqrstuvwxyz'' @ ''0123456789+/'')"

definition c_int :: "int \<Rightarrow> int option" where
  "c_int x = (if - (2 ^ 31) \<le> x \<and> x < 2 ^ 31 then Some x else None)"

definition base64_needed_encoded_length :: "int \<Rightarrow> int option" where
  "base64_needed_encoded_length length_of_data = do {
     n \<leftarrow> c_int (length_of_data + 2);
     nb_base64_chars \<leftarrow> c_int (n sdiv 3 * 4);
     k \<leftarrow> c_int (nb_base64_chars - 1);
     r \<leftarrow> c_int (nb_base64_chars + k sdiv 76);
     c_int (r + 1) }"

text \<open>The quotient is taken in integers, so that \<open>ceil\<close> has nothing left to round.\<close>

definition base64_needed_decoded_length :: "int \<Rightarrow> int option" where
  "base64_needed_decoded_length length_of_encoded_data = do {
     n \<leftarrow> c_int (length_of_encoded_data * 3);
     Some (n sdiv 4) }"

subsection \<open>Encoding\<close>

function base64_encode_loop :: "uchar list \<Rightarrow> nat \<Rightarrow> nat \<Rightarrow> nat \<Rightarrow> uchar list \<Rightarrow> nat \<Rightarrow> (uchar list \<times> nat) option" where
  "base64_encode_loop s src_len i len dst p =
     (if i < src_len then do {
        (len, dst, p) \<leftarrow> (if len = 76 then do { dst \<leftarrow> aset dst p 10; Some (0, dst, p + 1) } else Some (len, dst, p));
        x \<leftarrow> aget s i;
        let c = push_bit 8 (ucast x :: uint32);
        c \<leftarrow> (if i + 1 < src_len then do { x \<leftarrow> aget s (i + 1); Some (c + ucast x) } else Some c);
        let c = push_bit 8 c;
        c \<leftarrow> (if i + 2 < src_len then do { x \<leftarrow> aget s (i + 2); Some (c + ucast x) } else Some c);
        dst \<leftarrow> aset dst p (base64_table ! unat (drop_bit 18 c AND 0x3f));
        dst \<leftarrow> aset dst (p + 1) (base64_table ! unat (drop_bit 12 c AND 0x3f));
        dst \<leftarrow> aset dst (p + 2) (if i + 3 > src_len + 1 then 61 else base64_table ! unat (drop_bit 6 c AND 0x3f));
        dst \<leftarrow> aset dst (p + 3) (if i + 3 > src_len then 61 else base64_table ! unat (drop_bit 0 c AND 0x3f));
        base64_encode_loop s src_len (i + 3) (len + 4) dst (p + 4) }
      else Some (dst, p))"
  by pat_completeness auto
termination
  by (relation "measure (\<lambda>(s, src_len, i, len, dst, p). src_len - i)") auto

declare base64_encode_loop.simps [simp del]

definition base64_encode :: "uchar list \<Rightarrow> nat \<Rightarrow> uchar list \<Rightarrow> (uchar list \<times> int) option" where
  "base64_encode src src_len dst = do {
     (dst, p) \<leftarrow> base64_encode_loop src src_len 0 0 dst 0;
     dst \<leftarrow> aset dst p 0;
     Some (dst, 0) }"

subsection \<open>Decoding\<close>

definition strchr_table :: "uchar \<Rightarrow> nat option" where
  "strchr_table c = (let k = length (takeWhile (\<lambda>x. x \<noteq> c) (base64_table @ [0])) in if k < 65 then Some k else None)"

definition pos :: "uint32 \<Rightarrow> uchar \<Rightarrow> uint32" where
  "pos table_addr c = (case strchr_table c of Some k \<Rightarrow> word_of_nat k | None \<Rightarrow> 0 - table_addr)"

text \<open>\<open>SKIP_SPACE\<close>: \<open>None\<close> is its \<open>break\<close> out of the loop of the decoder, with \<open>i = size + 1\<close>.\<close>

function SKIP_SPACE :: "uchar list \<Rightarrow> nat \<Rightarrow> nat \<Rightarrow> nat option option" where
  "SKIP_SPACE src i sz =
     (if i < sz then do { c \<leftarrow> aget src i; if my_isspace c then SKIP_SPACE src (i + 1) sz else Some (Some i) }
      else Some (if i = sz then None else Some i))"
  by pat_completeness auto
termination
  by (relation "measure (\<lambda>(src, i, sz). sz - i)") auto

declare SKIP_SPACE.simps [simp del]

text \<open>One round of the loop up to the label \<open>end\<close>: the new \<open>i\<close>, \<open>c\<close> and \<open>mark\<close>, or \<open>None\<close> for the \<open>break\<close>.\<close>

definition decode_group :: "uint32 \<Rightarrow> uchar list \<Rightarrow> nat \<Rightarrow> nat \<Rightarrow> (nat \<times> uint32 \<times> nat) option option" where
  "decode_group table_addr src sz i = do {
     r \<leftarrow> SKIP_SPACE src i sz;
     case r of None \<Rightarrow> Some None | Some i \<Rightarrow> do {
       x \<leftarrow> aget src i;
       let c = push_bit 6 (0 + pos table_addr x);
       r \<leftarrow> SKIP_SPACE src (i + 1) sz;
       case r of None \<Rightarrow> Some None | Some i \<Rightarrow> do {
         x \<leftarrow> aget src i;
         let c = push_bit 6 (c + pos table_addr x);
         r \<leftarrow> SKIP_SPACE src (i + 1) sz;
         case r of None \<Rightarrow> Some None | Some i \<Rightarrow> do {
           x \<leftarrow> aget src i;
           if x = 61 then Some (Some (sz, push_bit 6 c, 2))
           else do {
             let c = push_bit 6 (c + pos table_addr x);
             r \<leftarrow> SKIP_SPACE src (i + 1) sz;
             case r of None \<Rightarrow> Some None | Some i \<Rightarrow> do {
               x \<leftarrow> aget src i;
               if x = 61 then Some (Some (sz, c, 1))
               else Some (Some (i + 1, c + pos table_addr x, 0)) } } } } } }"

lemma SKIP_SPACE_le: "SKIP_SPACE src i sz = Some (Some j) \<Longrightarrow> i \<le> j \<and> (i \<le> sz \<longrightarrow> j < sz)"
  by (induction src i sz rule: SKIP_SPACE.induct)
     (auto simp: SKIP_SPACE.simps arr_simps split: if_splits bind_splits)

lemma decode_group_progress: "decode_group table_addr src sz i = Some (Some (j, c, mark)) \<Longrightarrow> i < sz \<Longrightarrow> i < j \<and> j \<le> sz"
  by (auto simp: decode_group_def Let_def split: bind_splits option.splits if_splits dest!: SKIP_SPACE_le)

function base64_decode_loop :: "uint32 \<Rightarrow> uchar list \<Rightarrow> nat \<Rightarrow> nat \<Rightarrow> uchar list \<Rightarrow> nat \<Rightarrow> (nat \<times> uchar list \<times> nat) option" where
  "base64_decode_loop table_addr src sz i dst d =
     (if i < sz then
        case decode_group table_addr src sz i of
          None \<Rightarrow> None
        | Some None \<Rightarrow> Some (sz + 1, dst, d)
        | Some (Some (i, c, mark)) \<Rightarrow> do {
            let b = [ucast (drop_bit 16 c AND 0xff), ucast (drop_bit 8 c AND 0xff), ucast (drop_bit 0 c AND 0xff)];
            dst \<leftarrow> put_bytes dst d (take (3 - mark) b);
            base64_decode_loop table_addr src sz i dst (d + (3 - mark)) }
      else Some (i, dst, d))"
  by pat_completeness auto
termination
  by (relation "measure (\<lambda>(table_addr, src, sz, i, dst, d). sz - i)") (auto dest: decode_group_progress)

declare base64_decode_loop.simps [simp del]

definition base64_decode :: "uint32 \<Rightarrow> uchar list \<Rightarrow> nat \<Rightarrow> uchar list \<Rightarrow> (uchar list \<times> int) option" where
  "base64_decode table_addr src sz dst = do {
     (i, dst, d) \<leftarrow> base64_decode_loop table_addr src sz 0 dst 0;
     Some (dst, if i \<noteq> sz then - 1 else int d) }"

end
