(* ===== verification/Base64_Props.thy ===== *)
theory Base64_Props
  imports Base64
begin

unbundle bit_operations_syntax

text \<open>
  The encoder of \<open>Base64\<close> writes the text \<open>enc_from\<close>, of exactly the length that \<open>base64_needed_encoded_length\<close>
  announces, and the decoder reads that text back.
\<close>

subsection \<open>The text\<close>

definition word24 :: "uchar list \<Rightarrow> uint32" where
  "word24 xs = (let b = (\<lambda>k. if k < length xs then ucast (xs ! k) else 0) in push_bit 8 (push_bit 8 (b 0) + b 1) + b 2)"

definition sextet :: "nat \<Rightarrow> uint32 \<Rightarrow> uchar" where
  "sextet k w = base64_table ! unat (drop_bit k w AND 0x3f)"

definition quad :: "uchar list \<Rightarrow> uchar list" where
  "quad xs = [sextet 18 (word24 xs), sextet 12 (word24 xs),
     if length xs < 2 then 61 else sextet 6 (word24 xs), if length xs < 3 then 61 else sextet 0 (word24 xs)]"

function enc_from :: "uchar list \<Rightarrow> nat \<Rightarrow> uchar list" where
  "enc_from xs len =
     (if xs = [] then []
      else (if len = 76 then [10] else []) @ quad xs @ enc_from (drop 3 xs) (if len = 76 then 4 else len + 4))"
  by pat_completeness auto
termination
  by (relation "measure (length \<circ> fst)") auto

declare enc_from.simps [simp del]

lemma enc_from_Nil [simp]: "enc_from [] len = []"
  by (simp add: enc_from.simps)

lemma length_quad [simp]: "length (quad xs) = 4"
  by (simp add: quad_def)

subsection \<open>The encoder\<close>

lemma word24_read:
  assumes "i < n" "n \<le> length s"
  shows "push_bit 8 (if i + 1 < n then push_bit 8 (ucast (s ! i)) + ucast (s ! (i + 1)) else push_bit 8 (ucast (s ! i))) +
    (if i + 2 < n then ucast (s ! (i + 2)) else 0) = word24 (drop i (take n s))"
proof -
  have "1 < n - i \<longleftrightarrow> i + 1 < n" "2 < n - i \<longleftrightarrow> i + 2 < n" by auto
  then show ?thesis using assms by (simp add: word24_def Let_def)
qed

lemma put_quad:
  "put_bytes dst p ([a, b, c, d] @ E) = (if p + 3 < length dst then put_bytes (dst[p := a, p + 1 := b, p + 2 := c, p + 3 := d]) (p + 4) E else None)"
  by (auto simp: put_bytes_Cons eval_nat_numeral)

lemma encode_step:
  assumes i: "i < n" and n: "n \<le> length s" and p: "p + 3 < length dst" and len: "len \<noteq> 76"
  shows "base64_encode_loop s n i len dst p =
    (let q = quad (drop i (take n s)) in
     base64_encode_loop s n (i + 3) (len + 4) (dst[p := q ! 0, p + 1 := q ! 1, p + 2 := q ! 2, p + 3 := q ! 3]) (p + 4))"
proof -
  define w where "w = word24 (drop i (take n s))"
  have l: "length (drop i (take n s)) < 2 \<longleftrightarrow> \<not> i + 1 < n" "length (drop i (take n s)) < 3 \<longleftrightarrow> \<not> i + 2 < n" using i n by auto
  have q: "quad (drop i (take n s)) = [sextet 18 w, sextet 12 w, if i + 1 < n then sextet 6 w else 61, if i + 2 < n then sextet 0 w else 61]"
    unfolding quad_def l w_def by simp
  note w = word24_read[OF i n, folded w_def]
  show ?thesis using assms w unfolding base64_encode_loop.simps[of s n i] q
    by (cases "i + 1 < n"; cases "i + 2 < n") (simp_all add: sextet_def Let_def)
qed

lemma encode_newline:
  "i < n \<Longrightarrow> p < length dst \<Longrightarrow> base64_encode_loop s n i 76 dst p = base64_encode_loop s n i 0 (dst[p := 10]) (p + 1)"
  unfolding base64_encode_loop.simps[of s n i] by simp

lemma encode_loop_ok:
  "n \<le> length s \<Longrightarrow> p + length (enc_from (drop i (take n s)) len) \<le> length dst \<Longrightarrow>
    \<exists>dst'. base64_encode_loop s n i len dst p = Some (dst', p + length (enc_from (drop i (take n s)) len)) \<and>
      put_bytes dst p (enc_from (drop i (take n s)) len) = Some dst'"
proof (induction "n - i" arbitrary: i len dst p rule: less_induct)
  case less
  show ?case
  proof (cases "i < n")
    case False
    then show ?thesis using less.prems by (simp add: base64_encode_loop.simps)
  next
    case True
    define q where "q = quad (drop i (take n s))"
    define E where "E = enc_from (drop (i + 3) (take n s)) (if len = 76 then 4 else len + 4)"
    define nl :: "uchar list" where "nl = (if len = 76 then [10] else [])"
    have enc: "enc_from (drop i (take n s)) len = nl @ q @ E"
      using True less.prems(1) by (simp add: enc_from.simps[of "drop i (take n s)"] q_def E_def nl_def add.commute)
    have q: "q = [q ! 0, q ! 1, q ! 2, q ! 3]" "length q = 4" by (simp_all add: q_def quad_def)
    define p1 dst1 where "p1 = p + length nl" and "dst1 = (if len = 76 then dst[p := 10] else dst)"
    define dst2 where "dst2 = dst1[p1 := q ! 0, p1 + 1 := q ! 1, p1 + 2 := q ! 2, p1 + 3 := q ! 3]"
    have b: "p1 + 4 + length E \<le> length dst" "length dst2 = length dst" "length dst1 = length dst" using less.prems(2) q(2) unfolding enc by (simp_all add: p1_def dst1_def dst2_def)
    have "base64_encode_loop s n i len dst p = base64_encode_loop s n i (if len = 76 then 0 else len) dst1 p1"
      using True b by (simp add: dst1_def p1_def nl_def encode_newline)
    also have "\<dots> = base64_encode_loop s n (i + 3) (if len = 76 then 4 else len + 4) dst2 (p1 + 4)"
      using encode_step[OF True less.prems(1), of p1 dst1] b by (simp add: q_def dst2_def Let_def)
    finally have loop: "base64_encode_loop s n i len dst p = \<dots>" .
    have "put_bytes dst p (nl @ q @ E) = put_bytes dst1 p1 (q @ E)" using b by (simp add: nl_def p1_def dst1_def put_bytes_Cons)
    also have "\<dots> = put_bytes dst2 (p1 + 4) E" by (subst q(1)) (use b in \<open>simp only: put_quad dst2_def, simp\<close>)
    finally have put: "put_bytes dst p (nl @ q @ E) = put_bytes dst2 (p1 + 4) E" .
    have "n - (i + 3) < n - i" using True by simp
    from less.hyps[OF this less.prems(1), of "p1 + 4" "if len = 76 then 4 else len + 4" dst2]
    show ?thesis unfolding enc loop put E_def[symmetric] using b q(2) by (simp add: p1_def ac_simps)
  qed
qed

subsection \<open>Sextets\<close>

lemma base64_table_distinct: "distinct (base64_table @ [0])"
  by code_simp

lemma base64_table_chars: "list_all (\<lambda>c. \<not> my_isspace c \<and> c \<noteq> 61 \<and> c \<noteq> 0) base64_table"
  by code_simp

lemma length_base64_table: "length base64_table = 64"
  by (simp add: base64_table_def)

lemma takeWhile_distinct: "distinct xs \<Longrightarrow> k < length xs \<Longrightarrow> length (takeWhile (\<lambda>x. x \<noteq> xs ! k) xs) = k"
  by (induction xs arbitrary: k) (auto simp: nth_Cons split: nat.splits)

lemma and_63: "unat (w AND 0x3f :: uint32) = unat w mod 64"
proof -
  have "w AND 0x3f = take_bit 6 w" by (simp add: take_bit_eq_mask mask_eq_exp_minus_1)
  then show ?thesis by (simp add: take_bit_eq_mod unat_mod)
qed

lemma unat_drop_bit: "unat (drop_bit k w) = unat w div 2 ^ k"
proof -
  have "unat (drop_bit k w) = drop_bit k (unat w)" by (rule bit_eqI) (auto simp: bit_simps dest: bit_imp_le_length)
  then show ?thesis by (simp only: drop_bit_eq_div)
qed

lemma sextet_char:
  "strchr_table (sextet k w) = Some (unat w div 2 ^ k mod 64)" "\<not> my_isspace (sextet k w)" "sextet k w \<noteq> 61" "sextet k w \<noteq> 0"
proof -
  let ?j = "unat w div 2 ^ k mod 64"
  have s: "sextet k w = base64_table ! ?j" "?j < length base64_table" by (simp_all add: sextet_def and_63 unat_drop_bit length_base64_table)
  then show "\<not> my_isspace (sextet k w)" "sextet k w \<noteq> 61" "sextet k w \<noteq> 0" using base64_table_chars by (auto simp: list_all_length)
  show "strchr_table (sextet k w) = Some ?j"
    using takeWhile_distinct[OF base64_table_distinct, of ?j] s mod_less_divisor[of 64 "unat w div 2 ^ k"] by (simp add: strchr_table_def Let_def nth_append length_base64_table)
qed

lemma pos_sextet: "pos table_addr (sextet k w) = word_of_nat (unat w div 2 ^ k mod 64)"
  by (simp add: pos_def sextet_char)

lemma isspace_other: "my_isspace 10" "\<not> my_isspace 61"
  by code_simp+

lemma sextets_join:
  "u < 2 ^ 24 \<Longrightarrow> (((u div 2 ^ 18 mod 64) * 64 + u div 2 ^ 12 mod 64) * 64 + u div 2 ^ 6 mod 64) * 64 + u div 2 ^ 0 mod 64 = (u :: nat)"
proof -
  assume u: "u < 2 ^ 24"
  have d: "u div 2 ^ 18 = u div 64 div 64 div 64" "u div 2 ^ 12 = u div 64 div 64" "u div 2 ^ 6 = u div 64" by (simp_all add: div_mult2_eq[symmetric])
  have "u div 64 div 64 div 64 mod 64 = u div 64 div 64 div 64" using u by simp
  then show ?thesis unfolding d by (simp only: div_mult_mod_eq power_0 div_by_1)
qed

lemma word24_value:
  "unat (push_bit 8 (push_bit 8 (ucast (x :: uchar)) + ucast (y :: uchar)) + ucast (z :: uchar) :: uint32) = (unat x * 256 + unat y) * 256 + unat z"
proof -
  have b: "unat v < 256" for v :: uchar using unsigned_less[of v] by simp
  have "push_bit 8 (push_bit 8 (ucast x) + ucast y) + ucast z = (word_of_nat ((unat x * 256 + unat y) * 256 + unat z) :: uint32)"
    by (simp add: push_bit_eq_mult algebra_simps)
  moreover have "(unat x * 256 + unat y) * 256 + unat z < 2 ^ 24" using b[of x] b[of y] b[of z] by simp
  ultimately show ?thesis by (simp only: unat_of_nat) simp
qed

definition byte_or_0 :: "uchar list \<Rightarrow> nat \<Rightarrow> uchar" where
  "byte_or_0 xs k = (if k < length xs then xs ! k else 0)"

lemma unat_word24: "unat (word24 xs) = (unat (byte_or_0 xs 0) * 256 + unat (byte_or_0 xs 1)) * 256 + unat (byte_or_0 xs 2)"
proof -
  have "(if k < length xs then ucast (xs ! k) else 0) = (ucast (byte_or_0 xs k) :: uint32)" for k by (simp add: byte_or_0_def)
  then show ?thesis unfolding word24_def Let_def by (simp only: word24_value)
qed

lemma word24_less: "unat (word24 xs) < 2 ^ 24"
proof -
  have b: "unat v < 256" for v :: uchar using unsigned_less[of v] by simp
  show ?thesis using b[of "byte_or_0 xs 0"] b[of "byte_or_0 xs 1"] b[of "byte_or_0 xs 2"] by (simp add: unat_word24)
qed

lemma decode_word:
  fixes w :: uint32
  assumes "unat w < 2 ^ 24"
  shows "push_bit 6 (push_bit 6 (push_bit 6 (pos a (sextet 18 w)) + pos a (sextet 12 w)) + pos a (sextet 6 w)) + pos a (sextet 0 w) = w"
proof -
  have "push_bit 6 (push_bit 6 (push_bit 6 (pos a (sextet 18 w)) + pos a (sextet 12 w)) + pos a (sextet 6 w)) + pos a (sextet 0 w) =
    word_of_nat ((((unat w div 2 ^ 18 mod 64) * 64 + unat w div 2 ^ 12 mod 64) * 64 + unat w div 2 ^ 6 mod 64) * 64 + unat w div 2 ^ 0 mod 64)"
    unfolding pos_sextet push_bit_eq_mult by (simp only: of_nat_add of_nat_mult) simp
  then show ?thesis unfolding sextets_join[OF assms] by simp
qed

lemma decode_bytes:
  "[ucast (drop_bit 16 (word24 xs) AND 0xff), ucast (drop_bit 8 (word24 xs) AND 0xff), ucast (drop_bit 0 (word24 xs) AND 0xff)] =
    [byte_or_0 xs 0, byte_or_0 xs 1, byte_or_0 xs 2 :: uchar]"
proof -
  have b: "unat v < 256" for v :: uchar using unsigned_less[of v] by simp
  have c: "ucast (w AND 0xff) = (word_of_nat (unat w) :: uchar)" for w :: uint32
  proof -
    have "w AND 0xff = take_bit 8 w" by (simp add: take_bit_eq_mask mask_eq_exp_minus_1)
    moreover have "ucast (take_bit 8 w) = (ucast w :: uchar)" by (rule bit_word_eqI) (simp add: bit_simps)
    ultimately have "ucast (w AND 0xff) = (ucast w :: uchar)" by (simp only:)
    then show ?thesis by simp
  qed
  define x y z where "x = unat (byte_or_0 xs 0)" and "y = unat (byte_or_0 xs 1)" and "z = unat (byte_or_0 xs 2)"
  have l: "x < 256" "y < 256" "z < 256" by (simp_all add: x_def y_def z_def b)
  have d: "((x * 256 + y) * 256 + z) div 2 ^ 16 = x" "((x * 256 + y) * 256 + z) div 2 ^ 8 = x * 256 + y"
    using l div_mult2_eq[of "(x * 256 + y) * 256 + z" 256 256] by simp_all
  have "(256 :: uchar) = 0" by simp
  then have m: "word_of_nat (k * 256 + n) = (word_of_nat n :: uchar)" for k n
    by (simp only: of_nat_add of_nat_mult of_nat_numeral mult_zero_right add_0)
  show ?thesis unfolding c unat_drop_bit unat_word24 x_def[symmetric] y_def[symmetric] z_def[symmetric] d power_0 div_by_1 m
    by (simp add: x_def y_def z_def)
qed

subsection \<open>The decoder\<close>

text \<open>At the offset \<open>i\<close> the source continues with \<open>E\<close> up to its end.\<close>

definition reads :: "uchar list \<Rightarrow> nat \<Rightarrow> nat \<Rightarrow> uchar list \<Rightarrow> bool" where
  "reads src sz i E \<longleftrightarrow> sz \<le> length src \<and> i \<le> sz \<and> drop i (take sz src) = E"

lemma reads_Cons:
  assumes "reads src sz i (x # E)"
  shows "i < sz" "aget src i = Some x" "reads src sz (i + 1) E"
proof -
  have d: "drop i (take sz src) = x # E" "sz \<le> length src" using assms by (auto simp: reads_def)
  then show "i < sz" by (metis drop_all length_take list.distinct(1) min.absorb2 not_le)
  with d have "drop i (take sz src) = src ! i # drop (i + 1) (take sz src)" by (simp add: Cons_nth_drop_Suc[symmetric])
  then show "aget src i = Some x" "reads src sz (i + 1) E" using d \<open>i < sz\<close> by (auto simp: reads_def)
qed

lemma skip_none: "reads src sz i (x # E) \<Longrightarrow> \<not> my_isspace x \<Longrightarrow> SKIP_SPACE src i sz = Some (Some i)"
  by (subst SKIP_SPACE.simps) (simp add: reads_Cons)

lemma skip_newline: "reads src sz i (10 # E) \<Longrightarrow> SKIP_SPACE src i sz = SKIP_SPACE src (i + 1) sz"
  by (subst SKIP_SPACE.simps) (simp add: reads_Cons isspace_other)

lemma decode_group_newline: "reads src sz i (10 # E) \<Longrightarrow> decode_group a src sz i = decode_group a src sz (i + 1)"
  by (simp add: decode_group_def skip_newline)

lemma word24_padding:
  "length xs < 3 \<Longrightarrow> pos a (sextet 0 (word24 xs)) = 0" "length xs < 2 \<Longrightarrow> pos a (sextet 6 (word24 xs)) = 0"
  by (simp_all add: pos_sextet unat_word24 byte_or_0_def)

lemma decode_group_ok:
  assumes r: "reads src sz i (quad xs @ E)" and xs: "xs \<noteq> []"
  shows "decode_group a src sz i = Some (Some (if length xs < 3 then sz else i + 4, word24 xs, 3 - length xs))"
proof -
  let ?w = "word24 xs"
  define q2 q3 where "q2 = (if length xs < 2 then 61 else sextet 6 ?w)" and "q3 = (if length xs < 3 then 61 else sextet 0 ?w)"
  have r0: "reads src sz i (sextet 18 ?w # sextet 12 ?w # q2 # q3 # E)" using r by (simp add: quad_def q2_def q3_def)
  note r1 = reads_Cons(3)[OF r0] note r2 = reads_Cons(3)[OF r1] note r3 = reads_Cons(3)[OF r2]
  have n: "\<not> my_isspace q2" "\<not> my_isspace q3" by (simp_all add: q2_def q3_def sextet_char isspace_other)
  note skips = skip_none[OF r0 sextet_char(2)] skip_none[OF r1 sextet_char(2), simplified] skip_none[OF r2 n(1), simplified] skip_none[OF r3 n(2), simplified]
  note gets = reads_Cons(2)[OF r0] reads_Cons(2)[OF r1, simplified] reads_Cons(2)[OF r2, simplified] reads_Cons(2)[OF r3, simplified]
  have "0 < length xs" using xs by simp
  then have "length xs = 1 \<or> length xs = 2 \<or> length xs \<ge> 3" by linarith
  then show ?thesis
    using decode_word[OF word24_less[of xs], of a] word24_padding[of xs a]
    by (elim disjE) (simp_all add: decode_group_def Let_def skips gets sextet_char q2_def q3_def)
qed

lemma take_bytes_or_0: "take (length xs) [byte_or_0 xs 0, byte_or_0 xs 1, byte_or_0 xs 2] = take 3 xs"
proof (cases "length xs < 3")
  case True
  then have "length xs = 0 \<or> length xs = 1 \<or> length xs = 2" by linarith
  then show ?thesis by (auto simp: byte_or_0_def length_Suc_conv eval_nat_numeral)
next
  case False
  then obtain a b c ys where "xs = a # b # c # ys"
    by (metis One_nat_def Suc_le_length_iff not_less numeral_3_eq_3)
  then show ?thesis by (simp add: byte_or_0_def)
qed

lemma decode_loop_ok:
  "reads src sz i (enc_from xs len) \<Longrightarrow> d + length xs \<le> length dst \<Longrightarrow>
    \<exists>dst'. base64_decode_loop a src sz i dst d = Some (sz, dst', d + length xs) \<and> put_bytes dst d xs = Some dst'"
proof (induction xs len arbitrary: i dst d rule: enc_from.induct)
  case (1 xs len)
  show ?case
  proof (cases "xs = []")
    case True
    then have "i = sz" using 1(2) by (auto simp: reads_def)
    then show ?thesis using True 1(3) by (simp add: base64_decode_loop.simps)
  next
    case False
    define E where "E = enc_from (drop 3 xs) (if len = 76 then 4 else len + 4)"
    define j where "j = (if len = 76 then i + 1 else i)"
    have r0: "reads src sz i ((if len = 76 then [10] else []) @ quad xs @ E)"
      using 1(2) False by (simp add: enc_from.simps[of xs] E_def)
    have r: "reads src sz j (quad xs @ E)" and g: "decode_group a src sz i = decode_group a src sz j" and i: "i < sz"
      using r0 reads_Cons[of src sz i 10 "quad xs @ E"] decode_group_newline[of src sz i "quad xs @ E" a] reads_Cons(1)[of src sz i]
      by (auto simp: j_def quad_def split: if_splits)
    have rE: "reads src sz (j + 4) E"
      using r unfolding quad_def by (auto dest!: reads_Cons(3) simp: numeral_eq_Suc)
    note grp = decode_group_ok[OF r False, of a, folded g]
    define k where "k = min 3 (length xs)"
    have k: "3 - (3 - length xs) = k" by (simp add: k_def)
    have tk: "take k [byte_or_0 xs 0, byte_or_0 xs 1, byte_or_0 xs 2] = take 3 xs"
    proof -
      have "take k ys = take (length xs) ys" if "length ys = 3" for ys :: "uchar list" using that by (simp add: k_def min_def)
      then show ?thesis using take_bytes_or_0[of xs] by simp
    qed
    obtain dst1 where dst1: "put_bytes dst d (take 3 xs) = Some dst1" "length dst1 = length dst"
    proof -
      have "d + length (take 3 xs) \<le> length dst" using 1(3) by simp
      then have "\<exists>dst1. put_bytes dst d (take 3 xs) = Some dst1" unfolding put_bytes_def by simp
      then show thesis using that length_put by blast
    qed
    have eq: "base64_decode_loop a src sz i dst d = base64_decode_loop a src sz (if length xs < 3 then sz else j + 4) dst1 (d + k)"
      using i grp by (subst base64_decode_loop.simps) (simp only: decode_bytes k tk dst1(1) Let_def if_True option.case prod.case Option.bind.bind_lunit)
    have "reads src sz (if length xs < 3 then sz else j + 4) E"
    proof (cases "length xs < 3")
      case True
      then have "E = []" by (simp add: E_def)
      then show ?thesis using r True by (auto simp: reads_def)
    qed (simp add: rE)
    note ih = "1.IH"[OF False, folded E_def, OF this, of "d + k" dst1]
    have kl: "k + length (drop 3 xs) = length xs" by (simp add: k_def)
    then have "d + k + length (drop 3 xs) \<le> length dst1" using 1(3) dst1(2) by simp
    from ih[OF this] obtain dst' where
      "base64_decode_loop a src sz i dst d = Some (sz, dst', d + k + length (drop 3 xs))" "put_bytes dst1 (d + k) (drop 3 xs) = Some dst'"
      unfolding eq by blast
    moreover have "put_bytes dst d (take 3 xs @ drop 3 xs) = Some dst'"
      using put_put[of "d + k" d "take 3 xs" dst "drop 3 xs"] dst1(1) calculation(2) by (simp add: k_def min.commute)
    ultimately show ?thesis using kl by (simp add: add.assoc)
  qed
qed

subsection \<open>Lengths\<close>

lemma length_enc_from:
  "len = 4 * j \<Longrightarrow> j \<le> 19 \<Longrightarrow>
    length (enc_from xs len) = (if xs = [] then 0 else 4 * ((length xs + 2) div 3) + (j + (length xs + 2) div 3 - 1) div 19)"
proof (induction xs len arbitrary: j rule: enc_from.induct)
  case (1 xs len)
  show ?case
  proof (cases "xs = []")
    case False
    define g where "g = (length xs + 2) div 3"
    define j' where "j' = (if j = 19 then 1 else j + 1)"
    have l: "(if len = 76 then 4 else len + 4) = 4 * j'" "j' \<le> 19" "len = 76 \<longleftrightarrow> j = 19" using "1.prems" by (auto simp: j'_def)
    have "0 < length xs" using False by simp
    then have g: "(length (drop 3 xs) + 2) div 3 = g - 1" "1 \<le> g" "drop 3 xs = [] \<longleftrightarrow> g = 1"
      unfolding g_def length_drop drop_eq_Nil by linarith+
    have "length (enc_from (drop 3 xs) (4 * j')) = (if g = 1 then 0 else 4 * (g - 1) + (j' + (g - 1) - 1) div 19)"
      using "1.IH"[OF False l(1,2)] unfolding l(1) g(1,3) .
    then have "length (enc_from xs len) = (if j = 19 then 1 else 0) + 4 + (if g = 1 then 0 else 4 * (g - 1) + (j' + (g - 1) - 1) div 19)"
      using False l(1,3) by (simp add: enc_from.simps[of xs])
    also have "\<dots> = 4 * g + (j + g - 1) div 19"
    proof -
      obtain h where h: "g = Suc h" using g(2) by (cases g) auto
      show ?thesis
      proof (cases "j = 19")
        case True
        have "(19 + h) div 19 = 1 + h div 19" by simp
        then show ?thesis unfolding h j'_def using True by (cases h) simp_all
      next
        case j: False
        then have "j div 19 = 0" using "1.prems"(2) by simp
        then show ?thesis unfolding h j'_def using j by (cases h) simp_all
      qed
    qed
    finally show ?thesis using False by (simp add: g_def)
  qed simp
qed

lemma sdiv_nonneg: "0 \<le> a \<Longrightarrow> 0 < b \<Longrightarrow> a sdiv b = a div (b :: int)"
  by (cases "a = 0") (auto simp: signed_divide_int_def)

lemma needed_encoded:
  assumes "base64_needed_encoded_length (int n) = Some L" and that: "length xs = n"
  shows "L = int (length (enc_from xs 0)) + 1"
proof -
  define g where "g = (n + 2) div 3"
  have q: "(int n + 2) sdiv 3 * 4 = int (4 * g)" by (simp add: g_def sdiv_nonneg zdiv_int)
  have r: "(int (4 * g) - 1) sdiv 76 = int ((g - 1) div 19)"
  proof (cases g)
    case (Suc h)
    have "(4 * int h + 3) div 76 = int h div 19" by linarith
    moreover have "int (4 * g) - 1 = 4 * int h + 3" "0 \<le> 4 * int h + 3" using Suc by simp_all
    ultimately show ?thesis using Suc by (simp add: sdiv_nonneg zdiv_int)
  qed (simp add: signed_divide_int_def)
  have "L = int (4 * g) + int ((g - 1) div 19) + 1"
    using assms(1) r unfolding base64_needed_encoded_length_def
    by (auto simp: c_int_def q split: bind_splits if_splits)
  then show ?thesis using length_enc_from[of 0 0 xs] that by (cases "n = 0") (auto simp: g_def)
qed

lemma enc_no_nul: "0 \<notin> set (enc_from xs len)"
proof (induction xs len rule: enc_from.induct)
  case (1 xs len)
  have "0 \<notin> set (quad xs)" using sextet_char(4)[of _ "word24 xs"] by (auto simp: quad_def dest: sym)
  then show ?case using 1 by (subst enc_from.simps) auto
qed

text \<open>C28. A block of data is encoded, without writing outside a destination of the announced length, into a text of
  exactly that length (with the terminating zero, which is its only zero byte), and a decoder that is given this text
  and a destination of the length announced for it returns the length of the data and has written the data.\<close>

theorem base64_roundtrip:
  assumes n: "n \<le> length s" and L: "base64_needed_encoded_length (int n) = Some L" "L \<le> int (length dst)"
    and D: "base64_needed_decoded_length (L - 1) = Some D" "D \<le> int (length out)"
  shows "\<exists>dst' out'. base64_encode s n dst = Some (dst', 0) \<and> length dst' = length dst \<and>
    dst' ! nat (L - 1) = 0 \<and> 0 \<notin> set (take (nat (L - 1)) dst') \<and>
    base64_decode table_addr dst' (nat (L - 1)) out = Some (out', int n) \<and> take n out' = take n s \<and> drop n out' = drop n out"
proof -
  define xs where "xs = take n s"
  define E where "E = enc_from xs 0"
  have xs: "length xs = n" using n by (simp add: xs_def)
  have L1: "L = int (length E) + 1" using needed_encoded[OF L(1) xs] by (simp add: E_def)
  then have k: "nat (L - 1) = length E" "length E < length dst" using L(2) by auto
  obtain dst1 where dst1: "base64_encode_loop s n 0 0 dst 0 = Some (dst1, length E)" "put_bytes dst 0 E = Some dst1"
    using encode_loop_ok[OF n, of 0 0 0 dst] k(2) by (auto simp: E_def xs_def)
  define dst' where "dst' = dst1[length E := 0]"
  have d1: "dst1 = E @ drop (length E) dst" using dst1(2) by (auto simp: put_bytes_def split: if_splits)
  then have t: "take (length E) dst' = E" "length dst' = length dst" "dst' ! length E = 0" using k(2) by (auto simp: dst'_def)
  have enc: "base64_encode s n dst = Some (dst', 0)"
    using dst1(1) k(2) d1 by (simp add: base64_encode_def dst'_def)
  have r: "reads dst' (length E) 0 (enc_from xs 0)" using t k(2) by (simp add: reads_def E_def)
  have "4 * ((n + 2) div 3) \<le> length E" using length_enc_from[of 0 0 xs] xs by (cases "n = 0") (auto simp: E_def)
  then have "int n \<le> int (length E) * 3 div 4" by linarith
  then have "n \<le> length out" using D L1 by (auto simp: base64_needed_decoded_length_def c_int_def sdiv_nonneg split: bind_splits if_splits)
  then obtain out' where o: "base64_decode_loop table_addr dst' (length E) 0 out 0 = Some (length E, out', n)" "put_bytes out 0 xs = Some out'"
    using decode_loop_ok[OF r, of 0 out table_addr] xs by auto
  have "out' = xs @ drop n out" using o(2) xs by (auto simp: put_bytes_def split: if_splits)
  then have "take n out' = take n s" "drop n out' = drop n out" using xs by (auto simp: xs_def)
  moreover have "base64_decode table_addr dst' (length E) out = Some (out', int n)" using o(1) by (simp add: base64_decode_def)
  ultimately show ?thesis using enc t enc_no_nul[of xs 0] unfolding k(1) E_def[symmetric] by auto
qed

theorem base64_roundtrip_witness:
  "base64_needed_encoded_length 2 = Some 5 \<and> base64_needed_decoded_length 4 = Some 3 \<and>
   (\<exists>dst' out'. base64_encode [77, 97] 2 [1, 1, 1, 1, 1, 1] = Some (dst', 0) \<and> dst' ! 4 = 0 \<and>
     base64_decode 1000 dst' 4 [0, 0, 0] = Some (out', 2) \<and> take 2 out' = [77, 97])"
proof -
  have l: "base64_needed_encoded_length 2 = Some 5" "base64_needed_decoded_length 4 = Some 3" by code_simp+
  then show ?thesis using base64_roundtrip[of 2 "[77, 97]" 5 "[1, 1, 1, 1, 1, 1]" 3 "[0, 0, 0]" 1000] by auto
qed

end
