(* ===== verification/Dyn_Array.thy ===== *)
theory Dyn_Array
  imports Prelude
begin

text \<open>
  Growing arrays: \<open>mysys/array.c\<close> and the macros of \<open>include/my_sys.h\<close>.

  The buffer is a list of elements, each of \<open>size_of_element\<close> bytes; a pointer into it is the number of an element.
  The sizes are computed in 32 bits (\<open>u32\<close>), as in the code, so that the size of an allocation can wrap around and
  the buffer be shorter than \<open>max_element\<close>. An access outside the buffer, and one whose offset in bytes does not fit
  in 32 bits, is the value \<open>None\<close>.

  The allocator is a parameter: \<open>mem n\<close> says whether \<open>n\<close> bytes can be had, \<open>junk\<close> is what new memory holds; \<open>zero\<close> is
  the element of zero bytes.
\<close>

definition u32 :: "nat \<Rightarrow> nat" where
  "u32 n = n mod 2 ^ 32"

lemma u32_id [simp]: "n < 2 ^ 32 \<Longrightarrow> u32 n = n"
  by (simp add: u32_def)

record 'a DYNAMIC_ARRAY =
  buffer :: "'a list option"
  elements :: nat
  max_element :: nat
  alloc_increment :: nat
  size_of_element :: nat

definition MALLOC_OVERHEAD :: nat where "MALLOC_OVERHEAD = 8"

text \<open>\<open>my_malloc\<close> and \<open>my_realloc\<close> of \<open>bytes\<close> bytes for elements of \<open>sz\<close> bytes.\<close>

definition my_realloc_elems :: "(nat \<Rightarrow> bool) \<Rightarrow> 'a \<Rightarrow> 'a list option \<Rightarrow> nat \<Rightarrow> nat \<Rightarrow> 'a list option" where
  "my_realloc_elems mem junk old bytes sz =
     (if mem bytes
      then Some (case old of
          None \<Rightarrow> replicate (bytes div sz) junk
        | Some xs \<Rightarrow> take (bytes div sz) xs @ replicate (bytes div sz - length xs) junk)
      else None)"

definition init_dynamic_array ::
  "(nat \<Rightarrow> bool) \<Rightarrow> 'a \<Rightarrow> nat \<Rightarrow> nat \<Rightarrow> nat \<Rightarrow> ('a DYNAMIC_ARRAY \<times> bool) option" where
  "init_dynamic_array mem junk element_size init_alloc alloc_inc = do {
     alloc_inc \<leftarrow>
       (if alloc_inc = 0 then
          if element_size = 0 then None
          else let a = max ((8192 - MALLOC_OVERHEAD) div element_size) 16 in
            Some (if init_alloc > 8 \<and> a > u32 (init_alloc * 2) then u32 (init_alloc * 2) else a)
        else Some alloc_inc);
     let init_alloc = (if init_alloc = 0 then alloc_inc else init_alloc);
     let array = \<lparr>buffer = my_realloc_elems mem junk None (u32 (element_size * init_alloc)) element_size,
                  elements = 0, max_element = init_alloc, alloc_increment = alloc_inc, size_of_element = element_size\<rparr>;
     Some (if buffer array = None then (array\<lparr>max_element := 0\<rparr>, True) else (array, False)) }"

text \<open>The element \<open>i\<close> as a place: the offset \<open>i * size_of_element\<close> in the buffer.\<close>

definition elem_at :: "'a DYNAMIC_ARRAY \<Rightarrow> nat \<Rightarrow> nat option" where
  "elem_at array i = (if buffer array \<noteq> None \<and> i * size_of_element array < 2 ^ 32 then Some i else None)"

definition alloc_dynamic :: "(nat \<Rightarrow> bool) \<Rightarrow> 'a \<Rightarrow> 'a DYNAMIC_ARRAY \<Rightarrow> ('a DYNAMIC_ARRAY \<times> nat option) option" where
  "alloc_dynamic mem junk array = do {
     r \<leftarrow>
       (if elements array = max_element array then
          case my_realloc_elems mem junk (buffer array)
                 (u32 ((max_element array + alloc_increment array) * size_of_element array)) (size_of_element array) of
            None \<Rightarrow> Some None
          | Some new_ptr \<Rightarrow> Some (Some (array\<lparr>buffer := Some new_ptr, max_element := u32 (max_element array + alloc_increment array)\<rparr>))
        else Some (Some array));
     case r of
       None \<Rightarrow> Some (array, None)
     | Some array \<Rightarrow> do {
         p \<leftarrow> elem_at array (elements array);
         Some (array\<lparr>elements := u32 (elements array + 1)\<rparr>, Some p) } }"

text \<open>\<open>memcpy\<close> of one element to a place.\<close>

definition put_elem :: "'a DYNAMIC_ARRAY \<Rightarrow> nat \<Rightarrow> 'a \<Rightarrow> 'a DYNAMIC_ARRAY option" where
  "put_elem array p element = do {
     b \<leftarrow> buffer array;
     b \<leftarrow> aset b p element;
     Some (array\<lparr>buffer := Some b\<rparr>) }"

definition insert_dynamic :: "(nat \<Rightarrow> bool) \<Rightarrow> 'a \<Rightarrow> 'a DYNAMIC_ARRAY \<Rightarrow> 'a \<Rightarrow> ('a DYNAMIC_ARRAY \<times> bool) option" where
  "insert_dynamic mem junk array element = do {
     (array, p) \<leftarrow>
       (if elements array = max_element array then alloc_dynamic mem junk array
        else do {
          p \<leftarrow> elem_at array (elements array);
          Some (array\<lparr>elements := u32 (elements array + 1)\<rparr>, Some p) });
     case p of
       None \<Rightarrow> Some (array, True)
     | Some p \<Rightarrow> do { array \<leftarrow> put_elem array p element; Some (array, False) } }"

definition pop_dynamic :: "'a DYNAMIC_ARRAY \<Rightarrow> ('a DYNAMIC_ARRAY \<times> nat option) option" where
  "pop_dynamic array =
     (if elements array \<noteq> 0 then do {
        let array = array\<lparr>elements := elements array - 1\<rparr>;
        p \<leftarrow> elem_at array (elements array);
        Some (array, Some p) }
      else Some (array, None))"

definition set_dynamic :: "(nat \<Rightarrow> bool) \<Rightarrow> 'a \<Rightarrow> 'a \<Rightarrow> 'a DYNAMIC_ARRAY \<Rightarrow> 'a \<Rightarrow> nat \<Rightarrow> ('a DYNAMIC_ARRAY \<times> bool) option" where
  "set_dynamic mem junk zero array element idx = do {
     r \<leftarrow>
       (if idx \<ge> elements array then do {
          r \<leftarrow>
            (if idx \<ge> max_element array then
               if alloc_increment array = 0 then None
               else let size = u32 (u32 (idx + alloc_increment array) div alloc_increment array * alloc_increment array) in
                 case my_realloc_elems mem junk (buffer array) (u32 (size * size_of_element array)) (size_of_element array) of
                   None \<Rightarrow> Some None
                 | Some new_ptr \<Rightarrow> Some (Some (array\<lparr>buffer := Some new_ptr, max_element := size\<rparr>))
             else Some (Some array));
          case r of
            None \<Rightarrow> Some None
          | Some array \<Rightarrow> do {
              p \<leftarrow> elem_at array (elements array);
              b \<leftarrow> buffer array;
              if idx \<le> length b
              then Some (Some (array\<lparr>buffer := Some (take p b @ replicate (idx - p) zero @ drop idx b), elements := u32 (idx + 1)\<rparr>))
              else None } }
        else Some (Some array));
     case r of
       None \<Rightarrow> Some (array, True)
     | Some array \<Rightarrow> do {
         p \<leftarrow> elem_at array idx;
         array \<leftarrow> put_elem array p element;
         Some (array, False) } }"

definition get_dynamic :: "'a \<Rightarrow> 'a DYNAMIC_ARRAY \<Rightarrow> nat \<Rightarrow> 'a option" where
  "get_dynamic zero array idx =
     (if idx \<ge> elements array then Some zero
      else do { p \<leftarrow> elem_at array idx; b \<leftarrow> buffer array; aget b p })"

definition delete_dynamic :: "'a DYNAMIC_ARRAY \<Rightarrow> 'a DYNAMIC_ARRAY" where
  "delete_dynamic array = (if buffer array \<noteq> None then array\<lparr>buffer := None, elements := 0, max_element := 0\<rparr> else array)"

text \<open>\<open>memmove\<close> of the elements behind \<open>idx\<close> to one place before.\<close>

definition delete_dynamic_element :: "'a DYNAMIC_ARRAY \<Rightarrow> nat \<Rightarrow> 'a DYNAMIC_ARRAY option" where
  "delete_dynamic_element array idx = do {
     p \<leftarrow> elem_at array idx;
     let array = array\<lparr>elements := u32 (elements array + (2 ^ 32 - 1))\<rparr>;
     let n = u32 (elements array + (2 ^ 32 - idx));
     b \<leftarrow> buffer array;
     if p + 1 + n \<le> length b
     then Some (array\<lparr>buffer := Some (take p b @ arr_slice (p + 1) n b @ drop (p + n) b)\<rparr>)
     else None }"

definition freeze_size :: "(nat \<Rightarrow> bool) \<Rightarrow> 'a \<Rightarrow> 'a DYNAMIC_ARRAY \<Rightarrow> 'a DYNAMIC_ARRAY" where
  "freeze_size mem junk array =
     (let els = max (elements array) 1 in
      if buffer array \<noteq> None \<and> max_element array \<noteq> els
      then array\<lparr>buffer := my_realloc_elems mem junk (buffer array) (u32 (els * size_of_element array)) (size_of_element array),
                 max_element := els\<rparr>
      else array)"

definition reset_dynamic :: "'a DYNAMIC_ARRAY \<Rightarrow> 'a DYNAMIC_ARRAY" where
  "reset_dynamic array = array\<lparr>elements := 0\<rparr>"

text \<open>\<open>dynamic_element\<close> is typed pointer arithmetic, without the 32-bit product.\<close>

definition dynamic_element :: "'a DYNAMIC_ARRAY \<Rightarrow> nat \<Rightarrow> 'a option" where
  "dynamic_element array idx = do { b \<leftarrow> buffer array; aget b idx }"

subsection \<open>The sequence of elements\<close>

definition arr_elems :: "'a DYNAMIC_ARRAY \<Rightarrow> 'a list" where
  "arr_elems array = (case buffer array of None \<Rightarrow> [] | Some b \<Rightarrow> take (elements array) b)"

definition arr_wf :: "'a DYNAMIC_ARRAY \<Rightarrow> bool" where
  "arr_wf array \<longleftrightarrow> 0 < size_of_element array \<and> 0 < alloc_increment array \<and> elements array \<le> max_element array \<and>
     max_element array * size_of_element array < 2 ^ 32 \<and>
     (case buffer array of None \<Rightarrow> max_element array = 0 | Some b \<Rightarrow> max_element array \<le> length b)"

lemma length_arr_elems: "arr_wf array \<Longrightarrow> length (arr_elems array) = elements array"
  by (auto simp: arr_wf_def arr_elems_def split: option.splits)

lemma times_less:
  assumes "0 < (s :: nat)" "n * s < b" "m \<le> n"
  shows "m * s < b" "m < b"
proof -
  show "m * s < b" using mult_le_mono1[OF assms(3), of s] assms(2) by (rule order.strict_trans1)
  then show "m < b" using mult_le_mono2[of 1 s m] assms(1) by (cases s) auto
qed

lemma elem_at_ok:
  assumes "arr_wf array" "i \<le> max_element array" "buffer array \<noteq> None"
  shows "elem_at array i = Some i"
  using assms times_less(1)[of "size_of_element array" "max_element array" "2 ^ 32" i] by (simp add: elem_at_def arr_wf_def)

lemma realloc_grow:
  assumes "0 < sz" "n * sz < 2 ^ 32" "length (case old of None \<Rightarrow> [] | Some xs \<Rightarrow> xs) \<ge> e" "e \<le> n" "mem (n * sz)"
  shows "\<exists>b. my_realloc_elems mem junk old (u32 (n * sz)) sz = Some b \<and> length b = n \<and> take e b = take e (case old of None \<Rightarrow> [] | Some xs \<Rightarrow> xs)"
  using assms by (auto simp: my_realloc_elems_def min_def split: option.splits)

text \<open>Making room for one element: the array has one element more, the old ones are kept.\<close>

lemma alloc_dynamic_ok:
  assumes wf: "arr_wf array" and room: "(max_element array + alloc_increment array) * size_of_element array < 2 ^ 32"
  shows "if elements array = max_element array \<and> \<not> mem ((max_element array + alloc_increment array) * size_of_element array)
    then alloc_dynamic mem junk array = Some (array, None)
    else \<exists>array' x. alloc_dynamic mem junk array = Some (array', Some (elements array)) \<and> arr_wf array' \<and>
      arr_elems array' = arr_elems array @ [x] \<and> size_of_element array' = size_of_element array \<and>
      alloc_increment array' = alloc_increment array \<and> max_element array \<le> max_element array'"
proof (cases "elements array = max_element array")
  case full: True
  let ?n = "max_element array + alloc_increment array" and ?s = "size_of_element array"
  have s: "0 < ?s" "0 < alloc_increment array" using wf by (simp_all add: arr_wf_def)
  have n: "?n < 2 ^ 32" using times_less(2)[OF s(1) room] by simp
  show ?thesis
  proof (cases "mem (?n * ?s)")
    case False
    then show ?thesis using full room by (simp add: alloc_dynamic_def my_realloc_elems_def)
  next
    case True
    have l: "length (case buffer array of None \<Rightarrow> [] | Some xs \<Rightarrow> xs) \<ge> elements array" using wf by (auto simp: arr_wf_def full split: option.splits)
    obtain b where b: "my_realloc_elems mem junk (buffer array) (u32 (?n * ?s)) ?s = Some b" "length b = ?n"
        "take (elements array) b = arr_elems array"
      using realloc_grow[OF s(1) room l, of mem junk] True full wf
      by (auto simp: arr_elems_def arr_wf_def split: option.splits)
    let ?a = "array\<lparr>buffer := Some b, max_element := ?n\<rparr>"
    have wa: "arr_wf ?a" using wf room b(2) by (simp add: arr_wf_def full)
    have e: "elem_at ?a (elements array) = Some (elements array)" using elem_at_ok[OF wa, of "elements array"] full by simp
    have lt: "elements array < ?n" using full s(2) by simp
    then have u: "u32 (elements array + 1) = elements array + 1" using n by simp
    have "alloc_dynamic mem junk array = Some (?a\<lparr>elements := elements array + 1\<rparr>, Some (elements array))"
      using full b(1) e u u32_id[OF n] by (simp add: alloc_dynamic_def)
    moreover have "arr_elems (?a\<lparr>elements := elements array + 1\<rparr>) = arr_elems array @ [b ! elements array]"
      using b lt by (simp add: arr_elems_def take_Suc_conv_app_nth)
    ultimately show ?thesis using wa True full s(2) by (auto simp: arr_wf_def)
  qed
next
  case False
  then have lt: "elements array < max_element array" using wf by (simp add: arr_wf_def)
  then obtain b where b: "buffer array = Some b" "max_element array \<le> length b" using wf by (auto simp: arr_wf_def split: option.splits)
  have "elements array + 1 < 2 ^ 32" by (rule times_less(2)[of "size_of_element array" "max_element array"]) (use wf lt in \<open>auto simp: arr_wf_def\<close>)
  then have u: "u32 (elements array + 1) = elements array + 1" by (rule u32_id)
  have e: "elem_at array (elements array) = Some (elements array)" using elem_at_ok[OF wf, of "elements array"] lt b by simp
  have "alloc_dynamic mem junk array = Some (array\<lparr>elements := elements array + 1\<rparr>, Some (elements array))"
    using False e u by (simp add: alloc_dynamic_def)
  moreover have "arr_elems (array\<lparr>elements := elements array + 1\<rparr>) = arr_elems array @ [b ! elements array]"
    using b lt by (simp add: arr_elems_def take_Suc_conv_app_nth)
  ultimately show ?thesis using False wf lt b by (auto simp: arr_wf_def)
qed

lemma arr_elems_buffer:
  assumes "arr_wf array" "0 < max_element array"
  obtains b where "buffer array = Some b" "max_element array \<le> length b" "arr_elems array = take (elements array) b"
  using assms by (auto simp: arr_wf_def arr_elems_def split: option.splits)

lemma insert_dynamic_ok:
  assumes wf: "arr_wf array" and room: "(max_element array + alloc_increment array) * size_of_element array < 2 ^ 32"
  shows "if elements array = max_element array \<and> \<not> mem ((max_element array + alloc_increment array) * size_of_element array)
    then insert_dynamic mem junk array x = Some (array, True)
    else \<exists>array'. insert_dynamic mem junk array x = Some (array', False) \<and> arr_wf array' \<and> arr_elems array' = arr_elems array @ [x]"
proof -
  have same: "insert_dynamic mem junk array x = do {
      (array, p) \<leftarrow> alloc_dynamic mem junk array;
      case p of None \<Rightarrow> Some (array, True) | Some p \<Rightarrow> do { array \<leftarrow> put_elem array p x; Some (array, False) } }"
    by (simp add: insert_dynamic_def alloc_dynamic_def)
  show ?thesis
  proof (cases "elements array = max_element array \<and> \<not> mem ((max_element array + alloc_increment array) * size_of_element array)")
    case True
    then show ?thesis using alloc_dynamic_ok[OF wf room, of mem junk] unfolding same by simp
  next
    case False
    then obtain a' y where a': "alloc_dynamic mem junk array = Some (a', Some (elements array))" "arr_wf a'" "arr_elems a' = arr_elems array @ [y]"
      using alloc_dynamic_ok[OF wf room, of mem junk] by auto
    have e: "elements a' = elements array + 1" using length_arr_elems[OF a'(2)] length_arr_elems[OF wf] a'(3) by simp
    then have "0 < max_element a'" using a'(2) by (auto simp: arr_wf_def)
    with a'(2) obtain b where b: "buffer a' = Some b" "max_element a' \<le> length b" "arr_elems a' = take (elements a') b" by (rule arr_elems_buffer)
    have lt: "elements array < length b" using b(2) e a'(2) by (simp add: arr_wf_def)
    have "take (elements array) b = arr_elems array" using b(3) a'(3) e length_arr_elems[OF wf] by (metis add_diff_cancel_right' append_eq_conv_conj butlast_snoc butlast_take lt Suc_eq_plus1 Suc_leI)
    then have "arr_elems (a'\<lparr>buffer := Some (b[elements array := x])\<rparr>) = arr_elems array @ [x]"
      using e lt by (simp add: arr_elems_def take_Suc_conv_app_nth)
    moreover have "insert_dynamic mem junk array x = Some (a'\<lparr>buffer := Some (b[elements array := x])\<rparr>, False)"
      unfolding same using a'(1) b(1) lt by (simp add: put_elem_def)
    ultimately show ?thesis using False a'(2) b(1) by (auto simp: arr_wf_def)
  qed
qed

lemma pop_dynamic_ok:
  assumes wf: "arr_wf array"
  shows "if elements array = 0 then pop_dynamic array = Some (array, None)
    else \<exists>array'. pop_dynamic array = Some (array', Some (elements array - 1)) \<and> arr_wf array' \<and> arr_elems array' = butlast (arr_elems array)"
proof (cases "elements array = 0")
  case False
  then have "0 < max_element array" using wf by (simp add: arr_wf_def)
  with wf obtain b where b: "buffer array = Some b" "max_element array \<le> length b" "arr_elems array = take (elements array) b" by (rule arr_elems_buffer)
  let ?a = "array\<lparr>elements := elements array - 1\<rparr>"
  have wa: "arr_wf ?a" using wf by (auto simp: arr_wf_def split: option.splits)
  have "elem_at ?a (elements ?a) = Some (elements array - 1)" using elem_at_ok[OF wa, of "elements ?a"] wa b by (simp add: arr_wf_def)
  moreover have "arr_elems ?a = butlast (arr_elems array)" using b wf by (simp add: arr_elems_def butlast_take arr_wf_def)
  ultimately show ?thesis using False wa by (simp add: pop_dynamic_def)
qed (simp add: pop_dynamic_def)

lemma get_dynamic_ok:
  assumes wf: "arr_wf array"
  shows "get_dynamic zero array idx = Some (if idx < length (arr_elems array) then arr_elems array ! idx else zero)"
proof (cases "idx < elements array")
  case True
  then have "0 < max_element array" using wf by (simp add: arr_wf_def)
  with wf obtain b where b: "buffer array = Some b" "max_element array \<le> length b" "arr_elems array = take (elements array) b" by (rule arr_elems_buffer)
  then show ?thesis using True wf elem_at_ok[OF wf, of idx] by (simp add: get_dynamic_def arr_wf_def)
qed (simp add: get_dynamic_def length_arr_elems[OF wf])

text \<open>Writing the element \<open>idx\<close> of an array that has room for it.\<close>

lemma set_room:
  assumes wf: "arr_wf array" and idx: "idx < max_element array"
  shows "\<exists>array'. set_dynamic mem junk zero array x idx = Some (array', False) \<and> arr_wf array' \<and>
    arr_elems array' = take idx (arr_elems array @ replicate (idx - elements array) zero) @ [x] @ drop (Suc idx) (arr_elems array)"
proof -
  have "0 < max_element array" using idx by simp
  with wf obtain b where b: "buffer array = Some b" "max_element array \<le> length b" "arr_elems array = take (elements array) b" by (rule arr_elems_buffer)
  have e: "elements array \<le> max_element array" using wf by (simp add: arr_wf_def)
  have "idx + 1 < 2 ^ 32" by (rule times_less(2)[of "size_of_element array" "max_element array"]) (use wf idx in \<open>auto simp: arr_wf_def\<close>)
  then have u: "u32 (idx + 1) = Suc idx" by simp
  have at: "elem_at array i = Some i" "elem_at (array\<lparr>buffer := Some c, elements := k\<rparr>) i = Some i" if "i \<le> max_element array" for i c k
    using elem_at_ok[OF wf that] b by (auto simp: elem_at_def)
  show ?thesis
  proof (cases "idx < elements array")
    case True
    have "set_dynamic mem junk zero array x idx = Some (array\<lparr>buffer := Some (b[idx := x])\<rparr>, False)"
      using True at(1)[of idx] idx b by (simp add: set_dynamic_def put_elem_def)
    moreover have "arr_elems (array\<lparr>buffer := Some (b[idx := x])\<rparr>) = take idx (arr_elems array) @ x # drop (Suc idx) (arr_elems array)"
    proof -
      have "arr_elems (array\<lparr>buffer := Some (b[idx := x])\<rparr>) = (arr_elems array)[idx := x]" using b by (simp add: arr_elems_def take_update_swap)
      then show ?thesis using True length_arr_elems[OF wf] by (simp only: upd_conv_take_nth_drop)
    qed
    ultimately show ?thesis using True wf b length_arr_elems[OF wf] by (auto simp: arr_wf_def)
  next
    case False
    define c where "c = take (elements array) b @ replicate (idx - elements array) zero @ drop idx b"
    have c: "length c = length b" "take idx c = arr_elems array @ replicate (idx - elements array) zero"
      using False b e idx by (simp_all add: c_def)
    let ?a = "array\<lparr>buffer := Some (c[idx := x]), elements := Suc idx\<rparr>"
    have "set_dynamic mem junk zero array x idx = Some (?a, False)"
      using False at[of "elements array"] at[of idx] idx b e c(1) u by (simp add: set_dynamic_def put_elem_def c_def[symmetric])
    moreover have "arr_elems ?a = (arr_elems array @ replicate (idx - elements array) zero) @ [x]"
      using c idx b by (simp add: arr_elems_def take_Suc_conv_app_nth)
    moreover have "length (arr_elems array) = elements array" by (rule length_arr_elems[OF wf])
    ultimately show ?thesis using False idx wf b c(1) by (auto simp: arr_wf_def)
  qed
qed

lemma set_grow:
  assumes wf: "arr_wf array" and idx: "max_element array \<le> idx" and room: "(idx + alloc_increment array) * size_of_element array < 2 ^ 32"
  defines "sz \<equiv> (idx + alloc_increment array) div alloc_increment array * alloc_increment array"
  shows "if mem (sz * size_of_element array)
    then \<exists>array'. set_dynamic mem junk zero array x idx = Some (array', False) \<and> arr_wf array' \<and>
      arr_elems array' = take idx (arr_elems array @ replicate (idx - elements array) zero) @ [x] @ drop (Suc idx) (arr_elems array)
    else set_dynamic mem junk zero array x idx = Some (array, True)"
proof -
  let ?s = "size_of_element array"
  have p: "0 < ?s" "0 < alloc_increment array" "elements array \<le> max_element array" using wf by (simp_all add: arr_wf_def)
  have sz: "idx < sz" "sz \<le> idx + alloc_increment array"
  proof -
    show "sz \<le> idx + alloc_increment array" unfolding sz_def by (rule div_times_less_eq_dividend)
    have "sz + (idx + alloc_increment array) mod alloc_increment array = idx + alloc_increment array" unfolding sz_def by (rule div_mult_mod_eq)
    then show "idx < sz" using mod_less_divisor[OF p(2), of "idx + alloc_increment array"] by linarith
  qed
  have szs: "sz * ?s < 2 ^ 32" "sz < 2 ^ 32" using times_less[OF p(1) room sz(2)] by auto
  have ui: "u32 (idx + alloc_increment array) = idx + alloc_increment array" using times_less(2)[OF p(1) room] by simp
  have us: "u32 ((idx + alloc_increment array) div alloc_increment array * alloc_increment array) = sz" using szs(2) by (simp add: sz_def)
  have e: "idx \<ge> elements array" using idx p(3) by simp
  show ?thesis
  proof (cases "mem (sz * ?s)")
    case False
    have "my_realloc_elems mem junk (buffer array) (u32 (sz * ?s)) ?s = None" using False szs by (simp add: my_realloc_elems_def)
    then show ?thesis using False e idx p(2) by (simp add: set_dynamic_def ui us)
  next
    case True
    have l: "length (case buffer array of None \<Rightarrow> [] | Some xs \<Rightarrow> xs) \<ge> elements array" using wf by (auto simp: arr_wf_def split: option.splits)
    obtain b where b: "my_realloc_elems mem junk (buffer array) (u32 (sz * ?s)) ?s = Some b" "length b = sz" "take (elements array) b = arr_elems array"
      using realloc_grow[OF p(1) szs(1) l, of mem junk] True sz(1) e wf by (auto simp: arr_elems_def arr_wf_def split: option.splits)
    let ?a = "array\<lparr>buffer := Some b, max_element := sz\<rparr>"
    have wa: "arr_wf ?a" using wf szs(1) b(2) sz(1) e by (simp add: arr_wf_def)
    have ca: "arr_elems ?a = arr_elems array" using b(3) by (simp add: arr_elems_def)
    have "set_dynamic mem junk zero array x idx = set_dynamic mem junk zero ?a x idx"
      using e idx p(2) b(1,2) sz(1) by (simp add: set_dynamic_def ui us)
    then show ?thesis using True set_room[OF wa, of idx mem junk zero x] sz(1) unfolding ca by simp
  qed
qed

lemma delete_element_ok:
  assumes wf: "arr_wf array" and idx: "idx < elements array"
  shows "\<exists>array'. delete_dynamic_element array idx = Some array' \<and> arr_wf array' \<and>
    arr_elems array' = take idx (arr_elems array) @ drop (Suc idx) (arr_elems array)"
proof -
  have e: "elements array \<le> max_element array" "0 < max_element array" using wf idx by (auto simp: arr_wf_def)
  from wf e(2) obtain b where b: "buffer array = Some b" "max_element array \<le> length b" "arr_elems array = take (elements array) b" by (rule arr_elems_buffer)
  have "elements array < 2 ^ 32" by (rule times_less(2)[of "size_of_element array" "max_element array"]) (use wf in \<open>auto simp: arr_wf_def\<close>)
  moreover have "elements array + (2 ^ 32 - 1) = elements array - 1 + 2 ^ 32" "elements array - 1 + (2 ^ 32 - idx) = elements array - 1 - idx + 2 ^ 32"
    using idx \<open>elements array < 2 ^ 32\<close> by simp_all
  ultimately have u: "u32 (elements array + (2 ^ 32 - 1)) = elements array - 1" "u32 (elements array - 1 + (2 ^ 32 - idx)) = elements array - 1 - idx"
    by (simp_all only: u32_def mod_add_self2) simp_all
  define n where "n = elements array - 1 - idx"
  let ?b = "take idx b @ arr_slice (idx + 1) n b @ drop (idx + n) b"
  have n: "idx + 1 + n = elements array" using idx by (simp add: n_def)
  have "elem_at array idx = Some idx" using elem_at_ok[OF wf, of idx] idx e(1) b(1) by simp
  then have "delete_dynamic_element array idx =
    (if idx + 1 + u32 (u32 (elements array + (2 ^ 32 - 1)) + (2 ^ 32 - idx)) \<le> length b
     then Some (array\<lparr>elements := u32 (elements array + (2 ^ 32 - 1)),
       buffer := Some (take idx b @ arr_slice (idx + 1) (u32 (u32 (elements array + (2 ^ 32 - 1)) + (2 ^ 32 - idx))) b @
         drop (idx + u32 (u32 (elements array + (2 ^ 32 - 1)) + (2 ^ 32 - idx))) b)\<rparr>)
     else None)"
    using b(1) by (simp add: delete_dynamic_element_def Let_def)
  then have "delete_dynamic_element array idx = Some (array\<lparr>elements := elements array - 1, buffer := Some ?b\<rparr>)"
    unfolding u n_def[symmetric] using b(2) e(1) n by simp
  moreover have "arr_elems (array\<lparr>elements := elements array - 1, buffer := Some ?b\<rparr>) = take idx (arr_elems array) @ drop (Suc idx) (arr_elems array)"
    using b n e(1) idx by (simp add: arr_elems_def arr_slice_def n_def drop_take)
  moreover have "length ?b = length b" using n e(1) b(2) by (simp add: length_slice)
  ultimately show ?thesis using wf b idx by (auto simp: arr_wf_def)
qed

text \<open>The outcome of an operation: a good array that holds \<open>xs\<close>.\<close>

definition holds :: "('a DYNAMIC_ARRAY \<times> 'e) option \<Rightarrow> 'e \<Rightarrow> 'a list \<Rightarrow> bool" where
  "holds r e xs \<longleftrightarrow> (\<exists>array'. r = Some (array', e) \<and> arr_wf array' \<and> arr_elems array' = xs)"

lemma init_dynamic_array_ok:
  assumes "0 < sz" "0 < n" "0 < inc" "n * sz < 2 ^ 32"
  shows "if mem (n * sz) then holds (init_dynamic_array mem junk sz n inc) False [] else holds (init_dynamic_array mem junk sz n inc) True []"
  using assms by (auto simp: init_dynamic_array_def holds_def my_realloc_elems_def arr_wf_def arr_elems_def mult.commute)

text \<open>C23. An array that grows is the list of its elements: a new array is empty, \<open>insert_dynamic\<close> appends,
  \<open>pop_dynamic\<close> takes the last element away, \<open>set_dynamic\<close> replaces an element or extends the array with zero elements
  up to the new one, \<open>get_dynamic\<close> reads an element or zero behind the end, \<open>delete_dynamic_element\<close> closes the gap. An
  allocation that fails is reported and leaves the array as it was. The sizes in bytes must fit in 32 bits.\<close>

theorem dynamic_array_list:
  assumes wf: "arr_wf array"
    and room: "(max_element array + alloc_increment array) * size_of_element array < 2 ^ 32"
      "(idx + alloc_increment array) * size_of_element array < 2 ^ 32"
  shows "(insert_dynamic mem junk array x = Some (array, True) \<and> \<not> mem ((max_element array + alloc_increment array) * size_of_element array) \<or>
      holds (insert_dynamic mem junk array x) False (arr_elems array @ [x])) \<and>
    (if arr_elems array = [] then pop_dynamic array = Some (array, None)
     else holds (pop_dynamic array) (Some (length (arr_elems array) - 1)) (butlast (arr_elems array))) \<and>
    (set_dynamic mem junk zero array x idx = Some (array, True) \<and> (\<exists>n. \<not> mem n) \<or>
      holds (set_dynamic mem junk zero array x idx) False
        (take idx (arr_elems array @ replicate (idx - length (arr_elems array)) zero) @ [x] @ drop (Suc idx) (arr_elems array))) \<and>
    get_dynamic zero array idx = Some (if idx < length (arr_elems array) then arr_elems array ! idx else zero) \<and>
    (if idx < length (arr_elems array)
     then \<exists>array'. delete_dynamic_element array idx = Some array' \<and> arr_wf array' \<and> arr_elems array' = take idx (arr_elems array) @ drop (Suc idx) (arr_elems array)
     else True)"
proof -
  note l = length_arr_elems[OF wf]
  have e: "arr_elems array = [] \<longleftrightarrow> elements array = 0" using l by auto
  have "insert_dynamic mem junk array x = Some (array, True) \<and> \<not> mem ((max_element array + alloc_increment array) * size_of_element array) \<or>
      holds (insert_dynamic mem junk array x) False (arr_elems array @ [x])"
    using insert_dynamic_ok[OF wf room(1), of mem junk x] by (auto simp: holds_def split: if_splits)
  moreover have "if arr_elems array = [] then pop_dynamic array = Some (array, None)
     else holds (pop_dynamic array) (Some (length (arr_elems array) - 1)) (butlast (arr_elems array))"
    using pop_dynamic_ok[OF wf] unfolding e l holds_def by (auto split: if_splits)
  moreover have "set_dynamic mem junk zero array x idx = Some (array, True) \<and> (\<exists>n. \<not> mem n) \<or>
      holds (set_dynamic mem junk zero array x idx) False
        (take idx (arr_elems array @ replicate (idx - length (arr_elems array)) zero) @ [x] @ drop (Suc idx) (arr_elems array))"
  proof (cases "idx < max_element array")
    case True
    then show ?thesis using set_room[OF wf True, of mem junk zero x] unfolding l holds_def by blast
  next
    case False
    then have "max_element array \<le> idx" by simp
    then show ?thesis using set_grow[OF wf _ room(2), of mem junk zero x] unfolding l holds_def by (meson)
  qed
  moreover have "if idx < length (arr_elems array)
     then \<exists>array'. delete_dynamic_element array idx = Some array' \<and> arr_wf array' \<and> arr_elems array' = take idx (arr_elems array) @ drop (Suc idx) (arr_elems array)
     else True" using delete_element_ok[OF wf, of idx] l by simp
  ultimately show ?thesis using get_dynamic_ok[OF wf, of zero idx] by blast
qed

theorem dynamic_array_list_witness:
  "holds (insert_dynamic (\<lambda>n. True) (0 :: nat) \<lparr>buffer = Some [7, 8], elements = 2, max_element = 2, alloc_increment = 4, size_of_element = 8\<rparr> 9)
    False [7, 8, 9]"
  using dynamic_array_list[of "\<lparr>buffer = Some [7, 8 :: nat], elements = 2, max_element = 2, alloc_increment = 4, size_of_element = 8\<rparr>" 1
      "\<lambda>n. True" 0 9 0]
  by (simp add: arr_wf_def arr_elems_def)

text \<open>\<open>freeze_size\<close> gives the unused memory back; it does not look at the result of \<open>my_realloc\<close>, so that the contents
  are lost when the allocator fails.\<close>

lemma freeze_size_ok:
  assumes wf: "arr_wf array" and b: "buffer array \<noteq> None"
    and m: "mem (max (elements array) 1 * size_of_element array)" and one: "size_of_element array < 2 ^ 32"
  shows "arr_wf (freeze_size mem junk array) \<and> arr_elems (freeze_size mem junk array) = arr_elems array"
proof -
  obtain xs where xs: "buffer array = Some xs" "elements array \<le> length xs" using wf b by (auto simp: arr_wf_def)
  have s: "0 < size_of_element array" using wf by (simp add: arr_wf_def)
  have "elements array * size_of_element array < 2 ^ 32"
    by (rule times_less(1)[of "size_of_element array" "max_element array"]) (use wf in \<open>auto simp: arr_wf_def\<close>)
  then have "max (elements array) 1 * size_of_element array < 2 ^ 32" using one by (simp add: max_def)
  then show ?thesis using wf xs s m by (auto simp: freeze_size_def Let_def my_realloc_elems_def arr_wf_def arr_elems_def max_def)
qed

lemma freeze_size_loses:
  "buffer array = Some b \<Longrightarrow> max_element array \<noteq> max (elements array) 1 \<Longrightarrow> (\<And>n. \<not> mem n) \<Longrightarrow> arr_elems (freeze_size mem junk array) = []"
  by (simp add: freeze_size_def Let_def my_realloc_elems_def arr_elems_def)

end
