(* ===== verification/Hash_Table.thy ===== *)
theory Hash_Table
  imports Dyn_Array Key_Compare Byte_Order
begin

unbundle bit_operations_syntax

text \<open>
  The hash tables of \<open>mysys/hash.c\<close>: linear hashing with the chains inside the array, on the dynamic array of
  \<open>Dyn_Array\<close>, with the key functions of the binary collation (\<open>strings/ctype-bin.c\<close>).

  A record is a pointer, an element of the type \<open>'r\<close>; \<open>rb r\<close> is the memory it points to, which reaches at least to the
  end of its key. The collation and \<open>get_key\<close>
  are function pointers of the table. A pointer into the array is an index; the index \<open>NO_RECORD\<close> ends a chain. A loop
  that does not end, an access outside an array and a use of an unset variable are the value \<open>None\<close>. A call of \<open>free\<close> is
  recorded in the result.
\<close>

definition NO_RECORD :: nat where "NO_RECORD = 2 ^ 32 - 1"
definition LOWFIND :: nat where "LOWFIND = 1"
definition LOWUSED :: nat where "LOWUSED = 2"
definition HIGHFIND :: nat where "HIGHFIND = 4"
definition HIGHUSED :: nat where "HIGHUSED = 8"

record 'r HASH_LINK =
  link_next :: nat
  link_data :: 'r

record CHARSET_INFO =
  strnncoll :: "uchar list \<Rightarrow> uchar list \<Rightarrow> int"
  hash_sort :: "uchar list \<Rightarrow> ulonglong \<times> ulonglong \<Rightarrow> ulonglong \<times> ulonglong"

record 'r HASH =
  key_offset :: nat
  key_length :: nat
  records :: nat
  blength :: nat
  flags :: nat
  array :: "'r HASH_LINK DYNAMIC_ARRAY"
  get_key :: "('r \<Rightarrow> bool \<Rightarrow> uchar list) option"
  free :: bool
  charset :: CHARSET_INFO

subsection \<open>The binary collation\<close>

fun my_hash_sort_bin :: "uchar list \<Rightarrow> ulonglong \<times> ulonglong \<Rightarrow> ulonglong \<times> ulonglong" where
  "my_hash_sort_bin [] (nr1, nr2) = (nr1, nr2)"
| "my_hash_sort_bin (c # key) (nr1, nr2) =
     my_hash_sort_bin key (nr1 XOR ((ucast ((ucast nr1 :: uint32) AND 63) + nr2) * ucast c + push_bit 8 nr1), nr2 + 3)"

text \<open>The length difference is computed in \<open>uint\<close> and read as an \<open>int\<close>.\<close>

definition my_strnncoll_binary :: "uchar list \<Rightarrow> uchar list \<Rightarrow> bool \<Rightarrow> int" where
  "my_strnncoll_binary s t t_is_prefix =
     (let len = min (length s) (length t);
          cmp = memcmp len (mem_at s 0) (mem_at t 0) in
      if cmp \<noteq> 0 then cmp
      else sint (word_of_nat (if t_is_prefix then len else length s) - word_of_nat (length t) :: uint32))"

definition my_charset_bin :: CHARSET_INFO where
  "my_charset_bin = \<lparr>strnncoll = (\<lambda>s t. my_strnncoll_binary s t False), hash_sort = my_hash_sort_bin\<rparr>"

subsection \<open>Keys\<close>

definition calc_hash :: "'r HASH \<Rightarrow> uchar list \<Rightarrow> uint32" where
  "calc_hash h key = ucast (fst (hash_sort (charset h) key (1, 4)))"

text \<open>The bytes that \<open>hash_key\<close> returns a pointer to, with their number.\<close>

definition hash_key :: "('r \<Rightarrow> uchar list) \<Rightarrow> 'r HASH \<Rightarrow> 'r \<Rightarrow> bool \<Rightarrow> uchar list" where
  "hash_key rb h record first =
     (case get_key h of
        Some g \<Rightarrow> g record first
      | None \<Rightarrow> arr_slice (key_offset h) (key_length h) (rb record))"

definition hash_mask :: "uint32 \<Rightarrow> nat \<Rightarrow> nat \<Rightarrow> nat" where
  "hash_mask hashnr buffmax maxlength =
     (if unat (hashnr AND (word_of_nat buffmax - 1)) < maxlength then unat (hashnr AND (word_of_nat buffmax - 1))
      else unat (hashnr AND (drop_bit 1 (word_of_nat buffmax) - 1)))"

definition rec_hashnr :: "('r \<Rightarrow> uchar list) \<Rightarrow> 'r HASH \<Rightarrow> 'r \<Rightarrow> uint32" where
  "rec_hashnr rb h record = calc_hash h (hash_key rb h record False)"

definition hash_rec_mask :: "('r \<Rightarrow> uchar list) \<Rightarrow> 'r HASH \<Rightarrow> 'r HASH_LINK \<Rightarrow> nat \<Rightarrow> nat \<Rightarrow> nat" where
  "hash_rec_mask rb h pos buffmax maxlength = hash_mask (calc_hash h (hash_key rb h (link_data pos) False)) buffmax maxlength"

text \<open>Whether the key of a record differs from \<open>key\<close>; the read of the latter goes as far as the key of the record.\<close>

definition hashcmp :: "('r \<Rightarrow> uchar list) \<Rightarrow> 'r HASH \<Rightarrow> 'r HASH_LINK \<Rightarrow> uchar list \<Rightarrow> nat \<Rightarrow> bool option" where
  "hashcmp rb h pos key len =
     (let rec_key = hash_key rb h (link_data pos) True; rec_keylength = length rec_key in
      if len \<noteq> 0 \<and> len \<noteq> rec_keylength then Some True
      else do { k \<leftarrow> get_bytes key 0 rec_keylength; Some (strnncoll (charset h) rec_key k \<noteq> 0) })"

subsection \<open>Searching\<close>

definition links :: "'r HASH \<Rightarrow> 'r HASH_LINK list option" where
  "links h = buffer (array h)"

text \<open>The loop of \<open>hash_first\<close>: the index that is found, or \<open>None\<close> for none.\<close>

partial_function (option) first_loop ::
  "('r \<Rightarrow> uchar list) \<Rightarrow> 'r HASH \<Rightarrow> 'r HASH_LINK list \<Rightarrow> uchar list \<Rightarrow> nat \<Rightarrow> bool \<Rightarrow> nat \<Rightarrow> nat option option" where
  "first_loop rb h data key len flag idx =
     Option.bind (aget data idx) (\<lambda>pos.
     Option.bind (hashcmp rb h pos key len) (\<lambda>differs.
       if \<not> differs then Some (Some idx)
       else if flag \<and> hash_rec_mask rb h pos (blength h) (records h) \<noteq> idx then Some None
       else if link_next pos = NO_RECORD then Some None
       else first_loop rb h data key len False (link_next pos)))"

definition hash_first :: "('r \<Rightarrow> uchar list) \<Rightarrow> 'r HASH \<Rightarrow> uchar list \<Rightarrow> nat \<Rightarrow> ('r option \<times> nat) option" where
  "hash_first rb h key len =
     (if records h \<noteq> 0 then do {
        k \<leftarrow> get_bytes key 0 (if len \<noteq> 0 then len else key_length h);
        let idx = hash_mask (calc_hash h k) (blength h) (records h);
        data \<leftarrow> links h;
        r \<leftarrow> first_loop rb h data key len True idx;
        (case r of
           Some i \<Rightarrow> do { pos \<leftarrow> aget data i; Some (Some (link_data pos), i) }
         | None \<Rightarrow> Some (None, NO_RECORD)) }
      else Some (None, NO_RECORD))"

definition hash_search :: "('r \<Rightarrow> uchar list) \<Rightarrow> 'r HASH \<Rightarrow> uchar list \<Rightarrow> nat \<Rightarrow> 'r option option" where
  "hash_search rb h key len = map_option fst (hash_first rb h key len)"

partial_function (option) next_loop ::
  "('r \<Rightarrow> uchar list) \<Rightarrow> 'r HASH \<Rightarrow> 'r HASH_LINK list \<Rightarrow> uchar list \<Rightarrow> nat \<Rightarrow> nat \<Rightarrow> nat option option" where
  "next_loop rb h data key len idx =
     (if idx = NO_RECORD then Some None
      else Option.bind (aget data idx) (\<lambda>pos.
           Option.bind (hashcmp rb h pos key len) (\<lambda>differs.
             if \<not> differs then Some (Some idx) else next_loop rb h data key len (link_next pos))))"

definition hash_next :: "('r \<Rightarrow> uchar list) \<Rightarrow> 'r HASH \<Rightarrow> uchar list \<Rightarrow> nat \<Rightarrow> nat \<Rightarrow> ('r option \<times> nat) option" where
  "hash_next rb h key len current_record =
     (if current_record \<noteq> NO_RECORD then do {
        data \<leftarrow> links h;
        pos \<leftarrow> aget data current_record;
        r \<leftarrow> next_loop rb h data key len (link_next pos);
        (case r of
           Some i \<Rightarrow> do { pos \<leftarrow> aget data i; Some (Some (link_data pos), i) }
         | None \<Rightarrow> Some (None, NO_RECORD)) }
      else Some (None, current_record))"

definition hash_element :: "'r HASH \<Rightarrow> nat \<Rightarrow> 'r option option" where
  "hash_element h idx =
     (if idx < records h then do { pos \<leftarrow> dynamic_element (array h) idx; Some (Some (link_data pos)) } else Some None)"

definition set_links :: "'r HASH \<Rightarrow> 'r HASH_LINK list \<Rightarrow> 'r HASH" where
  "set_links h data = h\<lparr>array := (array h)\<lparr>buffer := Some data\<rparr>\<rparr>"

definition set_next :: "'r HASH_LINK list \<Rightarrow> nat \<Rightarrow> nat \<Rightarrow> 'r HASH_LINK list option" where
  "set_next data i n = do { l \<leftarrow> aget data i; aset data i (l\<lparr>link_next := n\<rparr>) }"

definition hash_replace :: "'r HASH \<Rightarrow> nat \<Rightarrow> 'r \<Rightarrow> 'r HASH option" where
  "hash_replace h current_record new_row =
     (if current_record \<noteq> NO_RECORD then do {
        data \<leftarrow> links h;
        l \<leftarrow> aget data current_record;
        data \<leftarrow> aset data current_record (l\<lparr>link_data := new_row\<rparr>);
        Some (set_links h data) }
      else Some h)"

subsection \<open>Creation and removal\<close>

text \<open>\<open>sizeof(HASH_LINK)\<close>: an index and a pointer, aligned.\<close>

definition sizeof_HASH_LINK :: nat where "sizeof_HASH_LINK = 16"

definition hash_init ::
  "(nat \<Rightarrow> bool) \<Rightarrow> 'r HASH_LINK \<Rightarrow> 'r HASH \<Rightarrow> CHARSET_INFO \<Rightarrow> nat \<Rightarrow> nat \<Rightarrow> nat \<Rightarrow>
    ('r \<Rightarrow> bool \<Rightarrow> uchar list) option \<Rightarrow> bool \<Rightarrow> nat \<Rightarrow> ('r HASH \<times> bool) option" where
  "hash_init mem junk h cs sz koffset klength gkey free_element fl = do {
     (arr, err) \<leftarrow> init_dynamic_array mem junk sizeof_HASH_LINK sz 0;
     let h = h\<lparr>records := 0, array := arr\<rparr>;
     Some (if err then (h\<lparr>free := False\<rparr>, True)
           else (h\<lparr>key_offset := koffset, key_length := klength, blength := 1, get_key := gkey, free := free_element,
                   flags := fl, charset := cs\<rparr>, False)) }"

text \<open>The records that are passed to \<open>free\<close>, in the order of the array.\<close>

definition hash_free_elements :: "'r HASH \<Rightarrow> ('r HASH \<times> 'r list) option" where
  "hash_free_elements h = do {
     freed \<leftarrow>
       (if free h \<and> records h \<noteq> 0 then do {
          data \<leftarrow> links h;
          if records h \<le> length data then Some (map link_data (take (records h) data)) else None }
        else Some []);
     Some (h\<lparr>records := 0\<rparr>, freed) }"

definition hash_free :: "'r HASH \<Rightarrow> ('r HASH \<times> 'r list) option" where
  "hash_free h = do {
     (h, freed) \<leftarrow> hash_free_elements h;
     Some (h\<lparr>free := False, array := delete_dynamic (array h)\<rparr>, freed) }"

definition my_hash_reset :: "'r HASH \<Rightarrow> ('r HASH \<times> 'r list) option" where
  "my_hash_reset h = do {
     (h, freed) \<leftarrow> hash_free_elements h;
     Some (h\<lparr>array := reset_dynamic (array h), blength := 1\<rparr>, freed) }"

subsection \<open>Insertion\<close>

partial_function (option) movelink :: "'r HASH_LINK list \<Rightarrow> nat \<Rightarrow> nat \<Rightarrow> nat \<Rightarrow> 'r HASH_LINK list option" where
  "movelink data fnd next_link newlink =
     Option.bind (aget data next_link) (\<lambda>old_link.
       if link_next old_link \<noteq> fnd then movelink data fnd (link_next old_link) newlink
       else set_next data next_link newlink)"

text \<open>The variables of the loop of \<open>my_hash_insert\<close> that splits a chain; the two pointers to records are unset at first.\<close>

record 'r split_state =
  flag :: nat
  empty :: nat
  gpos :: nat
  gpos2 :: nat
  ptr_to_rec :: "'r option"
  ptr_to_rec2 :: "'r option"
  sdata :: "'r HASH_LINK list"

definition write_link :: "'r HASH_LINK list \<Rightarrow> nat \<Rightarrow> nat \<Rightarrow> 'r option \<Rightarrow> 'r HASH_LINK list option" where
  "write_link data i n r = do { r \<leftarrow> r; aset data i \<lparr>link_next = n, link_data = r\<rparr> }"

text \<open>The body of the loop behind its first test, for the position \<open>pos\<close>.\<close>

definition split_step :: "nat \<Rightarrow> uint32 \<Rightarrow> nat \<Rightarrow> 'r split_state \<Rightarrow> 'r split_state option" where
  "split_step halfbuff hash_nr pos st =
     (if unat hash_nr AND halfbuff = 0 then
        if flag st AND LOWFIND = 0 then do {
          l \<leftarrow> aget (sdata st) pos;
          Some (if flag st AND HIGHFIND \<noteq> 0
                then st\<lparr>flag := LOWFIND OR HIGHFIND, gpos := empty st, ptr_to_rec := Some (link_data l), empty := pos\<rparr>
                else st\<lparr>flag := LOWFIND OR LOWUSED, gpos := pos, ptr_to_rec := Some (link_data l)\<rparr>) }
        else do {
          st \<leftarrow> (if flag st AND LOWUSED = 0 then do {
                   data \<leftarrow> write_link (sdata st) (gpos st) pos (ptr_to_rec st);
                   Some (st\<lparr>sdata := data, flag := (flag st AND HIGHFIND) OR (LOWFIND OR LOWUSED)\<rparr>) }
                 else Some st);
          l \<leftarrow> aget (sdata st) pos;
          Some (st\<lparr>gpos := pos, ptr_to_rec := Some (link_data l)\<rparr>) }
      else
        if flag st AND HIGHFIND = 0 then do {
          l \<leftarrow> aget (sdata st) pos;
          Some (st\<lparr>flag := (flag st AND LOWFIND) OR HIGHFIND, gpos2 := empty st, empty := pos, ptr_to_rec2 := Some (link_data l)\<rparr>) }
        else do {
          st \<leftarrow> (if flag st AND HIGHUSED = 0 then do {
                   data \<leftarrow> write_link (sdata st) (gpos2 st) pos (ptr_to_rec2 st);
                   Some (st\<lparr>sdata := data, flag := (flag st AND LOWFIND) OR (HIGHFIND OR HIGHUSED)\<rparr>) }
                 else Some st);
          l \<leftarrow> aget (sdata st) pos;
          Some (st\<lparr>gpos2 := pos, ptr_to_rec2 := Some (link_data l)\<rparr>) })"

partial_function (option) split_loop ::
  "('r \<Rightarrow> uchar list) \<Rightarrow> 'r HASH \<Rightarrow> nat \<Rightarrow> nat \<Rightarrow> 'r split_state \<Rightarrow> nat \<Rightarrow> 'r split_state option" where
  "split_loop rb h halfbuff first_index st idx =
     Option.bind (aget (sdata st) idx) (\<lambda>pos.
       if flag st = 0 \<and> hash_mask (rec_hashnr rb h (link_data pos)) (blength h) (records h) \<noteq> first_index then Some st
       else Option.bind (split_step halfbuff (rec_hashnr rb h (link_data pos)) idx st) (\<lambda>st.
            Option.bind (aget (sdata st) idx) (\<lambda>pos.
              if link_next pos \<noteq> NO_RECORD then split_loop rb h halfbuff first_index st (link_next pos) else Some st)))"

text \<open>The links that are still to be written after the loop.\<close>

definition split_end :: "'r split_state \<Rightarrow> 'r split_state option" where
  "split_end st = do {
     data \<leftarrow> (if flag st AND (LOWFIND OR LOWUSED) = LOWFIND then write_link (sdata st) (gpos st) NO_RECORD (ptr_to_rec st) else Some (sdata st));
     data \<leftarrow> (if flag st AND (HIGHFIND OR HIGHUSED) = HIGHFIND then write_link data (gpos2 st) NO_RECORD (ptr_to_rec2 st) else Some data);
     Some (st\<lparr>sdata := data\<rparr>) }"

text \<open>The placing of the new record, with the free position \<open>emp\<close>.\<close>

definition insert_place :: "('r \<Rightarrow> uchar list) \<Rightarrow> 'r HASH \<Rightarrow> 'r HASH_LINK list \<Rightarrow> nat \<Rightarrow> 'r \<Rightarrow> 'r HASH_LINK list option" where
  "insert_place rb h data emp record =
     (let idx = hash_mask (rec_hashnr rb h record) (blength h) (records h + 1) in
      if idx = emp then aset data idx \<lparr>link_next = NO_RECORD, link_data = record\<rparr>
      else do {
        pos \<leftarrow> aget data idx;
        data \<leftarrow> aset data emp pos;
        let gp = hash_rec_mask rb h pos (blength h) (records h + 1);
        if idx = gp then aset data idx \<lparr>link_next = emp, link_data = record\<rparr>
        else do {
          data \<leftarrow> aset data idx \<lparr>link_next = NO_RECORD, link_data = record\<rparr>;
          movelink data idx gp emp } })"

definition my_hash_insert :: "(nat \<Rightarrow> bool) \<Rightarrow> 'r HASH_LINK \<Rightarrow> ('r \<Rightarrow> uchar list) \<Rightarrow> 'r HASH \<Rightarrow> 'r \<Rightarrow> ('r HASH \<times> bool) option" where
  "my_hash_insert mem junk rb h record = do {
     (arr, p) \<leftarrow> alloc_dynamic mem junk (array h);
     (case p of
        None \<Rightarrow> Some (h\<lparr>array := arr\<rparr>, True)
      | Some emp \<Rightarrow> do {
          let h = h\<lparr>array := arr\<rparr>;
          data \<leftarrow> links h;
          let halfbuff = blength h div 2;
          let first_index = u32 (records h + (2 ^ 32 - halfbuff));
          let st = \<lparr>flag = 0, empty = emp, gpos = 0, gpos2 = 0, ptr_to_rec = None, ptr_to_rec2 = None, sdata = data\<rparr>;
          st \<leftarrow> (if first_index \<noteq> records h
                then do { st \<leftarrow> split_loop rb h halfbuff first_index st first_index; split_end st }
                else Some st);
          data \<leftarrow> insert_place rb h (sdata st) (empty st) record;
          let h = (set_links h data)\<lparr>records := u32 (records h + 1)\<rparr>;
          Some (if records h = blength h then h\<lparr>blength := u32 (blength h + blength h)\<rparr> else h, False) }) }"

subsection \<open>Deletion\<close>

text \<open>The search for the record itself: its position and the one before it in the chain.\<close>

partial_function (option) find_record :: "'r HASH_LINK list \<Rightarrow> 'r \<Rightarrow> nat \<Rightarrow> nat option \<Rightarrow> (nat \<times> nat option) option option" where
  "find_record data record pos prev =
     Option.bind (aget data pos) (\<lambda>l.
       if link_data l = record then Some (Some (pos, prev))
       else if link_next l = NO_RECORD then Some None
       else find_record data record (link_next l) (Some pos))"

text \<open>The removal from the chain, which leaves a free position.\<close>

definition unlink :: "'r HASH_LINK list \<Rightarrow> nat \<Rightarrow> nat option \<Rightarrow> ('r HASH_LINK list \<times> nat) option" where
  "unlink data pos prev = do {
     l \<leftarrow> aget data pos;
     (case prev of
        Some g \<Rightarrow> do { data \<leftarrow> set_next data g (link_next l); Some (data, pos) }
      | None \<Rightarrow>
          if link_next l \<noteq> NO_RECORD then do {
            e \<leftarrow> aget data (link_next l);
            data \<leftarrow> aset data pos e;
            Some (data, link_next l) }
          else Some (data, pos)) }"

text \<open>The move of the record at the last position; \<open>h\<close> has the new sizes, \<open>old_blength\<close> is the size before.\<close>

definition delete_move :: "('r \<Rightarrow> uchar list) \<Rightarrow> 'r HASH \<Rightarrow> nat \<Rightarrow> 'r HASH_LINK list \<Rightarrow> nat \<Rightarrow> nat \<Rightarrow> 'r HASH_LINK list option" where
  "delete_move rb h old_blength data emp lastpos = do {
     l \<leftarrow> aget data lastpos;
     let lastpos_hashnr = rec_hashnr rb h (link_data l);
     let pos = hash_mask lastpos_hashnr (blength h) (records h);
     if pos = emp then aset data emp l
     else do {
       p \<leftarrow> aget data pos;
       let pos_hashnr = rec_hashnr rb h (link_data p);
       let pos3 = hash_mask pos_hashnr (blength h) (records h);
       if pos \<noteq> pos3 then do {
         data \<leftarrow> aset data emp p;
         data \<leftarrow> aset data pos l;
         movelink data pos pos3 emp }
       else do {
         let pos2 = hash_mask lastpos_hashnr old_blength (records h + 1);
         let same = (pos2 = hash_mask pos_hashnr old_blength (records h + 1));
         if same \<and> pos2 \<noteq> records h then do {
           data \<leftarrow> aset data emp l;
           movelink data lastpos pos emp }
         else do {
           let idx = (if same then pos else NO_RECORD);
           data \<leftarrow> aset data emp l;
           p \<leftarrow> aget data pos;
           data \<leftarrow> movelink data idx emp (link_next p);
           set_next data pos emp } } } }"

definition hash_delete :: "('r \<Rightarrow> uchar list) \<Rightarrow> 'r HASH \<Rightarrow> 'r \<Rightarrow> ('r HASH \<times> bool \<times> 'r list) option" where
  "hash_delete rb h record =
     (if records h = 0 then Some (h, True, [])
      else do {
        let old_blength = blength h;
        data \<leftarrow> links h;
        r \<leftarrow> find_record data record (hash_mask (rec_hashnr rb h record) old_blength (records h)) None;
        (case r of
           None \<Rightarrow> Some (h, True, [])
         | Some (pos, prev) \<Rightarrow> do {
             let h = h\<lparr>records := records h - 1\<rparr>;
             let h = (if records h < blength h div 2 then h\<lparr>blength := blength h div 2\<rparr> else h);
             let lastpos = records h;
             (data, emp) \<leftarrow> unlink data pos prev;
             data \<leftarrow> (if emp = lastpos then Some data else delete_move rb h old_blength data emp lastpos);
             (arr, p) \<leftarrow> pop_dynamic (array (set_links h data));
             Some (h\<lparr>array := arr\<rparr>, False, if free h then [record] else []) }) })"

subsection \<open>Update\<close>

definition hash_update :: "('r \<Rightarrow> uchar list) \<Rightarrow> 'r HASH \<Rightarrow> 'r \<Rightarrow> uchar list \<Rightarrow> nat \<Rightarrow> ('r HASH \<times> bool) option" where
  "hash_update rb h record old_key old_key_length = do {
     data \<leftarrow> links h;
     k \<leftarrow> get_bytes old_key 0 (if old_key_length \<noteq> 0 then old_key_length else key_length h);
     let idx = hash_mask (calc_hash h k) (blength h) (records h);
     let new_index = hash_mask (rec_hashnr rb h record) (blength h) (records h);
     if idx = new_index then Some (h, False)
     else do {
       r \<leftarrow> find_record data record idx None;
       (case r of
          None \<Rightarrow> Some (h, True)
        | Some (idx, previous) \<Rightarrow> do {
            org_link \<leftarrow> aget data idx;
            (data, emp) \<leftarrow> unlink data idx previous;
            data \<leftarrow>
              (if new_index = emp then do {
                 data \<leftarrow> (if emp \<noteq> idx then aset data emp org_link else Some data);
                 set_next data emp NO_RECORD }
               else do {
                 pos \<leftarrow> aget data new_index;
                 let new_pos_index = hash_rec_mask rb h pos (blength h) (records h);
                 if new_index \<noteq> new_pos_index then do {
                   data \<leftarrow> aset data emp pos;
                   data \<leftarrow> movelink data new_index new_pos_index emp;
                   aset data new_index (org_link\<lparr>link_next := NO_RECORD\<rparr>) }
                 else do {
                   data \<leftarrow> aset data emp (org_link\<lparr>link_next := link_next pos\<rparr>);
                   set_next data new_index emp } });
            Some (set_links h data, False) }) } }"

subsection \<open>The debug check\<close>

text \<open>The numbers of links and seeks, which are only printed, are left out; \<open>st\<close> is the pair of \<open>found\<close> and \<open>error\<close>.\<close>

partial_function (option) check_chain ::
  "('r \<Rightarrow> uchar list) \<Rightarrow> 'r HASH \<Rightarrow> 'r HASH_LINK list \<Rightarrow> nat \<Rightarrow> nat \<Rightarrow> nat \<times> bool \<Rightarrow> (nat \<times> bool) option" where
  "check_chain rb h data i idx st =
     (if idx \<noteq> NO_RECORD \<and> fst st < u32 (records h + 1) then
        Option.bind (aget data idx) (\<lambda>hash_info.
          let error = (snd st \<or> idx \<ge> records h) in
          if hash_rec_mask rb h hash_info (blength h) (records h) \<noteq> i
          then check_chain rb h data i (link_next hash_info) (fst st, True)
          else check_chain rb h data i (link_next hash_info) (u32 (fst st + 1), error))
      else Some st)"

primrec check_loop ::
  "('r \<Rightarrow> uchar list) \<Rightarrow> 'r HASH \<Rightarrow> 'r HASH_LINK list \<Rightarrow> nat list \<Rightarrow> nat \<times> bool \<Rightarrow> (nat \<times> bool) option" where
  "check_loop rb h data [] st = Some st"
| "check_loop rb h data (i # is) st = do {
     l \<leftarrow> aget data i;
     st \<leftarrow> (if hash_rec_mask rb h l (blength h) (records h) = i
            then check_chain rb h data i (link_next l) (u32 (fst st + 1), snd st) else Some st);
     check_loop rb h data is st }"

definition hash_check :: "('r \<Rightarrow> uchar list) \<Rightarrow> 'r HASH \<Rightarrow> bool option" where
  "hash_check rb h = do {
     (found, error) \<leftarrow> check_loop rb h (case links h of None \<Rightarrow> [] | Some data \<Rightarrow> data) [0..<records h] (0, False);
     Some (error \<or> found \<noteq> records h) }"

text \<open>The loops are executable.\<close>

declare first_loop.simps [code] next_loop.simps [code] movelink.simps [code] split_loop.simps [code] find_record.simps [code] check_chain.simps [code]

end
