(* ===== verification/Hash_Chain.thy ===== *)
theory Hash_Chain
  imports Hash_Table "HOL-Library.Multiset"
begin

text \<open>
  Chains of links in an array of \<open>HASH_LINK\<close>s, and the invariant of a table: the records whose home is the position
  \<open>b\<close> form one chain that starts at \<open>b\<close>. The invariant is stated for a set of used positions, so that it also
  describes a table with a free position in the middle of an operation.
\<close>

subsection \<open>Paths\<close>

abbreviation nxt :: "'r HASH_LINK list \<Rightarrow> nat \<Rightarrow> nat" where
  "nxt d i \<equiv> link_next (d ! i)"

abbreviation dat :: "'r HASH_LINK list \<Rightarrow> nat \<Rightarrow> 'r" where
  "dat d i \<equiv> link_data (d ! i)"

primrec lpath :: "'r HASH_LINK list \<Rightarrow> nat \<Rightarrow> nat list \<Rightarrow> nat \<Rightarrow> bool" where
  "lpath d x [] y \<longleftrightarrow> x = y"
| "lpath d x (a # as) y \<longleftrightarrow> x = a \<and> a < length d \<and> a \<noteq> NO_RECORD \<and> lpath d (nxt d a) as y"

lemma lpath_append [simp]: "lpath d x (as @ bs) z \<longleftrightarrow> (\<exists>y. lpath d x as y \<and> lpath d y bs z)"
  by (induction as arbitrary: x) auto

lemma lpath_cong:
  assumes "\<And>i. i \<in> set as \<Longrightarrow> nxt d' i = nxt d i" "length d' = length d"
  shows "lpath d' x as y = lpath d x as y"
  using assms(1) by (induction as arbitrary: x) (auto simp: assms(2))

lemma lpath_update [simp]: "i \<notin> set as \<Longrightarrow> lpath (d[i := v]) x as y = lpath d x as y"
  by (rule lpath_cong) (metis nth_list_update_neq, simp)

lemma lpath_unique: "lpath d x as NO_RECORD \<Longrightarrow> lpath d x bs NO_RECORD \<Longrightarrow> as = bs"
proof (induction as arbitrary: x bs)
  case Nil
  then show ?case by (cases bs) auto
next
  case (Cons a as)
  then show ?case by (cases bs) auto
qed

lemma lpath_distinct: "lpath d x as NO_RECORD \<Longrightarrow> distinct as"
proof (induction as arbitrary: x)
  case (Cons a as)
  have "a \<notin> set as"
  proof
    assume "a \<in> set as"
    then obtain bs cs where "as = bs @ a # cs" by (meson split_list)
    then have "lpath d a (a # cs) NO_RECORD" "lpath d a (a # as) NO_RECORD" using Cons.prems by auto
    then have "a # cs = a # as" by (rule lpath_unique)
    then show False using arg_cong[OF \<open>as = bs @ a # cs\<close>, of length] by simp
  qed
  then show ?case using Cons by auto
qed simp

lemma lpath_head: "lpath d x as y \<Longrightarrow> as \<noteq> [] \<Longrightarrow> hd as = x"
  by (cases as) auto

lemma lpath_bound: "lpath d x as y \<Longrightarrow> i \<in> set as \<Longrightarrow> i < length d \<and> i \<noteq> NO_RECORD"
  by (induction as arbitrary: x) auto

text \<open>Redirecting the last link of a path.\<close>

lemma lpath_redirect:
  assumes "lpath d x (as @ [a]) y" "a \<notin> set as"
  shows "lpath (d[a := (d ! a)\<lparr>link_next := z\<rparr>]) x (as @ [a]) z"
  using assms by auto

lemma movelink_ok:
  "lpath d x (as @ [a]) y \<Longrightarrow> y \<notin> set as \<Longrightarrow> y \<noteq> a \<Longrightarrow> movelink d y x z = Some (d[a := (d ! a)\<lparr>link_next := z\<rparr>])"
proof (induction as arbitrary: x)
  case Nil
  then show ?case by (subst movelink.simps) (simp add: set_next_def)
next
  case (Cons b as)
  then have "nxt d b \<noteq> y" by (cases as) auto
  moreover have "movelink d y (nxt d b) z = Some (d[a := (d ! a)\<lparr>link_next := z\<rparr>])"
    using Cons.prems by (intro Cons.IH) auto
  moreover have "x = b" "b < length d" using Cons.prems by auto
  ultimately show ?case by (subst movelink.simps) simp
qed

subsection \<open>Tables\<close>

definition bucket :: "'r HASH_LINK list \<Rightarrow> nat set \<Rightarrow> ('r \<Rightarrow> nat) \<Rightarrow> nat \<Rightarrow> nat set" where
  "bucket d S f b = {i \<in> S. f (dat d i) = b}"

definition tbl :: "'r HASH_LINK list \<Rightarrow> nat set \<Rightarrow> nat \<Rightarrow> ('r \<Rightarrow> nat) \<Rightarrow> bool" where
  "tbl d S N f \<longleftrightarrow> S \<subseteq> {..<N} \<and> N \<le> length d \<and> N \<le> NO_RECORD \<and> (\<forall>i \<in> S. f (dat d i) < N) \<and>
     (\<forall>b < N. bucket d S f b \<noteq> {} \<longrightarrow> (\<exists>xs. lpath d b xs NO_RECORD \<and> set xs = bucket d S f b))"

lemma tblD:
  assumes "tbl d S N f"
  shows "S \<subseteq> {..<N}" "N \<le> length d" "N \<le> NO_RECORD" "finite S" "\<And>i. i \<in> S \<Longrightarrow> f (dat d i) < N" "\<And>i. i \<in> S \<Longrightarrow> i < length d"
  using assms by (auto simp: tbl_def intro: finite_subset)

lemma tbl_path: "tbl d S N f \<Longrightarrow> b < N \<Longrightarrow> bucket d S f b \<noteq> {} \<Longrightarrow> \<exists>xs. lpath d b xs NO_RECORD \<and> set xs = bucket d S f b"
  by (simp add: tbl_def)

text \<open>The chain of a record begins at its home.\<close>

lemma tbl_chain:
  assumes "tbl d S N f" "i \<in> S"
  obtains xs where "lpath d (f (dat d i)) (f (dat d i) # xs) NO_RECORD" "set (f (dat d i) # xs) = bucket d S f (f (dat d i))"
    "f (dat d i) \<in> S" "f (dat d (f (dat d i))) = f (dat d i)" "i \<in> set (f (dat d i) # xs)" "distinct (f (dat d i) # xs)"
proof -
  let ?b = "f (dat d i)"
  have "i \<in> bucket d S f ?b" using assms(2) by (simp add: bucket_def)
  moreover have "?b < N" using tblD(5)[OF assms] .
  ultimately obtain ys where ys: "lpath d ?b ys NO_RECORD" "set ys = bucket d S f ?b" using assms(1) by (auto simp: tbl_def)
  then obtain xs where xs: "ys = ?b # xs" using \<open>i \<in> bucket d S f ?b\<close> by (cases ys) auto
  then have "?b \<in> bucket d S f ?b" using ys(2) by auto
  then show thesis using that[of xs] ys xs \<open>i \<in> bucket d S f ?b\<close> lpath_distinct[OF ys(1)] by (auto simp: bucket_def)
qed

lemma bucket_home:
  "tbl d S N f \<Longrightarrow> bucket d S f b \<noteq> {} \<Longrightarrow> b \<in> S \<and> f (dat d b) = b"
proof -
  assume t: "tbl d S N f" and "bucket d S f b \<noteq> {}"
  then obtain i where "i \<in> S" "f (dat d i) = b" by (auto simp: bucket_def)
  from t \<open>i \<in> S\<close> have "f (dat d i) \<in> S \<and> f (dat d (f (dat d i))) = f (dat d i)" by (rule tbl_chain) blast
  with \<open>f (dat d i) = b\<close> show ?thesis by simp
qed

text \<open>The records of the used positions.\<close>

definition recs :: "'r HASH_LINK list \<Rightarrow> nat set \<Rightarrow> 'r multiset" where
  "recs d S = image_mset (dat d) (mset_set S)"

lemma recs_cong: "(\<And>i. i \<in> S \<Longrightarrow> dat d' i = dat d i) \<Longrightarrow> recs d' S = recs d S"
  by (cases "finite S") (auto simp: recs_def intro!: image_mset_cong)

lemma recs_insert: "finite S \<Longrightarrow> i \<notin> S \<Longrightarrow> recs d (insert i S) = add_mset (dat d i) (recs d S)"
  by (simp add: recs_def)

lemma recs_remove: "finite S \<Longrightarrow> i \<in> S \<Longrightarrow> recs d S = add_mset (dat d i) (recs d (S - {i}))"
  by (simp add: recs_def mset_set.remove)

lemma set_recs: "finite S \<Longrightarrow> set_mset (recs d S) = dat d ` S"
  by (simp add: recs_def)

text \<open>A change of the table that concerns the buckets \<open>B\<close> only.\<close>

lemma tbl_change:
  assumes t: "tbl d S N f" and S: "S' \<subseteq> {..<N'}" "N' \<le> length d" "N' \<le> NO_RECORD" "length d' = length d"
    and home: "\<And>i. i \<in> S' \<Longrightarrow> f' (dat d' i) < N'"
    and keep: "\<And>b. b < N' \<Longrightarrow> b \<notin> B \<Longrightarrow> b < N \<and> bucket d' S' f' b = bucket d S f b \<and> (\<forall>i \<in> bucket d S f b. d' ! i = d ! i)"
    and new: "\<And>b. b < N' \<Longrightarrow> b \<in> B \<Longrightarrow> bucket d' S' f' b \<noteq> {} \<Longrightarrow> \<exists>xs. lpath d' b xs NO_RECORD \<and> set xs = bucket d' S' f' b"
  shows "tbl d' S' N' f'"
proof -
  have "\<exists>xs. lpath d' b xs NO_RECORD \<and> set xs = bucket d' S' f' b" if b: "b < N'" "bucket d' S' f' b \<noteq> {}" for b
  proof (cases "b \<in> B")
    case True
    then show ?thesis using new b by blast
  next
    case False
    note k = keep[OF b(1) False]
    then obtain xs where "lpath d b xs NO_RECORD" "set xs = bucket d S f b" using tbl_path[OF t, of b] b(2) by auto
    moreover from this have "lpath d' b xs NO_RECORD" using lpath_cong[of xs d' d b NO_RECORD] k S(4) by simp
    ultimately show ?thesis using k by auto
  qed
  then show ?thesis using S home by (auto simp: tbl_def)
qed

text \<open>A record that goes to the free position \<open>e\<close>, which is its home.\<close>

lemma place_home:
  assumes t: "tbl d S N f" and e: "e \<notin> S" "e < N" and r: "f r = e"
  shows "tbl (d[e := \<lparr>link_next = NO_RECORD, link_data = r\<rparr>]) (insert e S) N f"
proof -
  have len: "e < length d" using tblD(2)[OF t] e(2) by simp
  have ne: "bucket d S f e = {}" using bucket_home[OF t] e(1) by blast
  have S: "S \<subseteq> {..<N}" using tblD(1)[OF t] .
  show ?thesis
  proof (rule tbl_change[OF t, where B = "{e}"])
    fix b assume "b < N" "b \<notin> {e}"
    then show "b < N \<and> bucket (d[e := \<lparr>link_next = NO_RECORD, link_data = r\<rparr>]) (insert e S) f b = bucket d S f b \<and>
      (\<forall>i \<in> bucket d S f b. d[e := \<lparr>link_next = NO_RECORD, link_data = r\<rparr>] ! i = d ! i)"
      using e(1) len r by (auto simp: bucket_def nth_list_update)
  next
    fix b assume "b \<in> {e}"
    then have "bucket (d[e := \<lparr>link_next = NO_RECORD, link_data = r\<rparr>]) (insert e S) f b = {e}"
      using e(1) len r ne by (auto simp: bucket_def nth_list_update)
    then show "\<exists>xs. lpath (d[e := \<lparr>link_next = NO_RECORD, link_data = r\<rparr>]) b xs NO_RECORD \<and>
        set xs = bucket (d[e := \<lparr>link_next = NO_RECORD, link_data = r\<rparr>]) (insert e S) f b"
      using \<open>b \<in> {e}\<close> len e(2) tblD(3)[OF t] by (intro exI[of _ "[e]"]) simp
  next
    fix i assume "i \<in> insert e S"
    then show "f (dat (d[e := \<lparr>link_next = NO_RECORD, link_data = r\<rparr>]) i) < N"
      using tblD(5)[OF t, of i] e len r by (auto simp: nth_list_update)
  qed (use S e tblD(2,3)[OF t] in auto)
qed

text \<open>A chain that loses its member at \<open>p\<close> to the free position \<open>e\<close>, and a new chain at \<open>p\<close>: the record at \<open>p\<close> was not at its home.\<close>

lemma place_evict:
  assumes t: "tbl d S N f" and e: "e \<notin> S" "e < N" and p: "p \<in> S" "f (dat d p) \<noteq> p" and r: "f r = p"
  shows "\<exists>d'. movelink (d[e := d ! p, p := \<lparr>link_next = NO_RECORD, link_data = r\<rparr>]) p (f (dat d p)) e = Some d' \<and>
    length d' = length d \<and> tbl d' (insert e S) N f \<and> recs d' (insert e S) = add_mset r (recs d S)"
proof -
  define g where "g = f (dat d p)"
  have len: "e < length d" "p < length d" and pe: "p \<noteq> e" using tblD(2,6)[OF t] e p by auto
  obtain xs where xs: "lpath d g (g # xs) NO_RECORD" "set (g # xs) = bucket d S f g" "p \<in> set (g # xs)" "distinct (g # xs)" "g < N"
    using tbl_chain[OF t p(1)] tblD(5)[OF t p(1)] unfolding g_def by metis
  have "p \<noteq> g" using p(2) by (simp add: g_def)
  then have "p \<in> set xs" using xs(3) by simp
  then obtain as a bs where ab: "g # xs = as @ a # p # bs"
    by (metis append_Cons append_butlast_last_id append_assoc append_Nil split_list list.distinct(1))
  have sub: "set (g # xs) \<subseteq> S" using xs(2) by (auto simp: bucket_def)
  have d: "p \<notin> set as" "a \<noteq> p" "a \<notin> set as" "p \<notin> set bs" "a \<notin> set bs" "set as \<inter> set bs = {}" using xs(4) unfolding ab by auto
  have ea: "e \<notin> set as" "e \<noteq> a" "e \<notin> set bs" using e(1) sub unfolding ab by auto
  have path: "lpath d g (as @ [a]) p" "lpath d (nxt d p) bs NO_RECORD" using xs(1) unfolding ab by auto
  define d1 where "d1 = d[e := d ! p, p := \<lparr>link_next = NO_RECORD, link_data = r\<rparr>]"
  define d' where "d' = d1[a := (d1 ! a)\<lparr>link_next := e\<rparr>]"
  have l1: "length d1 = length d" by (simp add: d1_def)
  have path1: "lpath d1 g (as @ [a]) p" "lpath d1 (nxt d p) bs NO_RECORD" using path d ea by (auto simp: d1_def)
  have m: "movelink d1 p g e = Some d'" unfolding d'_def using path1 d by (intro movelink_ok) auto
  have al: "a < length d" "a \<in> S" using lpath_bound[OF xs(1), of a] sub unfolding ab by auto
  have l': "length d' = length d" by (simp add: d'_def l1)
  have nth: "d' ! i = (if i = a then (d ! a)\<lparr>link_next := e\<rparr> else if i = p then \<lparr>link_next = NO_RECORD, link_data = r\<rparr> else if i = e then d ! p else d ! i)" for i
    using len al d ea pe by (auto simp: d'_def d1_def nth_list_update)
  have dat': "dat d' i = (if i = p then r else if i = e then dat d p else dat d i)" for i using d ea by (auto simp: nth)
  have bp: "bucket d S f p = {}" using bucket_home[OF t, of p] p(2) by auto
  have "tbl d' (insert e S) N f"
  proof (rule tbl_change[OF t, where B = "{g, p}"])
    fix b assume "b < N" "b \<notin> {g, p}"
    moreover have "i \<noteq> a" "i \<noteq> p" "i \<noteq> e" if "i \<in> bucket d S f b" for i
      using that \<open>b \<notin> {g, p}\<close> xs(2) e(1) unfolding ab by (auto simp: bucket_def g_def)
    ultimately show "b < N \<and> bucket d' (insert e S) f b = bucket d S f b \<and> (\<forall>i \<in> bucket d S f b. d' ! i = d ! i)"
      using r e(1) ea(2) by (auto simp: bucket_def dat' nth g_def)
  next
    fix b assume b: "b \<in> {g, p}"
    have "bucket d' (insert e S) f p = {p}" using bp r p(1,2) by (auto simp: bucket_def dat')
    moreover have "bucket d' (insert e S) f g = insert e (bucket d S f g - {p})" using r e(1) p pe by (auto simp: bucket_def dat' g_def)
    moreover have "lpath d' p [p] NO_RECORD" using len(2) d(2) p tblD(1,3)[OF t] by (auto simp: nth l')
    moreover have "lpath d' g (as @ [a]) e" unfolding d'_def using path1(1) d(3) by (rule lpath_redirect)
    moreover have "lpath d' (nxt d p) bs NO_RECORD" unfolding d'_def using path1(2) d(5) by simp
    then have "lpath d' e (e # bs) NO_RECORD" using ea(2) len(1) e(2) pe tblD(3)[OF t] by (auto simp: nth l')
    moreover have "set ((as @ [a]) @ e # bs) = insert e (bucket d S f g - {p})" using xs(2) d unfolding ab by auto
    ultimately show "\<exists>xs. lpath d' b xs NO_RECORD \<and> set xs = bucket d' (insert e S) f b"
    proof -
      assume 1: "bucket d' (insert e S) f p = {p}" and 2: "bucket d' (insert e S) f g = insert e (bucket d S f g - {p})"
        and 3: "lpath d' p [p] NO_RECORD" and 4: "lpath d' g (as @ [a]) e" and 5: "lpath d' e (e # bs) NO_RECORD"
        and 6: "set ((as @ [a]) @ e # bs) = insert e (bucket d S f g - {p})"
      show ?thesis
      proof (cases "b = p")
        case True
        then show ?thesis using 1 3 by (intro exI[of _ "[p]"]) auto
      next
        case False
        then have "b = g" using b by simp
        moreover have "lpath d' g ((as @ [a]) @ e # bs) NO_RECORD" using 4 5 unfolding lpath_append by blast
        ultimately show ?thesis using 2 6 by metis
      qed
    qed
  next
    fix i assume "i \<in> insert e S"
    then show "f (dat d' i) < N" using tblD(5)[OF t, of i] tblD(5)[OF t p(1)] tblD(1)[OF t] p r e by (auto simp: dat')
  qed (use tblD(1,2,3)[OF t] e l1 in \<open>auto simp: d'_def\<close>)
  moreover have "recs d' (insert e S) = add_mset r (recs d S)"
  proof -
    have S: "S = insert p (S - {p})" "finite S" using p(1) tblD(4)[OF t] by auto
    have "recs d' (insert e S) = add_mset (dat d p) (recs d' S)" using S(2) e(1) pe by (simp add: recs_insert dat')
    also have "recs d' S = add_mset r (recs d' (S - {p}))" using S recs_insert[of "S - {p}" p d'] by (simp add: dat')
    also have "recs d' (S - {p}) = recs d (S - {p})" using e(1) by (intro recs_cong) (auto simp: dat')
    also have "add_mset (dat d p) (add_mset r (recs d (S - {p}))) = add_mset r (recs d S)" using S recs_insert[of "S - {p}" p d] by simp
    finally show ?thesis .
  qed
  ultimately show ?thesis using m l1 by (auto simp: d1_def g_def d'_def)
qed

text \<open>A second member for the chain that begins at \<open>p\<close>; the two records may be in either order.\<close>

lemma place_second:
  assumes t: "tbl d S N f" and e: "e \<notin> S" "e < N" and p: "p \<in> S" "f (dat d p) = p" and r: "f r = p"
    and d': "length d' = length d" "\<And>i. i \<noteq> p \<Longrightarrow> i \<noteq> e \<Longrightarrow> d' ! i = d ! i" "nxt d' p = e" "nxt d' e = nxt d p"
      "dat d' p = r \<and> dat d' e = dat d p \<or> dat d' p = dat d p \<and> dat d' e = r"
  shows "tbl d' (insert e S) N f \<and> recs d' (insert e S) = add_mset r (recs d S)"
proof
  have len: "e < length d" "p < length d" "p \<noteq> e" "p < N" using tblD(1,2,6)[OF t] e p by auto
  obtain xs where xs: "lpath d p (p # xs) NO_RECORD" "set (p # xs) = bucket d S f p" "distinct (p # xs)"
    using tbl_chain[OF t p(1)] unfolding p(2) by metis
  have e': "e \<notin> set xs" using xs(2) e(1) by (auto simp: bucket_def)
  have home: "f (dat d' p) = p" "f (dat d' e) = p" using d'(5) p(2) r by auto
  show "tbl d' (insert e S) N f"
  proof (rule tbl_change[OF t, where B = "{p}"])
    fix b assume "b < N" "b \<notin> {p}"
    moreover have "i \<noteq> p \<and> i \<noteq> e" if "i \<in> bucket d S f b" for i using that \<open>b \<notin> {p}\<close> p(2) e(1) by (auto simp: bucket_def)
    moreover have "bucket d' (insert e S) f b = bucket d S f b"
    proof (intro set_eqI)
      fix i
      show "i \<in> bucket d' (insert e S) f b \<longleftrightarrow> i \<in> bucket d S f b"
        using home \<open>b \<notin> {p}\<close> p(2) e(1) d'(2)[of i] by (cases "i = p"; cases "i = e") (auto simp: bucket_def)
    qed
    ultimately show "b < N \<and> bucket d' (insert e S) f b = bucket d S f b \<and> (\<forall>i \<in> bucket d S f b. d' ! i = d ! i)"
      using d'(2) by blast
  next
    fix b assume b: "b \<in> {p}"
    have "bucket d' (insert e S) f p = insert e (bucket d S f p)"
    proof (intro set_eqI)
      fix i
      show "i \<in> bucket d' (insert e S) f p \<longleftrightarrow> i \<in> insert e (bucket d S f p)"
        using home p e(1) d'(2)[of i] by (cases "i = p"; cases "i = e") (auto simp: bucket_def)
    qed
    moreover have "lpath d' (nxt d p) xs NO_RECORD"
      using lpath_cong[of xs d' d "nxt d p" NO_RECORD] d'(1,2) xs(1,3) e' by (metis distinct.simps(2) lpath.simps(2))
    then have "lpath d' p (p # e # xs) NO_RECORD" using len e(2) tblD(3)[OF t] d'(1,3,4) by auto
    moreover have "set (p # e # xs) = insert e (bucket d S f p)" using xs(2) by auto
    ultimately show "\<exists>xs. lpath d' b xs NO_RECORD \<and> set xs = bucket d' (insert e S) f b" using b by blast
  next
    fix i assume "i \<in> insert e S"
    then show "f (dat d' i) < N" using tblD(5)[OF t, of i] home len(4) d'(2)[of i] by (cases "i = p"; cases "i = e") auto
  qed (use tblD(1,2,3)[OF t] e d'(1) in auto)
  have S: "finite S" using tblD(4)[OF t] by auto
  have rest: "recs d' (S - {p}) = recs d (S - {p})" using e(1) d'(2) by (intro recs_cong) (metis DiffE insertI1)
  have "recs d' (insert e S) = add_mset (dat d' e) (add_mset (dat d' p) (recs d' (S - {p})))"
    using S e(1) p(1) by (simp add: recs_insert recs_remove[of S p])
  then show "recs d' (insert e S) = add_mset r (recs d S)"
    using rest d'(5) recs_remove[OF S p(1), of d] by (auto simp: add_mset_commute)
qed

subsection \<open>Finding and unlinking\<close>

lemma tbl_suffix:
  assumes t: "tbl d S N f" and i: "i \<in> S"
  obtains as bs where "lpath d (f (dat d i)) (as @ i # bs) NO_RECORD" "set (as @ i # bs) = bucket d S f (f (dat d i))" "lpath d i (i # bs) NO_RECORD"
proof -
  from t i obtain xs where xs: "lpath d (f (dat d i)) (f (dat d i) # xs) NO_RECORD"
      "set (f (dat d i) # xs) = bucket d S f (f (dat d i))" "i \<in> set (f (dat d i) # xs)" by (rule tbl_chain)
  obtain as bs where ab: "f (dat d i) # xs = as @ i # bs" using xs(3) by (meson split_list)
  then show thesis using that[of as bs] xs(1,2) by auto
qed

lemma find_record_ok:
  "lpath d x xs NO_RECORD \<Longrightarrow> xs \<noteq> [] \<Longrightarrow>
    (if r \<in> dat d ` set xs
     then \<exists>as p bs. xs = as @ p # bs \<and> dat d p = r \<and> find_record d r x prev = Some (Some (p, if as = [] then prev else Some (last as)))
     else find_record d r x prev = Some None)"
proof (induction xs arbitrary: x prev)
  case (Cons a xs)
  have a: "x = a" "a < length d" "a \<noteq> NO_RECORD" "lpath d (nxt d a) xs NO_RECORD" using Cons.prems by auto
  show ?case
  proof (cases "dat d a = r")
    case True
    then have "find_record d r x prev = Some (Some (a, prev))" using a by (subst find_record.simps) simp
    moreover have c: "r \<in> dat d ` set (a # xs)" using True by auto
    ultimately show ?thesis unfolding if_P[OF c] using True by (intro exI[of _ "[]"] exI[of _ a] exI[of _ xs]) simp
  next
    case False
    show ?thesis
    proof (cases xs)
      case Nil
      then show ?thesis using a False by (subst find_record.simps) simp
    next
      case (Cons b ys)
      then have nb: "nxt d a \<noteq> NO_RECORD" using a(4) by auto
      have eq: "find_record d r x prev = find_record d r (nxt d a) (Some a)" using a(1,2) False nb by (subst find_record.simps) simp
      have ih: "if r \<in> dat d ` set xs
         then \<exists>as p bs. xs = as @ p # bs \<and> dat d p = r \<and> find_record d r (nxt d a) (Some a) = Some (Some (p, if as = [] then Some a else Some (last as)))
         else find_record d r (nxt d a) (Some a) = Some None" using Cons.IH[OF a(4), of "Some a"] Cons by blast
      show ?thesis
      proof (cases "r \<in> dat d ` set xs")
        case True
        then obtain as p bs where *: "xs = as @ p # bs" "dat d p = r"
          "find_record d r (nxt d a) (Some a) = Some (Some (p, if as = [] then Some a else Some (last as)))" using ih by auto
        then have "a # xs = (a # as) @ p # bs" "find_record d r x prev = Some (Some (p, if a # as = [] then prev else Some (last (a # as))))"
          unfolding eq by auto
        moreover have c: "r \<in> dat d ` set (a # xs)" using True by simp
        ultimately show ?thesis unfolding if_P[OF c] using *(2) by blast
      next
        case False
        then show ?thesis using ih eq \<open>dat d a \<noteq> r\<close> by auto
      qed
    qed
  qed
qed simp

text \<open>A chain that loses the position \<open>e\<close>.\<close>

lemma shorten_chain:
  assumes t: "tbl d S N f" and b: "b < N" "e \<in> bucket d S f b"
    and d': "length d' = length d" "\<And>i. i \<notin> bucket d S f b \<Longrightarrow> d' ! i = d ! i"
      "\<And>i. i \<in> bucket d S f b \<Longrightarrow> i \<noteq> e \<Longrightarrow> f (dat d' i) = b"
    and ys: "ys \<noteq> [] \<Longrightarrow> lpath d' b ys NO_RECORD" "set ys = bucket d S f b - {e}"
  shows "tbl d' (S - {e}) N f"
proof -
  have bk: "bucket d' (S - {e}) f b = bucket d S f b - {e}"
  proof (intro set_eqI)
    fix i
    show "i \<in> bucket d' (S - {e}) f b \<longleftrightarrow> i \<in> bucket d S f b - {e}"
      using d'(2)[of i] d'(3)[of i] by (cases "i \<in> bucket d S f b") (auto simp: bucket_def)
  qed
  show ?thesis
  proof (rule tbl_change[OF t, where B = "{b}"])
    fix c assume c: "c < N" "c \<notin> {b}"
    have "bucket d' (S - {e}) f c = bucket d S f c"
    proof (intro set_eqI)
      fix i
      show "i \<in> bucket d' (S - {e}) f c \<longleftrightarrow> i \<in> bucket d S f c"
      proof (cases "i \<in> bucket d S f b")
        case True
        then show ?thesis using c d'(3)[of i] by (auto simp: bucket_def)
      next
        case False
        then show ?thesis using d'(2)[of i] b(2) by (auto simp: bucket_def)
      qed
    qed
    moreover have "\<forall>i \<in> bucket d S f c. d' ! i = d ! i" using d'(2) c by (auto simp: bucket_def)
    ultimately show "c < N \<and> bucket d' (S - {e}) f c = bucket d S f c \<and> (\<forall>i \<in> bucket d S f c. d' ! i = d ! i)" using c by blast
  next
    fix c assume c: "c \<in> {b}" "bucket d' (S - {e}) f c \<noteq> {}"
    then have cb: "c = b" by simp
    have "set ys \<noteq> {}" using c(2) unfolding cb bk ys(2) .
    then have "lpath d' b ys NO_RECORD" by (intro ys(1)) auto
    moreover have "set ys = bucket d' (S - {e}) f b" unfolding bk by (rule ys(2))
    ultimately show "\<exists>xs. lpath d' c xs NO_RECORD \<and> set xs = bucket d' (S - {e}) f c" unfolding cb by blast
  next
    fix i assume "i \<in> S - {e}"
    then show "f (dat d' i) < N" using d'(2,3)[of i] tblD(5)[OF t, of i] b(1) by (cases "i \<in> bucket d S f b") auto
  qed (use tblD(1,2,3)[OF t] d'(1) in auto)
qed

end
