(* ===== verification/Hash_Split.thy ===== *)
theory Hash_Split
  imports Hash_Chain
begin

unbundle bit_operations_syntax

text \<open>
  The loop of \<open>my_hash_insert\<close> that splits the chain of the position \<open>s\<close> when the position \<open>n\<close> is added: the records
  with the new bit go to a chain at \<open>n\<close>, the others stay in a chain at \<open>s\<close>, in the old order. The loop writes a link only
  where the next record of the same kind is not the next one of the chain; \<open>side\<close> is the state of one of the two chains.
\<close>

subsection \<open>One of the two chains\<close>

text \<open>The records of the positions \<open>src\<close> go to the positions \<open>tgt\<close>; the link of the last one is open. It is \<open>used\<close> when
  the last record already is where it belongs, with its old link to \<open>x\<close>.\<close>

definition side :: "'r HASH_LINK list \<Rightarrow> 'r HASH_LINK list \<Rightarrow> nat list \<Rightarrow> nat list \<Rightarrow> nat \<Rightarrow> 'r option \<Rightarrow> bool \<Rightarrow> nat \<Rightarrow> bool" where
  "side d D src tgt g ptr used x \<longleftrightarrow>
     length src = length tgt \<and> distinct tgt \<and> (\<forall>i \<in> set tgt. i < length D) \<and>
     (\<forall>j. Suc j < length src \<longrightarrow> D ! (tgt ! j) = \<lparr>link_next = tgt ! Suc j, link_data = dat d (src ! j)\<rparr>) \<and>
     (src \<noteq> [] \<longrightarrow> g = last tgt \<and> ptr = Some (dat d (last src))) \<and>
     (used \<longrightarrow> src \<noteq> [] \<and> D ! last tgt = \<lparr>link_next = x, link_data = dat d (last src)\<rparr>)"

lemma side_Nil: "side d D [] [] g ptr False x"
  by (simp add: side_def)

lemma side_single: "t < length D \<Longrightarrow> side d D [p] [t] t (Some (dat d p)) False x"
  by (simp add: side_def)

lemma side_single_used: "p < length D \<Longrightarrow> D ! p = d ! p \<Longrightarrow> side d D [p] [p] p (Some (dat d p)) True (nxt d p)"
  by (simp add: side_def)

lemma lpath_listI:
  "ts \<noteq> [] \<Longrightarrow> (\<And>i. i \<in> set ts \<Longrightarrow> i < length D \<and> i \<noteq> NO_RECORD) \<Longrightarrow>
    (\<And>j. Suc j < length ts \<Longrightarrow> nxt D (ts ! j) = ts ! Suc j) \<Longrightarrow> nxt D (last ts) = NO_RECORD \<Longrightarrow> lpath D (hd ts) ts NO_RECORD"
proof (induction ts)
  case (Cons t ts)
  show ?case
  proof (cases "ts = []")
    case False
    have "lpath D (hd ts) ts NO_RECORD"
    proof (rule Cons.IH)
      show "nxt D (ts ! j) = ts ! Suc j" if "Suc j < length ts" for j using Cons.prems(3)[of "Suc j"] that by simp
    qed (use Cons.prems False in auto)
    moreover have "nxt D t = hd ts" using Cons.prems(3)[of 0] False by (simp add: hd_conv_nth)
    ultimately show ?thesis using Cons.prems(2)[of t] by simp
  qed (use Cons.prems in simp)
qed simp

text \<open>A write elsewhere.\<close>

lemma side_frame:
  assumes "side d D src tgt g ptr used x" "length D' = length D" "\<And>i. i \<in> set tgt \<Longrightarrow> D' ! i = D ! i"
  shows "side d D' src tgt g ptr False y"
  using assms by (auto simp: side_def)

lemma side_keep:
  assumes "side d D src tgt g ptr used x" "length D' = length D" "\<And>i. i \<in> set tgt \<Longrightarrow> D' ! i = D ! i"
  shows "side d D' src tgt g ptr used x"
  using assms by (cases "tgt = []") (auto simp: side_def)

lemma side_next:
  assumes s: "side d D src tgt g ptr used p" and src: "src \<noteq> []" and p: "p \<notin> set tgt" "p < length D" "D ! p = d ! p"
    and D': "D' = (if used then D else D[g := \<lparr>link_next = p, link_data = dat d (last src)\<rparr>])"
  shows "side d D' (src @ [p]) (tgt @ [p]) p (Some (dat d p)) True (nxt d p)"
proof -
  have l: "length src = length tgt" "tgt \<noteq> []" "g = last tgt" "distinct tgt" using s src by (auto simp: side_def)
  have gl: "g < length D" "g \<in> set tgt" using s l by (auto simp: side_def)
  have gp: "g \<noteq> p" using gl p(1) by auto
  have len: "length D' = length D" using D' by simp
  have link: "D' ! (tgt ! j) = \<lparr>link_next = (tgt @ [p]) ! Suc j, link_data = dat d (src ! j)\<rparr>" if j: "j < length src" for j
  proof (cases "Suc j < length src")
    case True
    then have "j < length tgt" "length tgt - 1 < length tgt" "j \<noteq> length tgt - 1" using l(1) by auto
    then have "tgt ! j \<noteq> g" using l(2-4) nth_eq_iff_index_eq[OF l(4), of j "length tgt - 1"] by (simp add: last_conv_nth)
    then have "D' ! (tgt ! j) = D ! (tgt ! j)" using D' by simp
    then show ?thesis using s True l(1) by (simp add: side_def nth_append)
  next
    case False
    then have e: "Suc j = length src" using j by simp
    then have "j = length src - 1" by simp
    then have t: "tgt ! j = g" "src ! j = last src" using l(1-3) src by (simp_all add: last_conv_nth)
    have "(tgt @ [p]) ! Suc j = p" using e l(1) by (simp add: nth_append)
    moreover have "D' ! g = \<lparr>link_next = p, link_data = dat d (last src)\<rparr>" using s D' gl l(3) by (auto simp: side_def)
    ultimately show ?thesis using t by simp
  qed
  have "D' ! p = d ! p" using D' gp p(3) by simp
  moreover have "D' ! ((tgt @ [p]) ! j) = \<lparr>link_next = (tgt @ [p]) ! Suc j, link_data = dat d ((src @ [p]) ! j)\<rparr>" if "Suc j < length (src @ [p])" for j
    using link[of j] that l(1) by (simp add: nth_append)
  ultimately show ?thesis using s l p len by (auto simp: side_def)
qed

text \<open>The end: the open link is closed unless it already is.\<close>

lemma side_end:
  assumes s: "side d D src tgt g ptr used NO_RECORD" and src: "src \<noteq> []" and NO: "\<forall>i \<in> set tgt. i \<noteq> NO_RECORD"
    and D': "D' = (if used then D else D[g := \<lparr>link_next = NO_RECORD, link_data = dat d (last src)\<rparr>])"
  shows "lpath D' (hd tgt) tgt NO_RECORD \<and> (\<forall>j < length src. dat D' (tgt ! j) = dat d (src ! j))"
proof -
  have l: "length src = length tgt" "tgt \<noteq> []" "g = last tgt" "distinct tgt" using s src by (auto simp: side_def)
  have gl: "g < length D" "g \<in> set tgt" using s l by (auto simp: side_def)
  have last: "D' ! last tgt = \<lparr>link_next = NO_RECORD, link_data = dat d (last src)\<rparr>" using s D' gl l(3) by (auto simp: side_def)
  have link: "D' ! (tgt ! j) = \<lparr>link_next = tgt ! Suc j, link_data = dat d (src ! j)\<rparr>" if j: "Suc j < length src" for j
  proof -
    have "j < length tgt" "length tgt - 1 < length tgt" "j \<noteq> length tgt - 1" using l(1) j by auto
    then have "tgt ! j \<noteq> g" using l(2-4) nth_eq_iff_index_eq[OF l(4), of j "length tgt - 1"] by (simp add: last_conv_nth)
    then have "D' ! (tgt ! j) = D ! (tgt ! j)" using D' by simp
    then show ?thesis using s j by (simp add: side_def)
  qed
  have "lpath D' (hd tgt) tgt NO_RECORD"
    by (rule lpath_listI) (use l link last NO s D' in \<open>auto simp: side_def\<close>)
  moreover have "dat D' (tgt ! j) = dat d (src ! j)" if "j < length src" for j
  proof (cases "Suc j < length src")
    case False
    then have "j = length src - 1" using that by simp
    then have "tgt ! j = last tgt" "src ! j = last src" using l src by (simp_all add: last_conv_nth)
    then show ?thesis using last by simp
  qed (simp add: link)
  ultimately show ?thesis by blast
qed

subsection \<open>The loop\<close>

definition moved :: "nat \<Rightarrow> nat list \<Rightarrow> nat list" where
  "moved x xs = (case xs of [] \<Rightarrow> [] | _ # ys \<Rightarrow> x # ys)"

lemma moved_simps [simp]: "moved x [] = []" "moved x [p] = [x]" "length (moved x xs) = length xs" "moved x xs = [] \<longleftrightarrow> xs = []"
  by (simp_all add: moved_def split: list.split)

lemma moved_snoc [simp]: "xs \<noteq> [] \<Longrightarrow> moved x (xs @ [p]) = moved x xs @ [p]"
  by (cases xs) (simp_all add: moved_def)

lemma distinct_moved: "distinct xs \<Longrightarrow> x \<notin> set (tl xs) \<Longrightarrow> distinct (moved x xs)"
  by (cases xs) (simp_all add: moved_def)

lemma set_moved: "set (moved x xs) \<subseteq> insert x (set xs)"
  by (cases xs) (auto simp: moved_def)

lemma in_tl: "i \<in> set (tl xs) \<Longrightarrow> i \<in> set xs"
  by (cases xs) auto

definition lows :: "(nat \<Rightarrow> bool) \<Rightarrow> nat list \<Rightarrow> nat list" where
  "lows hi ps = filter (\<lambda>i. \<not> hi i) ps"

definition highs :: "(nat \<Rightarrow> bool) \<Rightarrow> nat list \<Rightarrow> nat list" where
  "highs hi ps = filter hi ps"

text \<open>The free position after the positions \<open>ps\<close>.\<close>

definition free_pos :: "nat \<Rightarrow> nat \<Rightarrow> (nat \<Rightarrow> bool) \<Rightarrow> nat list \<Rightarrow> nat" where
  "free_pos s n hi ps =
     (if highs hi ps = [] then n
      else if lows hi ps = [] then s
      else if hi s then hd (lows hi ps) else hd (highs hi ps))"

definition flag_of :: "bool \<Rightarrow> bool \<Rightarrow> bool \<Rightarrow> bool \<Rightarrow> nat" where
  "flag_of l lu h hu = (if l then 1 else 0) + (if lu then 2 else 0) + (if h then 4 else 0) + (if hu then 8 else 0)"

definition sinv :: "'r HASH_LINK list \<Rightarrow> nat \<Rightarrow> nat \<Rightarrow> (nat \<Rightarrow> bool) \<Rightarrow> nat list \<Rightarrow> nat \<Rightarrow> bool \<Rightarrow> bool \<Rightarrow> 'r split_state \<Rightarrow> bool" where
  "sinv d s n hi ps x lu hu st \<longleftrightarrow>
     side d (sdata st) (lows hi ps) (moved s (lows hi ps)) (gpos st) (ptr_to_rec st) lu x \<and>
     side d (sdata st) (highs hi ps) (moved n (highs hi ps)) (gpos2 st) (ptr_to_rec2 st) hu x \<and>
     \<not> (lu \<and> hu) \<and> flag st = flag_of (lows hi ps \<noteq> []) lu (highs hi ps \<noteq> []) hu \<and>
     length (sdata st) = length d \<and> (\<forall>i. i \<notin> set ps \<and> i \<noteq> n \<longrightarrow> sdata st ! i = d ! i) \<and>
     empty st = free_pos s n hi ps"

lemma lows_highs_snoc:
  "lows hi (ps @ [p]) = (if hi p then lows hi ps else lows hi ps @ [p])"
  "highs hi (ps @ [p]) = (if hi p then highs hi ps @ [p] else highs hi ps)"
  by (simp_all add: lows_def highs_def)

lemma lows_highs_empty: "lows hi ps = [] \<and> highs hi ps = [] \<longleftrightarrow> ps = []"
  by (cases ps) (auto simp: lows_def highs_def)

text \<open>The two chains do not share a position.\<close>

lemma moved_disjoint:
  assumes "distinct ps" "ps \<noteq> [] \<Longrightarrow> hd ps = s" "n \<notin> set ps"
  shows "set (moved s (lows hi ps)) \<inter> set (moved n (highs hi ps)) = {}" "distinct (moved s (lows hi ps))" "distinct (moved n (highs hi ps))"
proof -
  show "set (moved s (lows hi ps)) \<inter> set (moved n (highs hi ps)) = {}"
  proof (cases ps)
    case (Cons a qs)
    then have a: "a = s" "s \<notin> set qs" "distinct qs" "n \<noteq> s" "n \<notin> set qs" using assms by auto
    show ?thesis
    proof (cases "hi s")
      case True
      have "set (moved s (lows hi ps)) \<subseteq> insert s {i \<in> set qs. \<not> hi i}" using Cons a True set_moved[of s "lows hi ps"] by (auto simp: lows_def)
      moreover have "set (moved n (highs hi ps)) \<subseteq> insert n {i \<in> set qs. hi i}" using Cons a True by (auto simp: highs_def moved_def)
      ultimately show ?thesis using a by auto
    next
      case False
      have "set (moved s (lows hi ps)) \<subseteq> insert s {i \<in> set qs. \<not> hi i}" using Cons a False set_moved[of s "lows hi ps"] by (auto simp: lows_def)
      moreover have "set (moved n (highs hi ps)) \<subseteq> insert n {i \<in> set qs. hi i}" using Cons a False set_moved[of n "highs hi ps"] by (auto simp: highs_def)
      ultimately show ?thesis using a by auto
    qed
  qed (simp add: lows_def highs_def)
  have "n \<notin> set (tl (highs hi ps))" using assms(3) by (auto simp: highs_def dest: in_tl)
  then show "distinct (moved n (highs hi ps))" using assms(1) by (intro distinct_moved) (auto simp: highs_def)
  have "s \<notin> set (tl (lows hi ps))"
  proof (cases ps)
    case (Cons a qs)
    then have "a = s" "s \<notin> set qs" using assms by auto
    then show ?thesis using Cons by (auto simp: lows_def dest: in_tl)
  qed (simp add: lows_def)
  then show "distinct (moved s (lows hi ps))" using assms(1) by (intro distinct_moved) (auto simp: lows_def)
qed

lemma flag_bits: "\<forall>l lu h hu.
    (flag_of l lu h hu AND LOWFIND = 0 \<longleftrightarrow> \<not> l) \<and> (flag_of l lu h hu AND LOWUSED = 0 \<longleftrightarrow> \<not> lu) \<and>
    (flag_of l lu h hu AND HIGHFIND = 0 \<longleftrightarrow> \<not> h) \<and> (flag_of l lu h hu AND HIGHUSED = 0 \<longleftrightarrow> \<not> hu) \<and>
    (flag_of l lu h hu AND HIGHFIND) OR (LOWFIND OR LOWUSED) = flag_of True True h False \<and>
    (flag_of l lu h hu AND LOWFIND) OR (HIGHFIND OR HIGHUSED) = flag_of l False True True \<and>
    (flag_of l lu h hu AND LOWFIND) OR HIGHFIND = flag_of l False True False \<and>
    (flag_of l lu h hu AND (LOWFIND OR LOWUSED) = LOWFIND \<longleftrightarrow> l \<and> \<not> lu) \<and>
    (flag_of l lu h hu AND (HIGHFIND OR HIGHUSED) = HIGHFIND \<longleftrightarrow> h \<and> \<not> hu) \<and> (flag_of l lu h hu = 0 \<longleftrightarrow> \<not> l \<and> \<not> lu \<and> \<not> h \<and> \<not> hu)"
  by code_simp

lemma flag_consts: "LOWFIND OR LOWUSED = flag_of True True False False" "LOWFIND OR HIGHFIND = flag_of True False True False"
  by code_simp+

lemmas flag_simps = flag_bits[rule_format]

lemma side_used: "side d D src tgt g ptr used x \<Longrightarrow> used \<Longrightarrow> src \<noteq> []"
  by (simp add: side_def)

lemma side_pending: "side d D src tgt g ptr used x \<Longrightarrow> src \<noteq> [] \<Longrightarrow> g = last tgt \<and> g \<in> set tgt \<and> g < length D \<and> ptr = Some (dat d (last src))"
  by (cases "tgt = []") (auto simp: side_def)

text \<open>What the positions of a chain that is split have to satisfy, for the next position \<open>p\<close>.\<close>

definition visit :: "'r HASH_LINK list \<Rightarrow> nat \<Rightarrow> nat \<Rightarrow> nat list \<Rightarrow> nat \<Rightarrow> bool" where
  "visit d s n ps p \<longleftrightarrow> distinct (ps @ [p]) \<and> hd (ps @ [p]) = s \<and> n \<notin> set (ps @ [p]) \<and> p < length d \<and> n < length d \<and> s < length d"

lemma visitD:
  assumes "visit d s n ps p"
  shows "distinct ps" "ps \<noteq> [] \<Longrightarrow> hd ps = s" "n \<notin> set ps" "p \<notin> set ps" "ps = [] \<Longrightarrow> p = s" "p \<noteq> n" "p < length d" "n < length d" "s < length d"
    "ps \<noteq> [] \<Longrightarrow> p \<noteq> s" "s \<noteq> n"
proof -
  show "distinct ps" "n \<notin> set ps" "p \<notin> set ps" "ps = [] \<Longrightarrow> p = s" "p \<noteq> n" "p < length d" "n < length d" "s < length d" and hd: "ps \<noteq> [] \<Longrightarrow> hd ps = s"
    using assms by (auto simp: visit_def)
  show "p \<noteq> s" if "ps \<noteq> []" using hd[OF that] that \<open>p \<notin> set ps\<close> by auto
  show "s \<noteq> n" using hd \<open>n \<notin> set ps\<close> \<open>ps = [] \<Longrightarrow> p = s\<close> \<open>p \<noteq> n\<close> by (cases "ps = []") auto
qed

lemma not_moved:
  assumes "visit d s n ps p"
  shows "p \<notin> set (moved s (lows hi ps))" "p \<notin> set (moved n (highs hi ps))"
proof -
  note v = visitD[OF assms]
  show "p \<notin> set (moved n (highs hi ps))" using set_moved[of n "highs hi ps"] v(4,6) by (auto simp: highs_def)
  show "p \<notin> set (moved s (lows hi ps))" using set_moved[of s "lows hi ps"] v(4,10) by (cases "ps = []") (auto simp: lows_def)
qed

lemma split_low:
  assumes i: "sinv d s n hi ps p lu hu st" and vis: "visit d s n ps p" and lo: "\<not> hi p" "unat hash AND H = 0"
  shows "\<exists>st' lu'. split_step H hash p st = Some st' \<and> sinv d s n hi (ps @ [p]) (nxt d p) lu' False st' \<and> sdata st' ! p = d ! p"
proof -
  note v = visitD[OF vis]
  let ?L = "lows hi ps" and ?R = "highs hi ps" and ?D = "sdata st"
  have L: "side d ?D ?L (moved s ?L) (gpos st) (ptr_to_rec st) lu p" and R: "side d ?D ?R (moved n ?R) (gpos2 st) (ptr_to_rec2 st) hu p"
    and u: "\<not> (lu \<and> hu)" and fl: "flag st = flag_of (?L \<noteq> []) lu (?R \<noteq> []) hu" and len: "length ?D = length d"
    and same: "\<forall>i. i \<notin> set ps \<and> i \<noteq> n \<longrightarrow> ?D ! i = d ! i" and emp: "empty st = free_pos s n hi ps"
    using i by (simp_all add: sinv_def)
  have Dp: "?D ! p = d ! p" "p < length ?D" using same v len by auto
  have L': "lows hi (ps @ [p]) = ?L @ [p]" "highs hi (ps @ [p]) = ?R" using lo(1) by (simp_all add: lows_highs_snoc)
  show ?thesis
  proof (cases "?L = []")
    case l: True
    then have lu: "\<not> lu" using side_used[OF L] by auto
    show ?thesis
    proof (cases "?R = []")
      case r: True
      then have ps: "ps = []" "\<not> hu" using l lows_highs_empty[of hi ps] side_used[OF R] by auto
      let ?st = "st\<lparr>flag := LOWFIND OR LOWUSED, gpos := p, ptr_to_rec := Some (dat d p)\<rparr>"
      have "split_step H hash p st = Some ?st" using lo(2) fl l r lu ps Dp by (simp add: split_step_def flag_simps)
      moreover have "sinv d s n hi (ps @ [p]) (nxt d p) True False ?st"
        using side_single_used[OF Dp(2,1)] v(5)[OF ps(1)] same len emp r ps(1) L' by (auto simp: sinv_def flag_consts free_pos_def side_Nil lows_def highs_def)
      ultimately show ?thesis using Dp(1) by (intro exI[of _ ?st] exI[of _ True]) simp
    next
      case r: False
      then have ne: "ps \<noteq> []" by (auto simp: highs_def)
      then have hs: "hi s" using l v(2) by (cases ps) (auto simp: lows_def split: if_splits)
      let ?st = "st\<lparr>flag := LOWFIND OR HIGHFIND, gpos := empty st, ptr_to_rec := Some (dat d p), empty := p\<rparr>"
      have "split_step H hash p st = Some ?st" using lo(2) fl l r lu Dp by (cases hu) (simp_all add: split_step_def flag_simps)
      moreover have "sinv d s n hi (ps @ [p]) (nxt d p) False False ?st"
        using side_single[of s ?D d p "nxt d p"] side_frame[OF R refl refl, of "nxt d p"] v same len emp l r hs L' by (auto simp: sinv_def flag_consts free_pos_def)
      ultimately show ?thesis using Dp(1) by (intro exI[of _ ?st] exI[of _ False]) simp
    qed
  next
    case l: False
    note pend = side_pending[OF L l]
    define D' where "D' = (if lu then ?D else ?D[gpos st := \<lparr>link_next = p, link_data = dat d (last ?L)\<rparr>])"
    have gp: "gpos st \<noteq> p" "gpos st \<notin> set (moved n ?R)" using pend not_moved(1)[OF vis, of hi] moved_disjoint(1)[OF v(1-3), of hi] by auto
    have D': "length D' = length d" "D' ! p = d ! p" using len gp Dp by (auto simp: D'_def nth_list_update_neq)
    have D'R: "D' ! i = ?D ! i" if "i \<in> set (moved n ?R)" for i
      using nth_list_update_neq[of "gpos st" i ?D] that gp(2) by (cases "gpos st = i") (auto simp: D'_def)
    let ?st = "st\<lparr>sdata := D', flag := (if lu then flag st else (flag st AND HIGHFIND) OR (LOWFIND OR LOWUSED)), gpos := p, ptr_to_rec := Some (dat d p)\<rparr>"
    have "split_step H hash p st = Some ?st"
      using lo(2) fl l u pend D' Dp by (cases lu; cases hu; cases "?R = []") (simp_all add: split_step_def flag_simps write_link_def D'_def)
    moreover have "side d D' (?L @ [p]) (moved s ?L @ [p]) p (Some (dat d p)) True (nxt d p)"
      using side_next[OF L l not_moved(1)[OF vis] Dp(2,1)] D'_def by simp
    moreover have "side d D' ?R (moved n ?R) (gpos2 st) (ptr_to_rec2 st) False (nxt d p)"
      using side_frame[OF R _ D'R, of "nxt d p"] D'(1) len by simp
    moreover have "\<forall>i. i \<notin> set (ps @ [p]) \<and> i \<noteq> n \<longrightarrow> D' ! i = d ! i"
    proof -
      have "gpos st \<in> set ps \<or> gpos st = s" using pend set_moved[of s ?L] by (auto simp: lows_def)
      moreover have "s \<in> set ps" using l v(2) by (cases ps) (auto simp: lows_def)
      ultimately have g: "gpos st \<in> set ps" by auto
      show ?thesis
      proof (intro allI impI)
        fix i assume i: "i \<notin> set (ps @ [p]) \<and> i \<noteq> n"
        then have "gpos st \<noteq> i" using g by auto
        then show "D' ! i = d ! i" using same i by (simp add: D'_def)
      qed
    qed
    moreover have "free_pos s n hi (ps @ [p]) = free_pos s n hi ps" using l by (simp add: free_pos_def L')
    moreover have "(if lu then flag st else (flag st AND HIGHFIND) OR (LOWFIND OR LOWUSED)) = flag_of True True (?R \<noteq> []) False"
      using fl l u by (cases lu; cases hu; cases "?R = []") (simp_all add: flag_simps)
    ultimately have "sinv d s n hi (ps @ [p]) (nxt d p) True False ?st" using l D' emp by (simp add: sinv_def L')
    then show ?thesis using \<open>split_step H hash p st = Some ?st\<close> D'(2) by (intro exI[of _ ?st] exI[of _ True]) simp
  qed
qed

lemma split_high:
  assumes i: "sinv d s n hi ps p lu hu st" and vis: "visit d s n ps p" and up: "hi p" "unat hash AND H \<noteq> 0"
  shows "\<exists>st' hu'. split_step H hash p st = Some st' \<and> sinv d s n hi (ps @ [p]) (nxt d p) False hu' st' \<and> sdata st' ! p = d ! p"
proof -
  note v = visitD[OF vis]
  let ?L = "lows hi ps" and ?R = "highs hi ps" and ?D = "sdata st"
  have L: "side d ?D ?L (moved s ?L) (gpos st) (ptr_to_rec st) lu p" and R: "side d ?D ?R (moved n ?R) (gpos2 st) (ptr_to_rec2 st) hu p"
    and u: "\<not> (lu \<and> hu)" and fl: "flag st = flag_of (?L \<noteq> []) lu (?R \<noteq> []) hu" and len: "length ?D = length d"
    and same: "\<forall>i. i \<notin> set ps \<and> i \<noteq> n \<longrightarrow> ?D ! i = d ! i" and emp: "empty st = free_pos s n hi ps"
    using i by (simp_all add: sinv_def)
  have Dp: "?D ! p = d ! p" "p < length ?D" using same v len by auto
  have L': "lows hi (ps @ [p]) = ?L" "highs hi (ps @ [p]) = ?R @ [p]" using up(1) by (simp_all add: lows_highs_snoc)
  show ?thesis
  proof (cases "?R = []")
    case r: True
    then have hu: "\<not> hu" using side_used[OF R] by auto
    let ?st = "st\<lparr>flag := (flag st AND LOWFIND) OR HIGHFIND, gpos2 := empty st, empty := p, ptr_to_rec2 := Some (dat d p)\<rparr>"
    have "split_step H hash p st = Some ?st" using up(2) fl r hu Dp by (cases lu; cases "?L = []") (simp_all add: split_step_def flag_simps)
    moreover have "empty st = n" using emp r by (simp add: free_pos_def)
    moreover have "free_pos s n hi (ps @ [p]) = p"
    proof (cases "?L = []")
      case True
      then have "ps = []" using r lows_highs_empty[of hi ps] by simp
      then show ?thesis using v(5) up(1) by (simp add: free_pos_def lows_def highs_def)
    next
      case False
      then have "\<not> hi s" using r v(2) by (cases ps) (auto simp: lows_def highs_def)
      then show ?thesis using False r by (simp add: free_pos_def L')
    qed
    moreover have "(flag st AND LOWFIND) OR HIGHFIND = flag_of (?L \<noteq> []) False True False"
      using fl r hu side_used[OF L] by (cases lu; cases "?L = []") (simp_all add: flag_simps)
    ultimately have "sinv d s n hi (ps @ [p]) (nxt d p) False False ?st"
      using side_single[of n ?D d p "nxt d p"] side_frame[OF L refl refl, of "nxt d p"] v same len r by (simp add: sinv_def L')
    then show ?thesis using \<open>split_step H hash p st = Some ?st\<close> Dp(1) by (intro exI[of _ ?st] exI[of _ False]) simp
  next
    case r: False
    note pend = side_pending[OF R r]
    define D' where "D' = (if hu then ?D else ?D[gpos2 st := \<lparr>link_next = p, link_data = dat d (last ?R)\<rparr>])"
    have gp: "gpos2 st \<noteq> p" "gpos2 st \<notin> set (moved s ?L)" using pend not_moved(2)[OF vis, of hi] moved_disjoint(1)[OF v(1-3), of hi] by auto
    have D': "length D' = length d" "D' ! p = d ! p" using len gp Dp by (auto simp: D'_def nth_list_update_neq)
    have D'L: "D' ! i = ?D ! i" if "i \<in> set (moved s ?L)" for i
      using nth_list_update_neq[of "gpos2 st" i ?D] that gp(2) by (cases "gpos2 st = i") (auto simp: D'_def)
    let ?st = "st\<lparr>sdata := D', flag := (if hu then flag st else (flag st AND LOWFIND) OR (HIGHFIND OR HIGHUSED)), gpos2 := p, ptr_to_rec2 := Some (dat d p)\<rparr>"
    have "split_step H hash p st = Some ?st"
      using up(2) fl r u pend D' Dp by (cases lu; cases hu; cases "?L = []") (simp_all add: split_step_def flag_simps write_link_def D'_def)
    moreover have "side d D' (?R @ [p]) (moved n ?R @ [p]) p (Some (dat d p)) True (nxt d p)"
      using side_next[OF R r not_moved(2)[OF vis] Dp(2,1)] D'_def by simp
    moreover have "side d D' ?L (moved s ?L) (gpos st) (ptr_to_rec st) False (nxt d p)"
      using side_frame[OF L _ D'L, of "nxt d p"] D'(1) len by simp
    moreover have "\<forall>i. i \<notin> set (ps @ [p]) \<and> i \<noteq> n \<longrightarrow> D' ! i = d ! i"
    proof -
      have "gpos2 st \<in> set ps \<or> gpos2 st = n" using pend set_moved[of n ?R] by (auto simp: highs_def)
      then have g: "i \<noteq> n \<Longrightarrow> i \<notin> set ps \<Longrightarrow> gpos2 st \<noteq> i" for i by auto
      show ?thesis
      proof (intro allI impI)
        fix i assume i: "i \<notin> set (ps @ [p]) \<and> i \<noteq> n"
        then have "gpos2 st \<noteq> i" using g by auto
        then show "D' ! i = d ! i" using same i by (simp add: D'_def)
      qed
    qed
    moreover have "free_pos s n hi (ps @ [p]) = free_pos s n hi ps" using r by (simp add: free_pos_def L')
    moreover have "(if hu then flag st else (flag st AND LOWFIND) OR (HIGHFIND OR HIGHUSED)) = flag_of (?L \<noteq> []) False True True"
      using fl r u side_used[OF L] by (cases lu; cases hu; cases "?L = []") (simp_all add: flag_simps)
    ultimately have "sinv d s n hi (ps @ [p]) (nxt d p) False True ?st" using r D' emp by (simp add: sinv_def L')
    then show ?thesis using \<open>split_step H hash p st = Some ?st\<close> D'(2) by (intro exI[of _ ?st] exI[of _ True]) simp
  qed
qed

lemma split_any:
  assumes "sinv d s n hi ps p lu hu st" "visit d s n ps p" "hi p \<longleftrightarrow> unat hash AND H \<noteq> 0"
  obtains st' lu' hu' where "split_step H hash p st = Some st'" "sinv d s n hi (ps @ [p]) (nxt d p) lu' hu' st'" "sdata st' ! p = d ! p"
proof (cases "hi p")
  case True
  then show thesis using that split_high[OF assms(1,2), of hash H] assms(3) by blast
next
  case False
  then show thesis using that split_low[OF assms(1,2), of hash H] assms(3) by blast
qed

lemma split_loop_ok:
  assumes path: "lpath d s cs NO_RECORD" and n: "n \<notin> set cs" "n < length d" "s < length d"
    and hi: "\<And>i. i \<in> set cs \<Longrightarrow> hi i \<longleftrightarrow> unat (rec_hashnr rb h (dat d i)) AND H \<noteq> 0"
    and home: "\<And>i. i \<in> set cs \<Longrightarrow> hash_mask (rec_hashnr rb h (dat d i)) (blength h) (records h) = s"
  shows "cs = ps @ p # qs \<Longrightarrow> sinv d s n hi ps p lu hu st \<Longrightarrow>
    \<exists>st' lu' hu'. split_loop rb h H s st p = Some st' \<and> sinv d s n hi cs NO_RECORD lu' hu' st'"
proof (induction qs arbitrary: ps p lu hu st)
  case (Nil ps p lu hu st)
  note cs = Nil.prems(1)
  have vis: "visit d s n ps p" using path n lpath_distinct[OF path] lpath_head[OF path] lpath_bound[OF path] cs by (auto simp: visit_def)
  have Dp: "sdata st ! p = d ! p" "p < length (sdata st)" using Nil.prems(2) visitD[OF vis] by (auto simp: sinv_def)
  obtain st' lu' hu' where st': "split_step H (rec_hashnr rb h (dat d p)) p st = Some st'" "sinv d s n hi (ps @ [p]) (nxt d p) lu' hu' st'" "sdata st' ! p = d ! p"
    by (rule split_any[OF Nil.prems(2) vis, of "rec_hashnr rb h (dat d p)" H]) (use hi[of p] cs in auto)
  have e: "nxt d p = NO_RECORD" using path cs by auto
  have "length (sdata st') = length d" using st'(2) by (simp add: sinv_def)
  then have "split_loop rb h H s st p = Some st'"
    using Dp st'(1,3) e home[of p] cs visitD(7)[OF vis] by (subst split_loop.simps) simp
  then show ?case using st'(2) e cs by auto
next
  case (Cons q qs ps p lu hu st)
  note cs = Cons.prems(1)
  have "hd (ps @ [p]) = s" using lpath_head[OF path] cs by (cases ps) auto
  then have vis: "visit d s n ps p" using n lpath_distinct[OF path] lpath_bound[OF path, of p] cs by (auto simp: visit_def)
  have Dp: "sdata st ! p = d ! p" "p < length (sdata st)" using Cons.prems(2) visitD[OF vis] by (auto simp: sinv_def)
  obtain st' lu' hu' where st': "split_step H (rec_hashnr rb h (dat d p)) p st = Some st'" "sinv d s n hi (ps @ [p]) (nxt d p) lu' hu' st'" "sdata st' ! p = d ! p"
    by (rule split_any[OF Cons.prems(2) vis, of "rec_hashnr rb h (dat d p)" H]) (use hi[of p] cs in auto)
  have e: "nxt d p = q" "q \<noteq> NO_RECORD" using path cs by auto
  have "length (sdata st') = length d" using st'(2) by (simp add: sinv_def)
  then have "split_loop rb h H s st p = split_loop rb h H s st' q"
    using Dp st'(1,3) e home[of p] cs visitD(7)[OF vis] by (subst split_loop.simps) simp
  then show ?case using Cons.IH[of "ps @ [p]" q lu' hu' st'] st'(2) e cs by auto
qed

text \<open>After the loop: both chains are complete.\<close>

lemma split_end_ok:
  assumes i: "sinv d s n hi cs NO_RECORD lu hu st" and cs: "distinct cs" "cs \<noteq> [] \<Longrightarrow> hd cs = s" "n \<notin> set cs"
    and NO: "\<forall>i \<in> insert n (insert s (set cs)). i \<noteq> NO_RECORD"
  shows "\<exists>D. split_end st = Some (st\<lparr>sdata := D\<rparr>) \<and> length D = length d \<and> (\<forall>i. i \<notin> set cs \<and> i \<noteq> n \<longrightarrow> D ! i = d ! i) \<and>
    (lows hi cs \<noteq> [] \<longrightarrow> lpath D s (moved s (lows hi cs)) NO_RECORD) \<and> (highs hi cs \<noteq> [] \<longrightarrow> lpath D n (moved n (highs hi cs)) NO_RECORD) \<and>
    map (dat D) (moved s (lows hi cs)) = map (dat d) (lows hi cs) \<and> map (dat D) (moved n (highs hi cs)) = map (dat d) (highs hi cs)"
proof -
  let ?L = "lows hi cs" and ?R = "highs hi cs" and ?D = "sdata st"
  have L: "side d ?D ?L (moved s ?L) (gpos st) (ptr_to_rec st) lu NO_RECORD" and R: "side d ?D ?R (moved n ?R) (gpos2 st) (ptr_to_rec2 st) hu NO_RECORD"
    and fl: "flag st = flag_of (?L \<noteq> []) lu (?R \<noteq> []) hu" and len: "length ?D = length d" and same: "\<forall>i. i \<notin> set cs \<and> i \<noteq> n \<longrightarrow> ?D ! i = d ! i"
    using i by (simp_all add: sinv_def)
  note dis = moved_disjoint[OF cs, of hi]
  have sub: "set (moved s ?L) \<subseteq> set cs" "set (moved n ?R) \<subseteq> insert n (set cs)"
  proof -
    show "set (moved n ?R) \<subseteq> insert n (set cs)" using set_moved[of n ?R] by (auto simp: highs_def)
    show "set (moved s ?L) \<subseteq> set cs"
    proof (cases "cs = []")
      case False
      then have "s \<in> set cs" using cs(2) by (metis hd_in_set)
      then show ?thesis using set_moved[of s ?L] by (auto simp: lows_def)
    qed (simp add: lows_def)
  qed
  define D1 where "D1 = (if ?L \<noteq> [] \<and> \<not> lu then ?D[gpos st := \<lparr>link_next = NO_RECORD, link_data = dat d (last ?L)\<rparr>] else ?D)"
  define D where "D = (if ?R \<noteq> [] \<and> \<not> hu then D1[gpos2 st := \<lparr>link_next = NO_RECORD, link_data = dat d (last ?R)\<rparr>] else D1)"
  have g: "?L \<noteq> [] \<Longrightarrow> gpos st \<in> set (moved s ?L)" "?R \<noteq> [] \<Longrightarrow> gpos2 st \<in> set (moved n ?R)" using side_pending[OF L] side_pending[OF R] by auto
  have l1: "length D1 = length d" "length D = length d" using len by (simp_all add: D1_def D_def)
  have 1: "D1 ! i = ?D ! i" if "i \<notin> set (moved s ?L)" for i using that g(1) by (cases "gpos st = i") (auto simp: D1_def)
  have 2: "D ! i = D1 ! i" if "i \<notin> set (moved n ?R)" for i using that g(2) by (cases "gpos2 st = i") (auto simp: D_def)
  have R1: "side d D1 ?R (moved n ?R) (gpos2 st) (ptr_to_rec2 st) hu NO_RECORD"
    using 1 dis(1) l1 len by (intro side_keep[OF R]) auto
  have "split_end st = Some (st\<lparr>sdata := D\<rparr>)"
    using fl side_pending[OF L] side_pending[OF R] len by (auto simp: split_end_def flag_simps write_link_def D1_def D_def)
  moreover have low: "lpath D s (moved s ?L) NO_RECORD \<and> map (dat D) (moved s ?L) = map (dat d) ?L" if ne: "?L \<noteq> []"
  proof -
    have "hd (moved s ?L) = s" using ne by (cases ?L) (auto simp: moved_def)
    moreover have "lpath D1 (hd (moved s ?L)) (moved s ?L) NO_RECORD \<and> (\<forall>j < length ?L. dat D1 (moved s ?L ! j) = dat d (?L ! j))"
      by (rule side_end[OF L ne]) (use NO sub(1) ne in \<open>auto simp: D1_def\<close>)
    moreover have "D ! i = D1 ! i" if "i \<in> set (moved s ?L)" for i using that 2 dis(1) by blast
    ultimately show ?thesis using lpath_cong[of "moved s ?L" D D1 s NO_RECORD] l1 by (auto simp: list_eq_iff_nth_eq)
  qed
  moreover have high: "lpath D n (moved n ?R) NO_RECORD \<and> map (dat D) (moved n ?R) = map (dat d) ?R" if ne: "?R \<noteq> []"
  proof -
    have "hd (moved n ?R) = n" using ne by (cases ?R) (auto simp: moved_def)
    moreover have "lpath D (hd (moved n ?R)) (moved n ?R) NO_RECORD \<and> (\<forall>j < length ?R. dat D (moved n ?R ! j) = dat d (?R ! j))"
      by (rule side_end[OF R1 ne]) (use NO sub(2) ne in \<open>auto simp: D_def\<close>)
    ultimately show ?thesis by (auto simp: list_eq_iff_nth_eq)
  qed
  moreover have "\<forall>i. i \<notin> set cs \<and> i \<noteq> n \<longrightarrow> D ! i = d ! i" using 1 2 sub same by (metis insertE subsetD)
  moreover have "map (dat D) (moved s ?L) = map (dat d) ?L" using low by (cases "?L = []") simp_all
  moreover have "map (dat D) (moved n ?R) = map (dat d) ?R" using high by (cases "?R = []") simp_all
  ultimately show ?thesis using l1(2) by (intro exI[of _ D]) blast
qed

end
