(* ===== verification/Hash_Grow.thy ===== *)
theory Hash_Grow
  imports Hash_Split
begin

text \<open>
  Growing a table by one position: the split of the bucket whose records may move to the new last position leaves a
  table with exactly one free position and the same records.
\<close>

subsection \<open>The table\<close>

lemma moved_positions:
  assumes cs: "distinct cs" "cs \<noteq> []" "hd cs = s" "n \<notin> set cs"
  shows "set (moved s (lows hi cs)) \<union> set (moved n (highs hi cs)) = insert n (set cs) - {free_pos s n hi cs}"
    "free_pos s n hi cs \<in> insert n (set cs)"
proof -
  obtain zs where zs: "cs = s # zs" using cs(2,3) by (cases cs) auto
  have d: "s \<notin> set zs" "distinct zs" "n \<noteq> s" "n \<notin> set zs" using cs zs by auto
  define l h where "l = filter (\<lambda>i. \<not> hi i) zs" and "h = filter hi zs"
  have l: "i \<in> set l \<longleftrightarrow> i \<in> set zs \<and> \<not> hi i" and h: "i \<in> set h \<longleftrightarrow> i \<in> set zs \<and> hi i" for i by (auto simp: l_def h_def)
  have dl: "distinct l" "distinct h" using d by (simp_all add: l_def h_def)
  have "lows hi cs = (if hi s then l else s # l)" "highs hi cs = (if hi s then s # h else h)"
    by (simp_all add: lows_def highs_def zs l_def h_def)
  note e = this
  have "i \<in> set (moved s (lows hi cs)) \<union> set (moved n (highs hi cs)) \<longleftrightarrow> i \<in> insert n (set cs) - {free_pos s n hi cs}" for i
  proof (cases "hi s")
    case True
    note f = e[unfolded if_P[OF True]]
    show ?thesis unfolding free_pos_def f moved_def using l h d(1,3,4) dl True by (cases l) (auto simp: zs)
  next
    case False
    note f = e[unfolded if_not_P[OF False]]
    show ?thesis unfolding free_pos_def f moved_def using l h d(1,3,4) dl False by (cases h) (auto simp: zs)
  qed
  then show "set (moved s (lows hi cs)) \<union> set (moved n (highs hi cs)) = insert n (set cs) - {free_pos s n hi cs}" by blast
  have "hd l \<in> set l" if "l \<noteq> []" using that by simp
  moreover have "hd h \<in> set h" if "h \<noteq> []" using that by simp
  ultimately show "free_pos s n hi cs \<in> insert n (set cs)" unfolding free_pos_def e using l h by (auto simp: zs)
qed

lemma recs_list: "distinct ts \<Longrightarrow> recs d (set ts) = mset (map (dat d) ts)"
  by (simp add: recs_def mset_set_set)

lemma recs_union: "finite A \<Longrightarrow> finite B \<Longrightarrow> A \<inter> B = {} \<Longrightarrow> recs d (A \<union> B) = recs d A + recs d B"
  by (simp add: recs_def mset_set_Union)

lemma mset_lows_highs: "mset (map f (lows hi cs)) + mset (map f (highs hi cs)) = mset (map f cs)"
  by (induction cs) (auto simp: lows_def highs_def)

lemma dat_of_map: "map (dat D) ts = map (dat d) src \<Longrightarrow> i \<in> set ts \<Longrightarrow> \<exists>j \<in> set src. dat D i = dat d j"
proof -
  assume m: "map (dat D) ts = map (dat d) src" and "i \<in> set ts"
  then have "dat D i \<in> set (map (dat d) src)" unfolding m[symmetric] by simp
  then show ?thesis by auto
qed

lemma split_tbl:
  assumes t: "tbl d {..<n} n f" and n: "n < length d" "n < NO_RECORD" and s: "s < n"
    and cs: "lpath d s cs NO_RECORD" "set cs = bucket d {..<n} f s" "cs \<noteq> []"
    and f': "\<And>i. i < n \<Longrightarrow> f' (dat d i) = (if i \<in> set cs \<and> hi i then n else f (dat d i))"
    and D: "length D = length d" "\<forall>i. i \<notin> set cs \<and> i \<noteq> n \<longrightarrow> D ! i = d ! i"
      "lows hi cs \<noteq> [] \<longrightarrow> lpath D s (moved s (lows hi cs)) NO_RECORD" "highs hi cs \<noteq> [] \<longrightarrow> lpath D n (moved n (highs hi cs)) NO_RECORD"
      "map (dat D) (moved s (lows hi cs)) = map (dat d) (lows hi cs)" "map (dat D) (moved n (highs hi cs)) = map (dat d) (highs hi cs)"
  defines "e \<equiv> free_pos s n hi cs"
  shows "tbl D ({..<Suc n} - {e}) (Suc n) f' \<and> recs D ({..<Suc n} - {e}) = recs d {..<n} \<and> e < Suc n"
proof -
  let ?L = "moved s (lows hi cs)" and ?R = "moved n (highs hi cs)"
  have C: "i \<in> set cs \<longleftrightarrow> i < n \<and> f (dat d i) = s" for i unfolding cs(2) by (simp add: bucket_def)
  then have sub: "set cs \<subseteq> {..<n}" by blast
  have cd: "distinct cs" "hd cs = s" "n \<notin> set cs" using lpath_distinct[OF cs(1)] lpath_head[OF cs(1,3)] C[of n] by simp_all
  note pos = moved_positions[OF cd(1) cs(3) cd(2,3), of hi, folded e_def]
  note dis = moved_disjoint[OF cd(1) _ cd(3), of s hi]
  have P: "i \<in> set ?L \<or> i \<in> set ?R \<longleftrightarrow> (i = n \<or> i \<in> set cs) \<and> i \<noteq> e" for i using pos(1) unfolding set_eq_iff by simp
  have e: "e < Suc n" "e = n \<or> e \<in> set cs" using pos(2) C[of e] by auto
  have S': "{..<Suc n} - {e} = ({..<n} - set cs) \<union> (set ?L \<union> set ?R)"
  proof (intro set_eqI)
    fix i show "i \<in> {..<Suc n} - {e} \<longleftrightarrow> i \<in> ({..<n} - set cs) \<union> (set ?L \<union> set ?R)" using P[of i] C[of i] e(2) by auto
  qed
  have fL: "f' (dat D i) = s" if i: "i \<in> set ?L" for i
  proof -
    obtain j where "j \<in> set (lows hi cs)" "dat D i = dat d j" using dat_of_map[OF D(5) i] by auto
    then show ?thesis using f'[of j] C[of j] by (auto simp: lows_def)
  qed
  have fR: "f' (dat D i) = n" if i: "i \<in> set ?R" for i
  proof -
    obtain j where "j \<in> set (highs hi cs)" "dat D i = dat d j" using dat_of_map[OF D(6) i] by auto
    then show ?thesis using f'[of j] C[of j] by (auto simp: highs_def)
  qed
  have fO: "D ! i = d ! i" "f' (dat D i) = f (dat d i)" "f (dat d i) \<noteq> s" "f (dat d i) < n" if "i \<in> {..<n} - set cs" for i
    using that D(2) f'[of i] C[of i] tblD(5)[OF t, of i] by auto
  have bk: "bucket D ({..<Suc n} - {e}) f' b = (if b = s then set ?L else if b = n then set ?R else bucket d {..<n} f b)" if "b < Suc n" for b
  proof (intro set_eqI)
    fix i
    consider "i \<in> {..<n} - set cs" | "i \<in> set ?L" | "i \<in> set ?R" | "i \<notin> {..<Suc n} - {e}" using S' by blast
    then show "i \<in> bucket D ({..<Suc n} - {e}) f' b \<longleftrightarrow> i \<in> (if b = s then set ?L else if b = n then set ?R else bucket d {..<n} f b)"
    proof cases
      case 1
      then have "i \<notin> set ?L" "i \<notin> set ?R" "i \<in> {..<Suc n} - {e}" using P[of i] S' by auto
      then show ?thesis using fO[OF 1] 1 by (auto simp: bucket_def)
    next
      case 2
      then have "i \<notin> set ?R" "i \<in> {..<Suc n} - {e}" "b \<noteq> s \<Longrightarrow> b \<noteq> n \<Longrightarrow> i \<notin> bucket d {..<n} f b"
        using dis(1) cd S' P[of i] C[of i] by (auto simp: bucket_def)
      then show ?thesis using fL[OF 2] 2 s by (auto simp: bucket_def)
    next
      case 3
      then have "i \<notin> set ?L" "i \<in> {..<Suc n} - {e}" "b \<noteq> s \<Longrightarrow> b \<noteq> n \<Longrightarrow> i \<notin> bucket d {..<n} f b"
        using dis(1) cd S' P[of i] C[of i] by (auto simp: bucket_def)
      then show ?thesis using fR[OF 3] 3 s by (auto simp: bucket_def)
    next
      case 4
      then have "i \<notin> set ?L" "i \<notin> set ?R" "i \<notin> {..<n} - set cs" using S' by blast+
      then show ?thesis using 4 C[of i] by (auto simp: bucket_def)
    qed
  qed
  have "tbl D ({..<Suc n} - {e}) (Suc n) f'"
  proof (rule tbl_change[OF t, where B = "{s, n}"])
    fix b assume b: "b < Suc n" "b \<notin> {s, n}"
    have "\<forall>i \<in> bucket d {..<n} f b. D ! i = d ! i" using b D(2) C by (auto simp: bucket_def)
    then show "b < n \<and> bucket D ({..<Suc n} - {e}) f' b = bucket d {..<n} f b \<and> (\<forall>i \<in> bucket d {..<n} f b. D ! i = d ! i)"
      using b bk[OF b(1)] by simp
  next
    fix b assume b: "b < Suc n" "b \<in> {s, n}" "bucket D ({..<Suc n} - {e}) f' b \<noteq> {}"
    then have "b = s \<and> bucket D ({..<Suc n} - {e}) f' b = set ?L \<or> b = n \<and> bucket D ({..<Suc n} - {e}) f' b = set ?R"
      using bk[OF b(1)] by auto
    then show "\<exists>xs. lpath D b xs NO_RECORD \<and> set xs = bucket D ({..<Suc n} - {e}) f' b"
      using D(3,4) b(3) by (metis moved_simps(4) set_empty)
  next
    fix i assume "i \<in> {..<Suc n} - {e}"
    then have "i \<in> {..<n} - set cs \<or> i \<in> set ?L \<or> i \<in> set ?R" using S' by blast
    then show "f' (dat D i) < Suc n" using fO(2,4)[of i] fL[of i] fR[of i] s by auto
  qed (use n D(1) in auto)
  moreover have "recs D ({..<Suc n} - {e}) = recs d {..<n}"
  proof -
    have "recs D ({..<Suc n} - {e}) = recs D ({..<n} - set cs) + (recs D (set ?L) + recs D (set ?R))"
    proof -
      have "({..<n} - set cs) \<inter> (set ?L \<union> set ?R) = {}"
      proof (rule equals0I)
        fix i assume "i \<in> ({..<n} - set cs) \<inter> (set ?L \<union> set ?R)"
        then show False using P[of i] by auto
      qed
      moreover have "set ?L \<inter> set ?R = {}" using dis(1) cd(2) by blast
      ultimately show ?thesis unfolding S' using recs_union[of "{..<n} - set cs" "set ?L \<union> set ?R" D] recs_union[of "set ?L" "set ?R" D] by simp
    qed
    also have "recs D ({..<n} - set cs) = recs d ({..<n} - set cs)" using fO(1) by (intro recs_cong) simp
    also have "recs D (set ?L) + recs D (set ?R) = recs d (set cs)"
      unfolding recs_list[OF dis(2)[OF cd(2)]] recs_list[OF dis(3)[OF cd(2)]] recs_list[OF cd(1)] D(5,6) by (rule mset_lows_highs)
    also have "recs d ({..<n} - set cs) + recs d (set cs) = recs d {..<n}"
    proof -
      have un: "({..<n} - set cs) \<union> set cs = {..<n}" using sub by blast
      have "recs d (({..<n} - set cs) \<union> set cs) = recs d ({..<n} - set cs) + recs d (set cs)" by (rule recs_union) auto
      then show ?thesis unfolding un by simp
    qed
    finally show ?thesis .
  qed
  ultimately show ?thesis using e(1) by blast
qed

lemma grow_ok:
  assumes t: "tbl d {..<n} n f" and n: "n < length d" "n < NO_RECORD" and s: "s < n"
    and f: "\<And>r. f r = hash_mask (rec_hashnr rb h r) (blength h) (records h)"
    and f': "\<And>r. f' r = (if f r = s \<and> unat (rec_hashnr rb h r) AND H \<noteq> 0 then n else f r)"
    and st: "flag st = 0" "empty st = n" "sdata st = d"
  shows "\<exists>st'. Option.bind (split_loop rb h H s st s) split_end = Some st' \<and> length (sdata st') = length d \<and> empty st' < Suc n \<and>
    tbl (sdata st') ({..<Suc n} - {empty st'}) (Suc n) f' \<and> recs (sdata st') ({..<Suc n} - {empty st'}) = recs d {..<n}"
proof (cases "bucket d {..<n} f s = {}")
  case True
  have sl: "s < length d" using s n by simp
  have ne: "f (dat d i) \<noteq> s" if "i < n" for i using True that by (auto simp: bucket_def)
  have "split_loop rb h H s st s = Some st"
    using ne[OF s] sl by (subst split_loop.simps) (simp add: st f)
  moreover have "split_end st = Some st" by (simp add: split_end_def st LOWFIND_def HIGHFIND_def)
  moreover have S: "{..<Suc n} - {n} = {..<n}" by auto
  moreover have "tbl d {..<n} (Suc n) f'"
  proof (rule tbl_change[OF t, where B = "{n}"])
    fix b assume "b < Suc n" "b \<notin> {n}"
    moreover have "bucket d {..<n} f' b = bucket d {..<n} f b" using ne by (auto simp: bucket_def f')
    ultimately show "b < n \<and> bucket d {..<n} f' b = bucket d {..<n} f b \<and> (\<forall>i \<in> bucket d {..<n} f b. d ! i = d ! i)" by auto
  next
    fix b assume "b \<in> {n}" "bucket d {..<n} f' b \<noteq> {}"
    then show "\<exists>xs. lpath d b xs NO_RECORD \<and> set xs = bucket d {..<n} f' b"
      using ne tblD(5)[OF t] by (auto simp: bucket_def f' split: if_splits) 
  next
    fix i assume "i \<in> {..<n}"
    then show "f' (dat d i) < Suc n" using tblD(5)[OF t, of i] by (simp add: f')
  qed (use n in auto)
  ultimately show ?thesis using st by (intro exI[of _ st]) simp
next
  case False
  then obtain cs where cs: "lpath d s cs NO_RECORD" "set cs = bucket d {..<n} f s" "cs \<noteq> []" using tbl_path[OF t s] by fastforce
  define hi where "hi i \<longleftrightarrow> unat (rec_hashnr rb h (dat d i)) AND H \<noteq> 0" for i
  have C: "i \<in> set cs \<longleftrightarrow> i < n \<and> f (dat d i) = s" for i unfolding cs(2) by (simp add: bucket_def)
  have cd: "distinct cs" "hd cs = s" "n \<notin> set cs" using lpath_distinct[OF cs(1)] lpath_head[OF cs(1,3)] C[of n] by simp_all
  obtain qs where qs: "cs = [] @ s # qs" using cs(3) cd(2) by (cases cs) auto
  have inv: "sinv d s n hi [] s False False st" using st by (simp add: sinv_def side_Nil free_pos_def flag_of_def lows_def highs_def)
  have "s < length d" using s n by simp
  moreover have "hi i \<longleftrightarrow> unat (rec_hashnr rb h (dat d i)) AND H \<noteq> 0" for i by (simp add: hi_def)
  moreover have "hash_mask (rec_hashnr rb h (dat d i)) (blength h) (records h) = s" if "i \<in> set cs" for i using that C[of i] by (simp add: f)
  ultimately have "\<exists>st' lu' hu'. split_loop rb h H s st s = Some st' \<and> sinv d s n hi cs NO_RECORD lu' hu' st'"
    using split_loop_ok[OF cs(1) cd(3) n(1) _ _ _ qs inv, of rb h H] by blast
  then obtain st' lu hu where st': "split_loop rb h H s st s = Some st'" "sinv d s n hi cs NO_RECORD lu hu st'" by blast
  have NO: "\<forall>i \<in> insert n (insert s (set cs)). i \<noteq> NO_RECORD" using n s C by auto
  obtain D where D: "split_end st' = Some (st'\<lparr>sdata := D\<rparr>)" "length D = length d" "\<forall>i. i \<notin> set cs \<and> i \<noteq> n \<longrightarrow> D ! i = d ! i"
      "lows hi cs \<noteq> [] \<longrightarrow> lpath D s (moved s (lows hi cs)) NO_RECORD" "highs hi cs \<noteq> [] \<longrightarrow> lpath D n (moved n (highs hi cs)) NO_RECORD"
      "map (dat D) (moved s (lows hi cs)) = map (dat d) (lows hi cs)" "map (dat D) (moved n (highs hi cs)) = map (dat d) (highs hi cs)"
    using split_end_ok[OF st'(2) cd(1,2,3) NO] by blast
  have e: "empty st' = free_pos s n hi cs" using st'(2) by (simp add: sinv_def)
  have "f' (dat d i) = (if i \<in> set cs \<and> hi i then n else f (dat d i))" if "i < n" for i using that C[of i] by (simp add: f' hi_def)
  note split_tbl[OF t n s cs this D(2-7)]
  then show ?thesis using st'(1) D(1,2) e by (intro exI[of _ "st'\<lparr>sdata := D\<rparr>"]) simp
qed

end
