(* ===== verification/Hash_Moves.thy ===== *)
theory Hash_Moves
  imports Hash_Chain
begin

text \<open>
  The three changes of a table that the operations of \<open>hash.c\<close> are made of: a record is unlinked, the chain of a new
  position is split off when the table grows, and the record of the last position is moved when it shrinks.
\<close>

subsection \<open>Unlinking\<close>

lemma unlink_ok:
  assumes t: "tbl d S N f" and b: "b < N" and path: "lpath d b (as @ p # bs) NO_RECORD" and bk: "set (as @ p # bs) = bucket d S f b"
  shows "\<exists>d' e. unlink d p (if as = [] then None else Some (last as)) = Some (d', e) \<and> length d' = length d \<and> e \<in> bucket d S f b \<and>
    tbl d' (S - {e}) N f \<and> recs d S = add_mset (dat d p) (recs d' (S - {e})) \<and> (e = p \<longrightarrow> d' ! p = d ! p)"
proof -
  have pl: "p < length d" and p: "p \<in> S" "f (dat d p) = b" "p \<in> bucket d S f b" using lpath_bound[OF path, of p] bk by (auto simp: bucket_def)
  have fin: "finite S" using tblD(4)[OF t] .
  have dist: "distinct (as @ p # bs)" using lpath_distinct[OF path] .
  show ?thesis
  proof (cases "as = []")
    case False
    then obtain as0 a where as: "as = as0 @ [a]" by (metis append_butlast_last_id)
    define d' where "d' = d[a := (d ! a)\<lparr>link_next := nxt d p\<rparr>]"
    have al: "a < length d" "a \<in> bucket d S f b" using lpath_bound[OF path, of a] bk as by auto
    have nth: "d' ! i = (if i = a then (d ! a)\<lparr>link_next := nxt d p\<rparr> else d ! i)" for i using al by (simp add: d'_def nth_list_update)
    have "lpath d' b (as0 @ [a]) (nxt d p)" unfolding d'_def by (rule lpath_redirect) (use path dist as in auto)
    moreover have "lpath d' (nxt d p) bs NO_RECORD" unfolding d'_def using path dist as by auto
    ultimately have ys: "lpath d' b (as @ bs) NO_RECORD" using as by auto
    have tb: "tbl d' (S - {p}) N f"
      by (rule shorten_chain[OF t b p(3), of _ "as @ bs"]) (use al ys bk dist in \<open>auto simp: nth d'_def[symmetric] bucket_def\<close>, simp add: d'_def)
    have "recs d' (S - {p}) = recs d (S - {p})" by (rule recs_cong) (simp add: nth)
    then have "recs d S = add_mset (dat d p) (recs d' (S - {p}))" using recs_remove[OF fin p(1)] by metis
    moreover have "unlink d p (Some a) = Some (d', p)" using pl al by (simp add: unlink_def set_next_def d'_def)
    moreover have "d' ! p = d ! p" using dist as by (auto simp: nth)
    ultimately show ?thesis using tb p(3) False as by (intro exI[of _ d'] exI[of _ p]) (simp add: d'_def)
  next
    case as: True
    show ?thesis
    proof (cases bs)
      case Nil
      have "nxt d p = NO_RECORD" using path as Nil by auto
      then have "unlink d p None = Some (d, p)" using pl by (simp add: unlink_def)
      moreover have "tbl d (S - {p}) N f"
        by (rule shorten_chain[OF t b p(3), of _ "[]"]) (use as Nil bk in \<open>auto simp: bucket_def\<close>)
      ultimately show ?thesis using as p(3) recs_remove[OF fin p(1), of d] by auto
    next
      case (Cons q cs)
      define d' where "d' = d[p := d ! q]"
      have ql: "q < length d" "q \<in> bucket d S f b" "p \<noteq> q" "nxt d p = q" "q \<noteq> NO_RECORD" "p = b" "lpath d (nxt d q) cs NO_RECORD"
        using path as Cons bk dist by auto
      have nth: "d' ! i = (if i = p then d ! q else d ! i)" for i using pl by (simp add: d'_def nth_list_update)
      have "p \<notin> set cs" using dist as Cons by auto
      then have "lpath d' (nxt d q) cs NO_RECORD" using ql(7) by (simp add: d'_def)
      then have ys: "lpath d' b (p # cs) NO_RECORD" using pl ql path as by (auto simp: nth d'_def)
      have tb: "tbl d' (S - {q}) N f"
        by (rule shorten_chain[OF t b ql(2), of _ "p # cs"]) (use p ql ys bk dist as Cons in \<open>auto simp: nth bucket_def\<close>, simp add: d'_def)
      have "unlink d p None = Some (d', q)" using pl ql by (simp add: unlink_def d'_def)
      moreover have "recs d S = add_mset (dat d p) (recs d' (S - {q}))"
      proof -
        have q: "q \<in> S - {p}" "p \<in> S - {q}" using ql p by (auto simp: bucket_def)
        have "recs d S = add_mset (dat d p) (add_mset (dat d q) (recs d (S - {p} - {q})))"
          using recs_remove[OF fin p(1), of d] recs_remove[of "S - {p}" q d] fin q(1) by (metis finite_Diff)
        moreover have "recs d' (S - {q}) = add_mset (dat d q) (recs d' (S - {q} - {p}))"
          using recs_remove[OF _ q(2), of d'] fin by (simp only: nth finite_Diff simp_thms if_True)
        moreover have "recs d' (S - {p} - {q}) = recs d (S - {p} - {q})" by (rule recs_cong) (auto simp: nth)
        moreover have "S - {q} - {p} = S - {p} - {q}" by auto
        ultimately show ?thesis by metis
      qed
      ultimately show ?thesis using as ql tb by (auto simp: d'_def)
    qed
  qed
qed

end
