(* ===== verification/Hash_Insert.thy ===== *)
theory Hash_Insert
  imports Hash_Grow Hash_Moves
begin

text \<open>
  The home positions of the records under the masks of a table that grows and shrinks by one position at a time, the
  invariant of a table, and the insertion of a record.
\<close>

subsection \<open>The masks\<close>

lemma unat_and_mask: "unat (x AND (word_of_nat (2 ^ k) - 1) :: uint32) = unat x mod 2 ^ k"
proof -
  have "(x AND (word_of_nat (2 ^ k) - 1)) = take_bit k x" by (simp add: take_bit_eq_mask mask_eq_exp_minus_1)
  then show ?thesis by (simp only: unsigned_take_bit_eq) (simp add: take_bit_eq_mod)
qed

lemma drop_bit_power: "k < 32 \<Longrightarrow> 0 < k \<Longrightarrow> drop_bit 1 (word_of_nat (2 ^ k) :: uint32) = word_of_nat (2 ^ (k - 1))"
  by (simp add: drop_bit_exp_eq)

lemma hash_mask_mod:
  assumes "k < 32" "0 < n"
  shows "hash_mask x (2 ^ k) n = (if unat x mod 2 ^ k < n then unat x mod 2 ^ k else unat x mod (2 ^ k div 2))"
proof (cases k)
  case 0
  then show ?thesis using assms by (simp add: hash_mask_def)
next
  case (Suc j)
  have "unat (x AND (drop_bit 1 (word_of_nat (2 ^ k)) - 1)) = unat x mod 2 ^ j"
    using drop_bit_power[OF assms(1)] unat_and_mask[of x j] Suc by simp
  then show ?thesis unfolding hash_mask_def unat_and_mask by (simp add: Suc)
qed

lemma mod_double: "(x :: nat) mod 2 ^ Suc j = x mod 2 ^ j + (if x AND 2 ^ j \<noteq> 0 then 2 ^ j else 0)"
proof -
  have "x AND 2 ^ j \<noteq> 0 \<longleftrightarrow> bit x j" by (simp add: and_exp_eq_0_iff_not_bit)
  then show ?thesis using take_bit_Suc_from_most[of j x] by (simp add: take_bit_eq_mod)
qed

lemma take_high:
  assumes "(m :: nat) < P" "P \<le> n" "n < 2 * P"
  shows "(if m + (if b then P else 0) < Suc n then m + (if b then P else 0) else m) =
    (if (if m + (if b then P else 0) < n then m + (if b then P else 0) else m) = n - P \<and> b then n
     else if m + (if b then P else 0) < n then m + (if b then P else 0) else m)"
  using assms by (cases b) auto

text \<open>A further position takes the records of one other position whose next bit is set.\<close>

lemma hash_mask_grow:
  assumes "Suc j < 32" "2 ^ j \<le> n" "n < 2 ^ Suc j"
  shows "hash_mask x (2 ^ Suc j) (Suc n) =
    (if hash_mask x (2 ^ Suc j) n = n - 2 ^ j \<and> unat x AND 2 ^ j \<noteq> 0 then n else hash_mask x (2 ^ Suc j) n)"
proof -
  have n: "0 < n" using assms(2) by (cases n) auto
  have h: "hash_mask x (2 ^ Suc j) m = (if unat x mod 2 ^ Suc j < m then unat x mod 2 ^ Suc j else unat x mod 2 ^ j)" if "0 < m" for m
    using hash_mask_mod[OF assms(1) that, of x] by simp
  show ?thesis unfolding h[OF n] h[OF zero_less_Suc] mod_double by (rule take_high) (use assms(2,3) in simp_all)
qed

lemma hash_mask_double:
  assumes "Suc k < 32"
  shows "hash_mask x (2 ^ Suc k) (2 ^ k) = hash_mask x (2 ^ k) (2 ^ k)"
proof -
  have "unat x mod 2 ^ k < 2 ^ k" by simp
  moreover have "hash_mask x (2 ^ k) (2 ^ k) = unat x mod 2 ^ k" using assms hash_mask_mod[of k "2 ^ k" x] by simp
  moreover have "hash_mask x (2 ^ Suc k) (2 ^ k) = (if unat x mod 2 ^ Suc k < 2 ^ k then unat x mod 2 ^ Suc k else unat x mod 2 ^ k)"
    using hash_mask_mod[OF assms, of "2 ^ k" x] by simp
  ultimately show ?thesis unfolding mod_double by simp
qed

lemma hash_mask_less:
  assumes "k < 32" "0 < n" "2 ^ k div 2 \<le> n"
  shows "hash_mask x (2 ^ k) n < n"
proof (cases k)
  case 0
  then show ?thesis using assms(2) unfolding hash_mask_mod[OF assms(1,2)] by simp
next
  case (Suc j)
  have "unat x mod 2 ^ j < 2 ^ j" by simp
  also have "2 ^ j \<le> n" using assms(3) Suc by simp
  finally show ?thesis using Suc unfolding hash_mask_mod[OF assms(1,2)] by simp
qed

subsection \<open>The invariant\<close>

lemma rec_hashnr_update [simp]:
  "rec_hashnr rb (h\<lparr>records := n\<rparr>) = rec_hashnr rb h" "rec_hashnr rb (h\<lparr>blength := m\<rparr>) = rec_hashnr rb h"
  "rec_hashnr rb (h\<lparr>array := a\<rparr>) = rec_hashnr rb h" "rec_hashnr rb (set_links h ls) = rec_hashnr rb h"
  by (simp_all add: fun_eq_iff rec_hashnr_def calc_hash_def hash_key_def set_links_def split: option.split)

definition home :: "('r \<Rightarrow> uchar list) \<Rightarrow> 'r HASH \<Rightarrow> nat \<Rightarrow> nat \<Rightarrow> 'r \<Rightarrow> nat" where
  "home rb h B n r = hash_mask (rec_hashnr rb h r) B n"

lemma home_update [simp]:
  "home rb (h\<lparr>records := n\<rparr>) = home rb h" "home rb (h\<lparr>blength := m\<rparr>) = home rb h"
  "home rb (h\<lparr>array := a\<rparr>) = home rb h" "home rb (set_links h ls) = home rb h"
  by (simp_all add: fun_eq_iff home_def)

definition hash_bag :: "'r HASH \<Rightarrow> 'r multiset" where
  "hash_bag h = mset (map link_data (arr_elems (array h)))"

definition sizes_ok :: "nat \<Rightarrow> nat \<Rightarrow> bool" where
  "sizes_ok B n \<longleftrightarrow> (\<exists>k < 31. B = 2 ^ k) \<and> B div 2 \<le> n \<and> n < B"

definition hash_ok :: "('r \<Rightarrow> uchar list) \<Rightarrow> 'r HASH \<Rightarrow> bool" where
  "hash_ok rb h \<longleftrightarrow> arr_wf (array h) \<and> size_of_element (array h) = sizeof_HASH_LINK \<and> elements (array h) = records h \<and>
     sizes_ok (blength h) (records h) \<and> tbl (arr_elems (array h)) {..<records h} (records h) (home rb h (blength h) (records h))"

text \<open>The table only depends on the used positions.\<close>

lemma lpath_prefix:
  "lpath d x xs y \<Longrightarrow> set xs \<subseteq> {..<n} \<Longrightarrow> n \<le> length d' \<Longrightarrow> (\<And>i. i < n \<Longrightarrow> d' ! i = d ! i) \<Longrightarrow> lpath d' x xs y"
  by (induction xs arbitrary: x) auto

lemma tbl_prefix:
  assumes t: "tbl d {..<n} n f" and d': "n \<le> length d'" "\<And>i. i < n \<Longrightarrow> d' ! i = d ! i"
  shows "tbl d' {..<n} n f"
proof -
  have bk: "bucket d' {..<n} f b = bucket d {..<n} f b" for b using d'(2) by (auto simp: bucket_def)
  have "\<exists>xs. lpath d' b xs NO_RECORD \<and> set xs = bucket d {..<n} f b" if b: "b < n" "bucket d {..<n} f b \<noteq> {}" for b
  proof -
    obtain xs where xs: "lpath d b xs NO_RECORD" "set xs = bucket d {..<n} f b" using tbl_path[OF t b] by blast
    then have "set xs \<subseteq> {..<n}" by (auto simp: bucket_def)
    from lpath_prefix[OF xs(1) this d'] xs(2) show ?thesis by blast
  qed
  then show ?thesis using t d' by (auto simp: tbl_def bk)
qed

lemma recs_prefix: "n \<le> length d \<Longrightarrow> recs d {..<n} = mset (map link_data (take n d))"
proof -
  assume n: "n \<le> length d"
  have "recs d {..<n} = mset (map (dat d) [0..<n])" using recs_list[of "[0..<n]" d] by (simp add: atLeast0LessThan)
  also have "map (dat d) [0..<n] = map link_data (take n d)" using n by (intro nth_equalityI) simp_all
  finally show ?thesis .
qed

lemma hash_bag_recs:
  assumes "arr_wf (array h)" "buffer (array h) = Some b" "n = elements (array h)"
  shows "hash_bag h = recs b {..<n} \<and> n \<le> length b \<and> arr_elems (array h) = take n b"
  using assms recs_prefix[of n b] by (auto simp: hash_bag_def arr_elems_def arr_wf_def)

lemma hash_okI:
  assumes a: "arr_wf a" "buffer a = Some b" "elements a = n" "size_of_element a = sizeof_HASH_LINK"
    and d: "length d = length b" "tbl d {..<n} n (home rb h B n)" and B: "sizes_ok B n"
    and h: "records h = n" "blength h = B" "array h = a\<lparr>buffer := Some d\<rparr>"
  shows "hash_ok rb h \<and> hash_bag h = recs d {..<n}"
proof -
  have n: "n \<le> length d" using a d(1) by (simp add: arr_wf_def)
  have e: "arr_elems (array h) = take n d" using h a(3) by (simp add: arr_elems_def)
  have "tbl (take n d) {..<n} n (home rb h B n)" by (rule tbl_prefix[OF d(2)]) (use n in simp_all)
  moreover have "arr_wf (array h)" using a d(1) h by (simp add: arr_wf_def)
  ultimately show ?thesis using a B h recs_prefix[OF n] unfolding hash_ok_def hash_bag_def e by simp
qed

lemma grow_sizes:
  assumes "sizes_ok B n" "Suc n < 2 ^ 28"
  defines "B' \<equiv> if Suc n = B then 2 * B else B"
  shows "sizes_ok B' (Suc n)" "home rb h B' (Suc n) = home rb h B (Suc n)"
proof -
  obtain k where k: "k < 31" "B = 2 ^ k" "B div 2 \<le> n" "n < B" using assms(1) by (auto simp: sizes_ok_def)
  have "Suc k < 31 \<and> hash_mask x (2 * B) B = hash_mask x B B" if "Suc n = B" for x
  proof -
    have "(2 :: nat) ^ k < 2 ^ 28" using that k(2) assms(2) by simp
    then have "k < 28" by (rule power_less_imp_less_exp[rotated]) simp
    then show ?thesis using hash_mask_double[of k x] by (simp add: k(2))
  qed
  note dbl = this
  show "sizes_ok B' (Suc n)"
  proof (cases "Suc n = B")
    case True
    then show ?thesis using dbl[OF True] k(2) by (auto simp: B'_def sizes_ok_def intro!: exI[of _ "Suc k"])
  next
    case False
    then show ?thesis using k by (auto simp: B'_def sizes_ok_def)
  qed
  show "home rb h B' (Suc n) = home rb h B (Suc n)" using dbl by (auto simp: B'_def home_def fun_eq_iff)
qed

subsection \<open>The new record\<close>

lemma insert_place_ok:
  assumes t: "tbl d ({..<N} - {e}) N f" and e: "e < N" and f: "f = home rb h (blength h) N" and N: "N = records h + 1" and r: "f record < N"
  shows "\<exists>d'. insert_place rb h d e record = Some d' \<and> length d' = length d \<and> tbl d' {..<N} N f \<and>
    recs d' {..<N} = add_mset record (recs d ({..<N} - {e}))"
proof -
  let ?S = "{..<N} - {e}" and ?p = "f record"
  have S: "insert e ?S = {..<N}" "e \<notin> ?S" "finite ?S" using e by auto
  have len: "e < length d" "?p < length d" using tblD(2)[OF t] e r by auto
  have idx: "hash_mask (rec_hashnr rb h record) (blength h) (records h + 1) = ?p" by (simp add: f home_def N)
  have gp: "hash_rec_mask rb h l (blength h) (records h + 1) = f (link_data l)" for l by (simp add: f home_def N hash_rec_mask_def rec_hashnr_def)
  note P = insert_place_def[of rb h d e "record", unfolded idx gp Let_def]
  consider "?p = e" | "?p \<noteq> e" "f (dat d ?p) = ?p" | "?p \<noteq> e" "f (dat d ?p) \<noteq> ?p" by blast
  then show ?thesis
  proof cases
    case 1
    let ?d = "d[e := \<lparr>link_next = NO_RECORD, link_data = record\<rparr>]"
    have "recs ?d ?S = recs d ?S" by (rule recs_cong) simp
    then have "recs ?d (insert e ?S) = add_mset record (recs d ?S)" using recs_insert[OF S(3,2), of ?d] len by simp
    then show ?thesis using place_home[OF t S(2) e 1] len 1 unfolding P S(1) by simp
  next
    case 2
    let ?d = "d[e := d ! ?p, ?p := \<lparr>link_next = e, link_data = record\<rparr>]"
    have p: "?p \<in> ?S" using 2 r by simp
    have "tbl ?d (insert e ?S) N f \<and> recs ?d (insert e ?S) = add_mset record (recs d ?S)"
      by (rule place_second[OF t S(2) e p 2(2)]) (use len 2(1) in \<open>auto simp: nth_list_update\<close>)
    then show ?thesis using len 2 unfolding P S(1) by simp
  next
    case 3
    have p: "?p \<in> ?S" using 3 r by simp
    from place_evict[OF t S(2) e p 3(2) refl] show ?thesis using len 3 unfolding P S(1) by (simp add: eq_commute)
  qed
qed

lemma split_part_ok:
  assumes t: "tbl d {..<n} n (home rb h B n)" and n: "n < length d" "n < NO_RECORD" and B: "sizes_ok B n"
    and h: "B = blength h" "n = records h"
    and st: "st = \<lparr>flag = 0, empty = n, gpos = 0, gpos2 = 0, ptr_to_rec = None, ptr_to_rec2 = None, sdata = d\<rparr>"
    and fi: "fi = u32 (n + (2 ^ 32 - B div 2))"
  shows "\<exists>st'. (if fi \<noteq> n then Option.bind (split_loop rb h (B div 2) fi st fi) split_end else Some st) = Some st' \<and>
    length (sdata st') = length d \<and> empty st' < Suc n \<and> tbl (sdata st') ({..<Suc n} - {empty st'}) (Suc n) (home rb h B (Suc n)) \<and>
    recs (sdata st') ({..<Suc n} - {empty st'}) = recs d {..<n}"
proof (cases "n = 0")
  case True
  then have "B div 2 = 0" using B by (auto simp: sizes_ok_def)
  moreover have "tbl d {} (Suc 0) g" for g using True n by (simp add: tbl_def bucket_def Suc_le_eq)
  ultimately show ?thesis using True by (simp add: st fi) (simp add: u32_def lessThan_Suc)
next
  case False
  obtain k where k: "k < 31" "B = 2 ^ k" "B div 2 \<le> n" "n < B" using B by (auto simp: sizes_ok_def)
  then obtain j where j: "k = Suc j" using False by (cases k) auto
  have H: "B div 2 = 2 ^ j" "0 < (2::nat) ^ j" and nj: "2 ^ j \<le> n" "n < 2 ^ Suc j" using k j by auto
  have "n < 2 ^ 32" using n(2) by (simp add: NO_RECORD_def)
  then have s: "fi = n - 2 ^ j" using nj unfolding fi H by (simp add: u32_def mod_if)
  have home': "home rb h B (Suc n) r = (if home rb h B n r = n - 2 ^ j \<and> unat (rec_hashnr rb h r) AND 2 ^ j \<noteq> 0 then n else home rb h B n r)" for r
    unfolding home_def k(2) j by (rule hash_mask_grow) (use nj k j in simp_all)
  have "\<exists>st'. Option.bind (split_loop rb h (2 ^ j) (n - 2 ^ j) st (n - 2 ^ j)) split_end = Some st' \<and> length (sdata st') = length d \<and> empty st' < Suc n \<and>
    tbl (sdata st') ({..<Suc n} - {empty st'}) (Suc n) (home rb h B (Suc n)) \<and> recs (sdata st') ({..<Suc n} - {empty st'}) = recs d {..<n}"
    by (rule grow_ok[OF t n _ _ home']) (use nj H in \<open>simp_all add: home_def h st\<close>)
  moreover have "n - 2 ^ j \<noteq> n" using nj H(2) by linarith
  ultimately show ?thesis unfolding s H(1) by simp
qed

lemma my_hash_insert_eq:
  assumes "alloc_dynamic mem junk (array h) = Some (a, Some n)" "h\<lparr>array := a\<rparr> = h1" "links h1 = Some b"
    and "u32 (records h1 + (2 ^ 32 - blength h1 div 2)) = fi"
    and "\<lparr>flag = 0, empty = n, gpos = 0, gpos2 = 0, ptr_to_rec = None, ptr_to_rec2 = None, sdata = b\<rparr> = st"
    and "(if fi \<noteq> records h1 then Option.bind (split_loop rb h1 (blength h1 div 2) fi st fi) split_end else Some st) = Some st'"
    and "insert_place rb h1 (sdata st') (empty st') record = Some d" "(set_links h1 d)\<lparr>records := u32 (records h1 + 1)\<rparr> = h2"
  shows "my_hash_insert mem junk rb h record = Some (if records h2 = blength h2 then h2\<lparr>blength := u32 (blength h2 + blength h2)\<rparr> else h2, False)"
  unfolding my_hash_insert_def by (simp only: assms Let_def bind.bind_lunit prod.case option.case)

lemma my_hash_insert_ok:
  assumes ok: "hash_ok rb h" and room: "(max_element (array h) + alloc_increment (array h)) * sizeof_HASH_LINK < 2 ^ 32"
  shows "if elements (array h) = max_element (array h) \<and> \<not> mem ((max_element (array h) + alloc_increment (array h)) * sizeof_HASH_LINK)
    then my_hash_insert mem junk rb h record = Some (h, True)
    else \<exists>h'. my_hash_insert mem junk rb h record = Some (h', False) \<and> hash_ok rb h' \<and> hash_bag h' = add_mset record (hash_bag h) \<and>
      rec_hashnr rb h' = rec_hashnr rb h"
proof -
  let ?a = "array h" and ?n = "records h" and ?B = "blength h"
  have wf: "arr_wf ?a" and sz: "size_of_element ?a = sizeof_HASH_LINK" and el: "elements ?a = ?n" and so: "sizes_ok ?B ?n"
    and t: "tbl (arr_elems ?a) {..<?n} ?n (home rb h ?B ?n)" using ok by (simp_all add: hash_ok_def)
  note al = alloc_dynamic_ok[OF wf, of mem junk, unfolded sz, OF room]
  show ?thesis
  proof (cases "elements ?a = max_element ?a \<and> \<not> mem ((max_element ?a + alloc_increment ?a) * sizeof_HASH_LINK)")
    case True
    then show ?thesis using al by (simp add: my_hash_insert_def)
  next
    case False
    obtain a x where a: "alloc_dynamic mem junk ?a = Some (a, Some ?n)" "arr_wf a" "arr_elems a = arr_elems ?a @ [x]"
        "size_of_element a = sizeof_HASH_LINK" using al[unfolded if_not_P[OF False]] el by auto
    have ea: "elements a = Suc ?n" using length_arr_elems[OF wf] length_arr_elems[OF a(2)] a(3) el by simp
    obtain b where b: "buffer a = Some b" using a(3) by (cases "buffer a") (simp_all add: arr_elems_def)
    have tb: "arr_elems a = take (Suc ?n) b" and lb: "Suc ?n \<le> max_element a" "max_element a \<le> length b" "max_element a * 16 < 2 ^ 32"
      using a(2,4) b ea by (simp_all add: arr_elems_def arr_wf_def sizeof_HASH_LINK_def)
    have NO: "?n < NO_RECORD" "Suc ?n < 2 ^ 28" using lb by (simp_all add: NO_RECORD_def)
    have bi: "b ! i = arr_elems ?a ! i" if "i < ?n" for i
      using that tb a(3) length_arr_elems[OF wf] el by (metis less_SucI nth_append nth_take)
    have tbb: "tbl b {..<?n} ?n (home rb h ?B ?n)" by (rule tbl_prefix[OF t]) (use lb bi in auto)
    have "recs b {..<?n} = hash_bag h"
    proof -
      have "take ?n b = arr_elems ?a" using tb a(3) length_arr_elems[OF wf] el by (metis append_eq_conv_conj take_take min.absorb1 le_SucI order_refl)
      then show ?thesis using recs_prefix[of ?n b] lb by (simp add: hash_bag_def)
    qed
    note rb = this
    let ?h = "h\<lparr>array := a\<rparr>"
    define st where "st = \<lparr>flag = 0, empty = ?n, gpos = 0, gpos2 = 0, ptr_to_rec = None, ptr_to_rec2 = None, sdata = b\<rparr>"
    let ?fi = "u32 (?n + (2 ^ 32 - ?B div 2))"
    have hh: "?B = blength ?h" "?n = records ?h" "?n < length b" using lb by simp_all
    note sp = split_part_ok[OF _ hh(3) NO(1) so hh(1,2) st_def refl, of rb, unfolded home_update, OF tbb]
    from sp obtain st' where st': "(if ?fi \<noteq> ?n then Option.bind (split_loop rb ?h (?B div 2) ?fi st ?fi) split_end else Some st) = Some st'"
        "length (sdata st') = length b" "empty st' < Suc ?n" "tbl (sdata st') ({..<Suc ?n} - {empty st'}) (Suc ?n) (home rb h ?B (Suc ?n))"
        "recs (sdata st') ({..<Suc ?n} - {empty st'}) = recs b {..<?n}" by blast
    have less: "home rb h ?B (Suc ?n) record < Suc ?n" using so unfolding home_def sizes_ok_def by (auto intro!: hash_mask_less)
    have ff: "home rb h ?B (Suc ?n) = home rb ?h (blength ?h) (Suc ?n)" "Suc ?n = records ?h + 1" by simp_all
    note ip = insert_place_ok[OF st'(4,3) ff less, unfolded st'(2,5) rb]
    from ip obtain d' where d': "insert_place rb ?h (sdata st') (empty st') record = Some d'" "length d' = length b"
        "tbl d' {..<Suc ?n} (Suc ?n) (home rb h ?B (Suc ?n))" "recs d' {..<Suc ?n} = add_mset record (hash_bag h)" by blast
    define h0 where "h0 = (set_links ?h d')\<lparr>records := Suc ?n\<rparr>"
    define h' where "h' = (if records h0 = blength h0 then h0\<lparr>blength := u32 (blength h0 + blength h0)\<rparr> else h0)"
    have u: "u32 (?n + 1) = Suc ?n" "Suc ?n = ?B \<Longrightarrow> u32 (?B + ?B) = 2 * ?B" using NO(2) by (simp_all add: u32_def)
    have eqs: "links ?h = Some b" "(set_links ?h d')\<lparr>records := u32 (records ?h + 1)\<rparr> = h0" "blength ?h = ?B" "records ?h = ?n"
      using b u by (simp_all add: links_def h0_def)
    have "my_hash_insert mem junk rb h record = Some (h', False)"
      unfolding h'_def by (rule my_hash_insert_eq[OF a(1) refl eqs(1) refl st_def[symmetric] _ d'(1) eqs(2)]) (simp only: eqs(3,4) st'(1))
    moreover have "hash_ok rb h' \<and> hash_bag h' = add_mset record (hash_bag h) \<and> rec_hashnr rb h' = rec_hashnr rb h"
    proof -
      note gs = grow_sizes(1)[OF so NO(2)] grow_sizes(2)[OF so NO(2), of rb h]
      have h': "records h' = Suc ?n" "blength h' = (if Suc ?n = ?B then 2 * ?B else ?B)" "array h' = a\<lparr>buffer := Some d'\<rparr>"
        "rec_hashnr rb h' = rec_hashnr rb h" "home rb h' = home rb h"
        using u by (auto simp: h'_def h0_def set_links_def)
      show ?thesis using hash_okI[OF a(2) b ea a(4) d'(2) _ gs(1) h'(1-3), of rb, unfolded h'(5) gs(2), OF d'(3)] d'(4) h'(4) by simp
    qed
    ultimately show ?thesis unfolding if_not_P[OF False] by blast
  qed
qed

end
