(* ===== verification/Hash_Shrink.thy ===== *)
theory Hash_Shrink
  imports Hash_Insert
begin

text \<open>
  Shrinking a table by one position: the record of the last position moves to the free one, and the chains of the two
  positions that become one are joined.
\<close>

subsection \<open>The last position\<close>

definition shrinks :: "'r HASH_LINK list \<Rightarrow> nat \<Rightarrow> nat \<Rightarrow> nat \<Rightarrow> ('r \<Rightarrow> nat) \<Rightarrow> ('r \<Rightarrow> nat) \<Rightarrow> bool" where
  "shrinks d e m s f f' \<longleftrightarrow> tbl d ({..<Suc m} - {e}) (Suc m) f \<and> e < m \<and> s < m \<and> (\<forall>r. f' r = (if f r = m then s else f r))"

text \<open>The positions \<open>p i\<close> where the records of the new table come from.\<close>

lemma shrink_tbl:
  assumes sh: "shrinks d e m s f f'" and len: "length d' = length d"
    and p: "inj_on p {..<m}" "p ` {..<m} = {..<Suc m} - {e}" "\<And>i. i < m \<Longrightarrow> dat d' i = dat d (p i)"
    and keep: "\<And>b i. b < m \<Longrightarrow> b \<notin> B \<Longrightarrow> i \<in> bucket d ({..<Suc m} - {e}) f b \<Longrightarrow> i < m \<and> p i = i \<and> nxt d' i = nxt d i"
    and s: "s \<in> B \<or> bucket d ({..<Suc m} - {e}) f m = {}"
    and new: "\<And>b. b \<in> B \<Longrightarrow> b < m \<Longrightarrow> bucket d ({..<Suc m} - {e}) f' b \<noteq> {} \<Longrightarrow>
      \<exists>xs. lpath d' b xs NO_RECORD \<and> set xs \<subseteq> {..<m} \<and> p ` set xs = bucket d ({..<Suc m} - {e}) f' b"
  shows "tbl d' {..<m} m f' \<and> recs d' {..<m} = recs d ({..<Suc m} - {e})"
proof -
  let ?S = "{..<Suc m} - {e}"
  have t: "tbl d ?S (Suc m) f" and sm: "s < m" and f': "\<And>r. f' r = (if f r = m then s else f r)" using sh by (auto simp: shrinks_def)
  have bk: "i \<in> bucket d' {..<m} f' b \<longleftrightarrow> i < m \<and> p i \<in> bucket d ?S f' b" for i b
    using p(2,3) by (auto simp: bucket_def)
  have path: "\<exists>xs. lpath d' b xs NO_RECORD \<and> set xs \<subseteq> {..<m} \<and> p ` set xs = bucket d ?S f' b" if b: "b < m" "bucket d ?S f' b \<noteq> {}" for b
  proof (cases "b \<in> B")
    case False
    have eq: "bucket d ?S f' b = bucket d ?S f b"
    proof (intro set_eqI)
      fix i show "i \<in> bucket d ?S f' b \<longleftrightarrow> i \<in> bucket d ?S f b"
        using s False b(1) by (auto simp: bucket_def f')
    qed
    then obtain xs where xs: "lpath d b xs NO_RECORD" "set xs = bucket d ?S f b" using tbl_path[OF t, of b] b by fastforce
    have k: "i < m \<and> p i = i \<and> nxt d' i = nxt d i" if "i \<in> set xs" for i using keep[OF b(1) False] that xs(2) by blast
    then have "lpath d' b xs NO_RECORD" using xs(1) by (subst lpath_cong) (auto simp: len)
    moreover have "p ` set xs = set xs" using k by force
    ultimately show ?thesis using xs(2) eq k by auto
  qed (use new b in blast)
  have "\<exists>xs. lpath d' b xs NO_RECORD \<and> set xs = bucket d' {..<m} f' b" if b: "b < m" "bucket d' {..<m} f' b \<noteq> {}" for b
  proof -
    have "bucket d ?S f' b \<noteq> {}" using b(2) bk by blast
    then obtain xs where xs: "lpath d' b xs NO_RECORD" "set xs \<subseteq> {..<m}" "p ` set xs = bucket d ?S f' b" using path[OF b(1)] by blast
    have "i \<in> set xs \<longleftrightarrow> i \<in> bucket d' {..<m} f' b" for i
      unfolding bk xs(3)[symmetric] using xs(2) inj_on_image_mem_iff[OF p(1), of i "set xs"] by auto
    then show ?thesis using xs(1) by blast
  qed
  moreover have "f' (dat d' i) < m" if "i < m" for i
  proof -
    have "p i \<in> ?S" using p(2) that by blast
    then show ?thesis using tblD(5)[OF t, of "p i"] sm that by (auto simp: p(3) f')
  qed
  ultimately have "tbl d' {..<m} m f'" using tblD(2,3)[OF t] len by (auto simp: tbl_def)
  moreover have "recs d' {..<m} = recs d ?S"
    unfolding p(2)[symmetric] recs_def image_mset_mset_set[OF p(1), symmetric] multiset.map_comp by (rule image_mset_cong) (simp add: p(3))
  ultimately show ?thesis by blast
qed

text \<open>The last record moves to the free position, or a record moves there and the last one takes its position.\<close>

lemma move_last:
  assumes "e < m"
  shows "inj_on (\<lambda>i. if i = e then m else i) {..<m}" "(\<lambda>i. if i = e then m else i) ` {..<m} = {..<Suc m} - {e}"
  using assms by (auto simp: inj_on_def image_iff less_Suc_eq)

lemma move_two:
  assumes "e < m" "q < m" "q \<noteq> e"
  shows "inj_on (\<lambda>i. if i = e then q else if i = q then m else i) {..<m}"
    "(\<lambda>i. if i = e then q else if i = q then m else i) ` {..<m} = {..<Suc m} - {e}"
  using assms by (auto simp: inj_on_def image_iff less_Suc_eq)

lemma shrinksD:
  assumes "shrinks d e m s f f'"
  shows "tbl d ({..<Suc m} - {e}) (Suc m) f" "e < m" "s < m" "\<And>r. f' r = (if f r = m then s else f r)" "m \<in> {..<Suc m} - {e}"
    "e < length d" "m < length d" "\<And>i. i \<in> bucket d ({..<Suc m} - {e}) f b \<Longrightarrow> i \<le> m \<and> i \<noteq> e \<and> f (dat d i) = b"
  using assms tblD(2)[of d "{..<Suc m} - {e}" "Suc m" f] by (auto simp: shrinks_def bucket_def)

lemma shrink_home:
  assumes sh: "shrinks d e m e f f'" and l: "f (dat d m) = m"
  shows "tbl (d[e := d ! m]) {..<m} m f' \<and> recs (d[e := d ! m]) {..<m} = recs d ({..<Suc m} - {e})"
proof (rule shrink_tbl[OF sh _ move_last[OF shrinksD(2)[OF sh]], where B = "{e}"])
  note D = shrinksD[OF sh]
  let ?S = "{..<Suc m} - {e}"
  fix b assume b: "b \<in> {e}"
  obtain xs where xs: "lpath d m (m # xs) NO_RECORD" "set (m # xs) = bucket d ?S f m" "distinct (m # xs)"
    using tbl_chain[OF D(1,5)] l by metis
  have "bucket d ?S f e = {}" using bucket_home[OF D(1), of e] by blast
  then have bk: "bucket d ?S f' e = set (m # xs)" unfolding xs(2) using D(2) by (auto simp: bucket_def D(4))
  have in_b: "i \<le> m \<and> i \<noteq> e" if "i \<in> set (m # xs)" for i using that D(8)[of i m] unfolding xs(2) by blast
  then have e: "e \<notin> set xs" and xm: "set xs \<subseteq> {..<m}" using xs(3) by (auto simp: less_le)
  have "lpath (d[e := d ! m]) e (e # xs) NO_RECORD" using xs(1) e D(2,6) lpath_bound[OF xs(1), of m] tblD(3)[OF D(1)] by auto
  moreover have "(\<lambda>i. if i = e then m else i) ` set (e # xs) = set (m # xs)" using e by auto
  ultimately show "\<exists>xs. lpath (d[e := d ! m]) b xs NO_RECORD \<and> set xs \<subseteq> {..<m} \<and> (\<lambda>i. if i = e then m else i) ` set xs = bucket d ?S f' b"
    using b xm D(2) bk by (intro exI[of _ "e # xs"]) auto
next
  note D = shrinksD[OF sh]
  fix b i assume "b < m" "i \<in> bucket d ({..<Suc m} - {e}) f b"
  then show "i < m \<and> (if i = e then m else i) = i \<and> nxt (d[e := d ! m]) i = nxt d i" using D(8)[of i b] l by (auto simp: less_le)
qed (use shrinksD(6)[OF sh] in \<open>auto simp: nth_list_update\<close>)

lemma shrink_same:
  assumes sh: "shrinks d e m s f f'" and q: "q < m" "f (dat d m) = q"
  shows "\<exists>d'. movelink (d[e := d ! m]) m q e = Some d' \<and> length d' = length d \<and>
    tbl d' {..<m} m f' \<and> recs d' {..<m} = recs d ({..<Suc m} - {e})"
proof -
  note D = shrinksD[OF sh]
  let ?S = "{..<Suc m} - {e}" and ?p = "\<lambda>i. if i = e then m else i"
  obtain as bs where ab: "lpath d q (as @ m # bs) NO_RECORD" "set (as @ m # bs) = bucket d ?S f q"
    using tbl_suffix[OF D(1,5)] q(2) by metis
  have "as \<noteq> []" using ab(1) q(1) by (cases as) auto
  then obtain cs a where as: "as = cs @ [a]" by (metis append_butlast_last_id)
  have dist: "distinct (as @ m # bs)" using lpath_distinct[OF ab(1)] .
  have in_b: "i \<le> m \<and> i \<noteq> e \<and> f (dat d i) = q" if "i \<in> set (as @ m # bs)" for i using that D(8)[of i q] unfolding ab(2) by blast
  have e: "e \<notin> set (as @ m # bs)" using in_b by blast
  have am: "a < length d" "a \<noteq> m" "a \<noteq> e" using lpath_bound[OF ab(1), of a] as dist e by auto
  let ?d1 = "d[e := d ! m]"
  define d' where "d' = ?d1[a := (?d1 ! a)\<lparr>link_next := e\<rparr>]"
  have p1: "lpath ?d1 q (cs @ [a]) m" using ab(1) e as by auto
  have mv: "movelink ?d1 m q e = Some d'" unfolding d'_def by (rule movelink_ok[OF p1]) (use dist as am in auto)
  have nth: "d' ! i = (if i = a then (d ! a)\<lparr>link_next := e\<rparr> else if i = e then d ! m else d ! i)" for i
    using am D(6) by (simp add: d'_def nth_list_update)
  have "lpath d' q (cs @ [a]) e" unfolding d'_def by (rule lpath_redirect[OF p1]) (use dist as in auto)
  moreover have "lpath d' e (e # bs) NO_RECORD"
  proof -
    have "lpath d (nxt d m) bs NO_RECORD" using ab(1) by auto
    then have "lpath d' (nxt d m) bs NO_RECORD" using e dist as by (simp add: d'_def)
    then show ?thesis using D(2,6) tblD(3)[OF D(1)] am by (simp add: nth d'_def)
  qed
  ultimately have path: "lpath d' q (as @ e # bs) NO_RECORD" using as by auto
  have "bucket d ?S f m = {}" using bucket_home[OF D(1), of m] q by auto
  then have bk: "bucket d ?S f' b = bucket d ?S f b" if "b < m" for b using that by (auto simp: bucket_def D(4))
  have "tbl d' {..<m} m f' \<and> recs d' {..<m} = recs d ?S"
  proof (rule shrink_tbl[OF sh _ move_last[OF D(2)], where B = "{q}"])
    fix b assume b: "b \<in> {q}"
    have "?p ` set (as @ e # bs) = bucket d ?S f' q" unfolding bk[OF q(1)] ab(2)[symmetric] using e by auto
    moreover have "set (as @ e # bs) \<subseteq> {..<m}" using in_b dist D(2) by (auto simp: less_le)
    ultimately show "\<exists>xs. lpath d' b xs NO_RECORD \<and> set xs \<subseteq> {..<m} \<and> ?p ` set xs = bucket d ?S f' b"
      using path b by blast
  next
    fix b i assume "b < m" "b \<notin> {q}" "i \<in> bucket d ?S f b"
    moreover have "f (dat d a) = q" using in_b as by simp
    ultimately show "i < m \<and> ?p i = i \<and> nxt d' i = nxt d i" using D(8)[of i b] q by (auto simp: less_le nth)
  qed (use am \<open>bucket d ?S f m = {}\<close> in \<open>auto simp: nth\<close>, simp add: d'_def)
  then show ?thesis using mv by (simp add: d'_def)
qed

text \<open>The chain of the last position follows the record at the head of the other chain.\<close>

lemma shrink_join:
  assumes sh: "shrinks d e m s f f'" and zs: "lpath d (nxt d m) zs x" and ts: "lpath d (nxt d s) ts NO_RECORD"
    and all: "set (m # s # zs @ ts) = bucket d ({..<Suc m} - {e}) f' s" and dist: "distinct (m # s # zs @ ts)" and x: "x \<notin> set zs" "x \<noteq> e"
  shows "\<exists>d2 d'. movelink (d[e := d ! m]) x e (nxt d s) = Some d2 \<and> set_next d2 s e = Some d' \<and> length d' = length d \<and>
    tbl d' {..<m} m f' \<and> recs d' {..<m} = recs d ({..<Suc m} - {e})"
proof -
  note D = shrinksD[OF sh]
  let ?S = "{..<Suc m} - {e}" and ?p = "\<lambda>i. if i = e then m else i" and ?d1 = "d[e := d ! m]"
  have in_b: "i \<le> m \<and> i \<noteq> e \<and> f' (dat d i) = s" if "i \<in> set (m # s # zs @ ts)" for i using that unfolding all by (auto simp: bucket_def)
  have e: "e \<noteq> s" "e \<notin> set zs" "e \<notin> set ts" using in_b[of e] by auto
  have sl: "s < length d" "e \<noteq> NO_RECORD" "s \<noteq> NO_RECORD" using D(2,3,7) tblD(3)[OF D(1)] by auto
  have p1: "lpath ?d1 e (e # zs) x" using zs e D(6) sl by simp
  obtain ys a where ya: "e # zs = ys @ [a]" by (metis append_butlast_last_id list.distinct(1))
  have "a \<in> set (e # zs)" "set ys \<subseteq> set (e # zs)" unfolding ya by auto
  moreover have "distinct (ys @ [a])" using dist e(2) unfolding ya[symmetric] by simp
  ultimately have ysa: "a = e \<or> a \<in> set zs" "set ys \<subseteq> insert e (set zs)" "a \<notin> set ys" by simp_all
  have am: "a < length d" "a \<noteq> s" "a \<noteq> m" "a \<notin> set ts" using ysa(1) D(2,6) dist e lpath_bound[OF zs, of a] by auto
  define d2 where "d2 = ?d1[a := (?d1 ! a)\<lparr>link_next := nxt d s\<rparr>]"
  define d' where "d' = d2[s := (d2 ! s)\<lparr>link_next := e\<rparr>]"
  have mv: "movelink ?d1 x e (nxt d s) = Some d2" unfolding d2_def by (rule movelink_ok[OF p1[unfolded ya]]) (use x ysa in auto)
  have sn: "set_next d2 s e = Some d'" using sl by (simp add: set_next_def d'_def d2_def)
  have path: "lpath d' s (s # e # zs @ ts) NO_RECORD"
  proof -
    have "lpath d2 e (e # zs) (nxt d s)" unfolding d2_def ya by (rule lpath_redirect[OF p1[unfolded ya] ysa(3)])
    then have "lpath d' e (e # zs) (nxt d s)" unfolding d'_def by (subst lpath_update) (use e dist in auto)
    moreover have "lpath d' (nxt d s) ts NO_RECORD" using ts e am dist by (simp add: d'_def d2_def)
    ultimately have "lpath d' e ((e # zs) @ ts) NO_RECORD" unfolding lpath_append by blast
    moreover have "nxt d' s = e" "length d' = length d" using sl am by (simp_all add: d'_def d2_def)
    ultimately show ?thesis using sl by simp
  qed
  have dd: "dat d' i = dat d (?p i)" for i
    using D(6) sl am by (simp add: d'_def d2_def nth_list_update)
  have nn: "nxt d' i = nxt d i" if "i \<noteq> e" "i \<noteq> a" "i \<noteq> s" for i using that by (simp add: d'_def d2_def)
  have "tbl d' {..<m} m f' \<and> recs d' {..<m} = recs d ?S"
  proof (rule shrink_tbl[OF sh _ move_last[OF D(2)], where B = "{s}"])
    fix b assume b: "b \<in> {s}"
    have "?p ` set (s # e # zs @ ts) = bucket d ?S f' s" unfolding all[symmetric] using e by auto
    moreover have "i < m" if "i \<in> set (s # e # zs @ ts)" for i using that in_b[of i] dist D(2,3) by (cases "i = m") auto
    then have "set (s # e # zs @ ts) \<subseteq> {..<m}" by blast
    ultimately show "\<exists>xs. lpath d' b xs NO_RECORD \<and> set xs \<subseteq> {..<m} \<and> ?p ` set xs = bucket d ?S f' b" using path b by blast
  next
    fix b i assume b: "b < m" "b \<notin> {s}" "i \<in> bucket d ?S f b"
    then have i: "i \<le> m" "i \<noteq> e" "f' (dat d i) \<noteq> s" using D(8)[of i b] D(4)[of "dat d i"] by auto
    then have "i \<notin> set (m # s # zs @ ts)" using in_b by blast
    then show "i < m \<and> ?p i = i \<and> nxt d' i = nxt d i" using i ysa nn[of i] by auto
  qed (use dd in \<open>simp_all add: d'_def d2_def\<close>)
  then show ?thesis using mv sn by (simp add: d'_def d2_def)
qed

text \<open>The record at the new position of the last one belongs to a third chain.\<close>

lemma shrink_evict:
  assumes sh: "shrinks d e m s f f'" and se: "s \<noteq> e" and l: "f (dat d m) = m" and q: "f' (dat d s) = q" "q \<noteq> s"
  shows "\<exists>d'. movelink (d[e := d ! s, s := d ! m]) s q e = Some d' \<and> length d' = length d \<and>
    tbl d' {..<m} m f' \<and> recs d' {..<m} = recs d ({..<Suc m} - {e})"
proof -
  note D = shrinksD[OF sh]
  let ?S = "{..<Suc m} - {e}" and ?p = "\<lambda>i. if i = e then s else if i = s then m else i" and ?d1 = "d[e := d ! s, s := d ! m]"
  have sS: "s \<in> ?S" using D(3) se by simp
  have fs: "f (dat d s) = q" "q \<noteq> m" using q D(4)[of "dat d s"] by (auto split: if_splits)
  have qm: "q < m" using tblD(5)[OF D(1) sS] fs by simp
  obtain as bs where ab: "lpath d q (as @ s # bs) NO_RECORD" "set (as @ s # bs) = bucket d ?S f q"
    using tbl_suffix[OF D(1) sS] fs(1) by metis
  have "as \<noteq> []" using ab(1) q(2) by (cases as) auto
  then obtain cs a where as: "as = cs @ [a]" by (metis append_butlast_last_id)
  obtain xs where xs: "lpath d m (m # xs) NO_RECORD" "set (m # xs) = bucket d ?S f m" "distinct (m # xs)"
    using tbl_chain[OF D(1,5)] l by metis
  have dist: "distinct (as @ s # bs)" using lpath_distinct[OF ab(1)] .
  have inq: "i \<le> m \<and> i \<noteq> e \<and> f (dat d i) = q" if "i \<in> set (as @ s # bs)" for i using that D(8)[of i q] unfolding ab(2) by blast
  have inm: "i \<le> m \<and> i \<noteq> e \<and> f (dat d i) = m" if "i \<in> set (m # xs)" for i using that D(8)[of i m] unfolding xs(2) by blast
  have e: "e \<notin> set (as @ s # bs)" "e \<notin> set (m # xs)" using inq inm by blast+
  have mq: "m \<notin> set (as @ s # bs)" "s \<notin> set (m # xs)" "a \<notin> set (m # xs)" using inq[of m] inm[of s] inm[of a] inq[of a] l fs as by auto
  have al: "a < length d" "a \<noteq> s" "a \<noteq> e" "s < length d" "e \<noteq> NO_RECORD" "s \<noteq> NO_RECORD"
    using lpath_bound[OF ab(1), of a] as dist e D(2,3,7) tblD(3)[OF D(1)] by auto
  define d' where "d' = ?d1[a := (?d1 ! a)\<lparr>link_next := e\<rparr>]"
  have p1: "lpath ?d1 q (cs @ [a]) s" using ab(1) e as dist by auto
  have mv: "movelink ?d1 s q e = Some d'" unfolding d'_def by (rule movelink_ok[OF p1]) (use dist as al in auto)
  have nth: "d' ! i = (if i = a then (d ! a)\<lparr>link_next := e\<rparr> else if i = s then d ! m else if i = e then d ! s else d ! i)" for i
    using al D(6) by (simp add: d'_def nth_list_update)
  have len: "length d' = length d" by (simp add: d'_def)
  have path1: "lpath d' q (as @ e # bs) NO_RECORD"
  proof -
    have "lpath d' q (cs @ [a]) e" unfolding d'_def by (rule lpath_redirect[OF p1]) (use dist as in auto)
    moreover have "lpath d' (nxt d s) bs NO_RECORD"
    proof -
      have "lpath d (nxt d s) bs NO_RECORD" using ab(1) by auto
      then show ?thesis using e dist as by (simp add: d'_def)
    qed
    moreover have "nxt d' e = nxt d s" using se al by (simp add: nth)
    ultimately show ?thesis using as al D(6) len by auto
  qed
  have path2: "lpath d' s (s # xs) NO_RECORD"
  proof -
    have "lpath d' (nxt d m) xs NO_RECORD" using xs(1) e mq by (simp add: d'_def)
    then show ?thesis using al len by (simp add: nth)
  qed
  have "bucket d ?S f s = {}" using bucket_home[OF D(1), of s] fs q by auto
  then have bs: "bucket d ?S f' s = set (m # xs)" unfolding xs(2) by (auto simp: bucket_def D(4))
  have bq: "bucket d ?S f' q = set (as @ s # bs)" unfolding ab(2) using fs(2) q(2) by (auto simp: bucket_def D(4))
  have "tbl d' {..<m} m f' \<and> recs d' {..<m} = recs d ?S"
  proof (rule shrink_tbl[OF sh len move_two[OF D(2,3) se], where B = "{s, q}"])
    fix b assume b: "b \<in> {s, q}"
    have "?p ` set (as @ e # bs) = bucket d ?S f' q" unfolding bq using e dist by auto
    moreover have "?p ` set (s # xs) = bucket d ?S f' s" unfolding bs using e mq se by auto
    moreover have "set (as @ e # bs) \<subseteq> {..<m}" using inq mq D(2) by (auto simp: less_le)
    moreover have "i < m" if "i \<in> set (s # xs)" for i using that inm[of i] xs(3) D(3) by (cases "i = m") auto
    then have "set (s # xs) \<subseteq> {..<m}" by blast
    ultimately show "\<exists>xs. lpath d' b xs NO_RECORD \<and> set xs \<subseteq> {..<m} \<and> ?p ` set xs = bucket d ?S f' b" using path1 path2 b by blast
  next
    fix b i assume b: "b < m" "b \<notin> {s, q}" "i \<in> bucket d ?S f b"
    then have i: "i \<le> m" "i \<noteq> e" "f (dat d i) = b" using D(8)[of i b] by auto
    moreover have "f (dat d a) = q" using inq[of a] as by simp
    ultimately show "i < m \<and> ?p i = i \<and> nxt d' i = nxt d i" using b fs l by (auto simp: nth less_le)
  qed (use al se in \<open>auto simp: nth\<close>)
  then show ?thesis using mv len by simp
qed

end
