(* ===== verification/Hash_Delete.thy ===== *)
theory Hash_Delete
  imports Hash_Shrink
begin

text \<open>
  The deletion of a record: it is unlinked from its chain, the record of the last position is moved, and the array
  loses its last element.
\<close>

subsection \<open>The move\<close>

text \<open>The record at the head of the joined chain is in the chain of the last position, or in the other chain.\<close>

lemma shrink_tail:
  assumes sh: "shrinks d e m s f f'" and s: "s \<noteq> e" and l: "f (dat d m) = m" "f (dat d s) = m"
  shows "\<exists>d2 d'. movelink (d[e := d ! m]) s e (nxt d s) = Some d2 \<and> set_next d2 s e = Some d' \<and> length d' = length d \<and>
    tbl d' {..<m} m f' \<and> recs d' {..<m} = recs d ({..<Suc m} - {e})"
proof -
  note D = shrinksD[OF sh]
  let ?S = "{..<Suc m} - {e}"
  obtain xs where xs: "lpath d m (m # xs) NO_RECORD" "set (m # xs) = bucket d ?S f m" "distinct (m # xs)"
    using tbl_chain[OF D(1,5)] l(1) by metis
  have "s \<in> bucket d ?S f m" using l s D(3) by (simp add: bucket_def)
  then have "s \<in> set xs" using xs(2) D(3) by auto
  then obtain zs ts where zt: "xs = zs @ s # ts" by (meson split_list)
  have "bucket d ?S f s = {}" using bucket_home[OF D(1), of s] D(3) l(2) by auto
  then have "bucket d ?S f' s = bucket d ?S f m" by (auto simp: bucket_def D(4))
  then have all: "set (m # s # zs @ ts) = bucket d ?S f' s" unfolding xs(2)[symmetric] zt by auto
  show ?thesis by (rule shrink_join[OF sh _ _ all]) (use xs(1,3) zt s in auto)
qed

lemma shrink_two:
  assumes sh: "shrinks d e m s f f'" and s: "s \<noteq> e" and l: "f (dat d m) = m" "f (dat d s) = s"
  shows "\<exists>d2 d'. movelink (d[e := d ! m]) NO_RECORD e (nxt d s) = Some d2 \<and> set_next d2 s e = Some d' \<and> length d' = length d \<and>
    tbl d' {..<m} m f' \<and> recs d' {..<m} = recs d ({..<Suc m} - {e})"
proof -
  note D = shrinksD[OF sh]
  let ?S = "{..<Suc m} - {e}"
  have sS: "s \<in> ?S" using D(3) s by simp
  obtain xs where xs: "lpath d m (m # xs) NO_RECORD" "set (m # xs) = bucket d ?S f m" "distinct (m # xs)"
    using tbl_chain[OF D(1,5)] l(1) by metis
  obtain ts where ts: "lpath d s (s # ts) NO_RECORD" "set (s # ts) = bucket d ?S f s" "distinct (s # ts)"
    using tbl_chain[OF D(1) sS] l(2) by metis
  have "bucket d ?S f' s = bucket d ?S f m \<union> bucket d ?S f s" by (auto simp: bucket_def D(4))
  then have all: "set (m # s # xs @ ts) = bucket d ?S f' s" unfolding xs(2)[symmetric] ts(2)[symmetric] by auto
  have "bucket d ?S f m \<inter> bucket d ?S f s = {}" using D(3) by (auto simp: bucket_def)
  then have dist: "distinct (m # s # xs @ ts)" using xs(3) ts(3) unfolding xs(2)[symmetric] ts(2)[symmetric] by auto
  have NO: "NO_RECORD \<notin> set xs" "NO_RECORD \<noteq> e" using lpath_bound[OF xs(1)] D(2) tblD(3)[OF D(1)] by auto
  show ?thesis by (rule shrink_join[OF sh _ _ all dist NO]) (use xs(1) ts(1) in auto)
qed

lemma delete_move_ok:
  assumes sh: "shrinks d e m s f f'" and f: "f = home rb h B (Suc m)" "f' = home rb h (blength h) m" and m: "records h = m"
  shows "\<exists>d'. delete_move rb h B d e m = Some d' \<and> length d' = length d \<and> tbl d' {..<m} m f' \<and> recs d' {..<m} = recs d ({..<Suc m} - {e})"
proof -
  note D = shrinksD[OF sh]
  let ?S = "{..<Suc m} - {e}" and ?l = "dat d m"
  define q where "q = f' ?l"
  have eqs: "hash_mask (rec_hashnr rb h r) (blength h) (records h) = f' r" "hash_mask (rec_hashnr rb h r) B (records h + 1) = f r" for r
    by (simp_all add: f home_def m)
  have qm: "q < m" using tblD(5)[OF D(1,5)] D(3) by (auto simp: q_def D(4))
  have ql: "q < length d" using qm D(7) by simp
  note P = delete_move_def[of rb h B d e m, unfolded eqs Let_def]
  have qd: "f' ?l = q" by (simp add: q_def)
  have fl: "f ?l = m \<and> q = s \<or> f ?l = q" using D(4)[of ?l] by (auto simp: q_def)
  have occ: "f (dat d q) = q" if "f ?l = q" "q \<noteq> e"
  proof -
    have "m \<in> bucket d ?S f q" using D(5) that by (simp add: bucket_def)
    then show ?thesis using bucket_home[OF D(1), of q] by blast
  qed
  consider "q = e" | "q \<noteq> e" "f' (dat d q) \<noteq> q" | "q \<noteq> e" "f' (dat d q) = q" "f ?l = f (dat d q)" "f ?l \<noteq> m"
    | "q \<noteq> e" "f' (dat d q) = q" "f ?l = f (dat d q)" "f ?l = m" | "q \<noteq> e" "f' (dat d q) = q" "f ?l \<noteq> f (dat d q)" by blast
  then show ?thesis
  proof cases
    case 1
    have "e \<notin> ?S" by simp
    then have "bucket d ?S f e = {}" using bucket_home[OF D(1), of e] by blast
    then have "f ?l \<noteq> e" using D(5) by (auto simp: bucket_def)
    then have l: "f ?l = m" "s = e" using fl 1 by auto
    show ?thesis using shrink_home[OF sh[unfolded l(2)] l(1)] D(6,7) 1 unfolding P by (simp add: qd m)
  next
    case 2
    have "f ?l \<noteq> q"
    proof
      assume "f ?l = q"
      with occ 2(1) have "f (dat d q) = q" by blast
      then show False using 2(2) D(4)[of "dat d q"] qm by simp
    qed
    then have l: "f ?l = m" "q = s" using fl by auto
    from shrink_evict[OF sh _ l(1) refl, folded l(2)] 2 show ?thesis using D(6,7) ql unfolding P by (simp add: qd m)
  next
    case 3
    then have "f ?l = q" using fl by auto
    from shrink_same[OF sh qm this] 3 show ?thesis using D(6,7) ql unfolding P by (simp add: qd m)
  next
    case 4
    then have s: "q = s" using fl qm by auto
    have fs: "f (dat d s) = m" using 4(3,4) s by simp
    from shrink_tail[OF sh _ 4(4) fs] 4(1) s obtain d2 d' where d': "movelink (d[e := d ! m]) s e (nxt d s) = Some d2" "set_next d2 s e = Some d'" "length d' = length d"
      "tbl d' {..<m} m f'" "recs d' {..<m} = recs d ({..<Suc m} - {e})" by blast
    have "delete_move rb h B d e m = Some d'"
      unfolding P using D(6,7) ql[unfolded s] 4(1,2)[unfolded s] by (simp add: qd[unfolded s] m fs 4(4) d')
    then show ?thesis using d' by blast
  next
    case 5
    have "f ?l \<noteq> q" using occ 5 by auto
    then have l: "f ?l = m" "q = s" using fl by auto
    then have fs: "f (dat d s) = s" using 5 D(4)[of "dat d s"] by (auto split: if_splits)
    from shrink_two[OF sh _ l(1) fs] 5(1) l(2) obtain d2 d' where d': "movelink (d[e := d ! m]) NO_RECORD e (nxt d s) = Some d2" "set_next d2 s e = Some d'" "length d' = length d"
      "tbl d' {..<m} m f'" "recs d' {..<m} = recs d ({..<Suc m} - {e})" by blast
    have "delete_move rb h B d e m = Some d'"
      unfolding P using D(3,6,7) ql[unfolded l(2)] 5(1,2)[unfolded l(2)] by (simp add: qd[unfolded l(2)] m fs l(1) d')
    then show ?thesis using d' by blast
  qed
qed

subsection \<open>Deletion\<close>

lemma shrink_sizes:
  assumes "sizes_ok B (Suc m)"
  defines "B' \<equiv> if m < B div 2 then B div 2 else B"
  shows "sizes_ok B' m" "0 < m \<Longrightarrow> \<exists>s < m. \<forall>r. home rb h B' m r = (if home rb h B (Suc m) r = m then s else home rb h B (Suc m) r)"
proof -
  obtain k where k: "k < 31" "B = 2 ^ k" "B div 2 \<le> Suc m" "Suc m < B" using assms(1) by (auto simp: sizes_ok_def)
  then obtain j where j: "k = Suc j" by (cases k) auto
  have same: "hash_mask x B (Suc m) = hash_mask x B' (Suc m)" for x
  proof (cases "m < B div 2")
    case True
    then have "Suc m = 2 ^ j" "B' = 2 ^ j" using k j by (simp_all add: B'_def)
    then show ?thesis using hash_mask_double[of j x] k j by simp
  qed (simp add: B'_def)
  show so: "sizes_ok B' m"
  proof (cases "m < B div 2")
    case True
    then have "Suc m = 2 ^ j" "B' = 2 ^ j" using k j by (simp_all add: B'_def)
    then show ?thesis using k(1) j unfolding sizes_ok_def by (intro conjI exI[of _ j]) (auto simp: less_Suc_eq_le)
  next
    case False
    then show ?thesis using k by (auto simp: sizes_ok_def B'_def)
  qed
  assume m: "0 < m"
  obtain k' where k': "k' < 31" "B' = 2 ^ k'" "B' div 2 \<le> m" "m < B'" using so by (auto simp: sizes_ok_def)
  then obtain i where i: "k' = Suc i" using m by (cases k') auto
  have "home rb h B' m r = (if home rb h B (Suc m) r = m then m - 2 ^ i else home rb h B (Suc m) r)" for r
  proof -
    have "hash_mask (rec_hashnr rb h r) B' m < m" using hash_mask_less[of k' m] k' m by simp
    then have "hash_mask (rec_hashnr rb h r) B' m \<noteq> m" by simp
    then show ?thesis using hash_mask_grow[of i m "rec_hashnr rb h r"] k' i unfolding home_def same by auto
  qed
  moreover have "m - 2 ^ i < m" using m by simp
  ultimately show "\<exists>s < m. \<forall>r. home rb h B' m r = (if home rb h B (Suc m) r = m then s else home rb h B (Suc m) r)" by blast
qed

text \<open>The last position is free.\<close>

lemma shrink_free:
  assumes t: "tbl d ({..<Suc m} - {m}) (Suc m) f" and f': "0 < m \<Longrightarrow> \<exists>s < m. \<forall>r. f' r = (if f r = m then s else f r)"
  shows "tbl d {..<m} m f'"
proof -
  have S: "{..<Suc m} - {m} = {..<m}" by auto
  note t = t[unfolded S]
  have "bucket d {..<m} f m = {}" using bucket_home[OF t, of m] by auto
  then have ne: "f (dat d i) \<noteq> m" if "i < m" for i using that by (auto simp: bucket_def)
  have eq: "f' (dat d i) = f (dat d i)" if "i < m" for i using f' ne that by fastforce
  show ?thesis
  proof (rule tbl_change[OF t, where B = "{}"])
    fix i assume "i \<in> {..<m}"
    then show "f' (dat d i) < m" using eq[of i] ne[of i] tblD(5)[OF t, of i] by auto
  next
    fix b assume "b < m"
    then show "b < Suc m \<and> bucket d {..<m} f' b = bucket d {..<m} f b \<and> (\<forall>i \<in> bucket d {..<m} f b. d ! i = d ! i)"
      using eq by (auto simp: bucket_def)
  qed (use tblD(2,3)[OF t] in auto)
qed

lemma pop_eq:
  assumes "arr_wf a" "elements a = Suc m"
  shows "pop_dynamic a = Some (a\<lparr>elements := m\<rparr>, Some m) \<and> arr_wf (a\<lparr>elements := m\<rparr>)"
proof -
  have wa: "arr_wf (a\<lparr>elements := m\<rparr>)" "buffer a \<noteq> None" using assms by (auto simp: arr_wf_def split: option.splits)
  have "elem_at (a\<lparr>elements := m\<rparr>) m = Some m" by (rule elem_at_ok[OF wa(1)]) (use wa assms in \<open>auto simp: arr_wf_def\<close>)
  then show ?thesis using wa assms by (simp add: pop_dynamic_def)
qed

lemma delete_shrink:
  assumes t: "tbl d ({..<Suc m} - {e}) (Suc m) (home rb h B (Suc m))" and e: "e < Suc m" and B: "sizes_ok B (Suc m)"
    and h: "records h = m" "blength h = (if m < B div 2 then B div 2 else B)"
  shows "\<exists>d'. (if e = m then Some d else delete_move rb h B d e m) = Some d' \<and> length d' = length d \<and>
    tbl d' {..<m} m (home rb h (blength h) m) \<and> recs d' {..<m} = recs d ({..<Suc m} - {e})"
proof (cases "e = m")
  case True
  have "{..<Suc m} - {m} = {..<m}" by auto
  then show ?thesis using True shrink_free[OF t[unfolded True] shrink_sizes(2)[OF B, of rb h, folded h(2)]] by simp
next
  case False
  then have "0 < m" using e by simp
  then obtain s where "s < m" "\<forall>r. home rb h (blength h) m r = (if home rb h B (Suc m) r = m then s else home rb h B (Suc m) r)"
    using shrink_sizes(2)[OF B, of rb h, folded h(2)] by blast
  then have "shrinks d e m s (home rb h B (Suc m)) (home rb h (blength h) m)" using t e False by (simp add: shrinks_def)
  from delete_move_ok[OF this refl refl h(1)] False show ?thesis by simp
qed

lemma hash_delete_eq:
  assumes "records h \<noteq> 0" "links h = Some b" "find_record b record (home rb h (blength h) (records h) record) None = Some (Some (p, prev))"
    and "h\<lparr>records := records h - 1\<rparr> = h1" "(if records h1 < blength h1 div 2 then h1\<lparr>blength := blength h1 div 2\<rparr> else h1) = h2"
    and "unlink b p prev = Some (d, e)" "(if e = records h2 then Some d else delete_move rb h2 (blength h) d e (records h2)) = Some d'"
    and "pop_dynamic (array (set_links h2 d')) = Some (a, q)"
  shows "hash_delete rb h record = Some (h2\<lparr>array := a\<rparr>, False, if free h2 then [record] else [])"
  unfolding hash_delete_def by (simp only: assms assms(3)[unfolded home_def] Let_def bind.bind_lunit prod.case option.case if_False simp_thms)

text \<open>The chain that the search for a record follows.\<close>

lemma search_chain:
  assumes t: "tbl d {..<n} n f" and x: "x < n"
  obtains xs where "lpath d x xs NO_RECORD" "xs \<noteq> []" "set xs \<subseteq> {..<n}" "\<And>i. i < n \<Longrightarrow> f (dat d i) = x \<Longrightarrow> set xs = bucket d {..<n} f x"
proof -
  obtain as bs where ab: "lpath d (f (dat d x)) (as @ x # bs) NO_RECORD" "set (as @ x # bs) = bucket d {..<n} f (f (dat d x))" "lpath d x (x # bs) NO_RECORD"
    using tbl_suffix[OF t, of x] x by auto
  have "set (x # bs) = bucket d {..<n} f x" if i: "i < n" "f (dat d i) = x" for i
  proof -
    obtain xs where "lpath d x (x # xs) NO_RECORD" "set (x # xs) = bucket d {..<n} f x" 
      using tbl_chain[OF t, of i] i by (metis lessThan_iff)
    then show ?thesis using lpath_unique[OF ab(3)] by metis
  qed
  moreover have "set (x # bs) \<subseteq> {..<n}" using ab(2) by (auto simp: bucket_def)
  ultimately show thesis using that[OF ab(3)] by blast
qed

lemma delete_found:
  assumes ok: "hash_ok rb h" and m: "records h = Suc m" and b: "buffer (array h) = Some b" and f: "f = home rb h (blength h) (Suc m)"
    and t: "tbl b {..<Suc m} (Suc m) f" and x: "x = f record" "x < Suc m"
    and path: "lpath b x (as @ p # bs) NO_RECORD" "set (as @ p # bs) = bucket b {..<Suc m} f x" and p: "dat b p = record"
    and fr: "find_record b record x None = Some (Some (p, if as = [] then None else Some (last as)))"
  shows "\<exists>h'. hash_delete rb h record = Some (h', False, if free h then [record] else []) \<and> hash_ok rb h' \<and>
      hash_bag h = add_mset record (hash_bag h') \<and> rec_hashnr rb h' = rec_hashnr rb h"
proof -
  let ?a = "array h" and ?B = "blength h"
  have wf: "arr_wf ?a" and sz: "size_of_element ?a = sizeof_HASH_LINK" and el: "elements ?a = Suc m" and so: "sizes_ok ?B (Suc m)"
    using ok m by (simp_all add: hash_ok_def)
  note hb = hash_bag_recs[OF wf b el[symmetric]]
  from unlink_ok[OF t x(2) path] obtain d e where u: "unlink b p (if as = [] then None else Some (last as)) = Some (d, e)" "length d = length b"
      "e \<in> bucket b {..<Suc m} f x" "tbl d ({..<Suc m} - {e}) (Suc m) f" "recs b {..<Suc m} = add_mset record (recs d ({..<Suc m} - {e}))"
    using p by blast
  have e: "e < Suc m" using u(3) by (simp add: bucket_def)
  define h1 where "h1 = h\<lparr>records := records h - 1\<rparr>"
  define h2 where "h2 = (if records h1 < blength h1 div 2 then h1\<lparr>blength := blength h1 div 2\<rparr> else h1)"
  have h2: "records h2 = m" "blength h2 = (if m < ?B div 2 then ?B div 2 else ?B)" "home rb h2 = home rb h" "rec_hashnr rb h2 = rec_hashnr rb h"
      "array h2 = ?a" "free h2 = free h"
    using m by (simp_all add: h2_def h1_def)
  from delete_shrink[of d m e rb h2 ?B, OF _ e so h2(1,2), unfolded h2(1,3) f[symmetric], OF u(4)] obtain d' where
    d': "(if e = m then Some d else delete_move rb h2 ?B d e m) = Some d'" "length d' = length d" "tbl d' {..<m} m (home rb h (blength h2) m)"
      "recs d' {..<m} = recs d ({..<Suc m} - {e})" by blast
  let ?a2 = "array (set_links h2 d')"
  have a2: "?a2 = ?a\<lparr>buffer := Some d'\<rparr>" by (simp add: set_links_def h2(5))
  have wa: "arr_wf ?a2" "elements ?a2 = Suc m" using wf el b u(2) d'(2) by (simp_all add: a2 arr_wf_def)
  note pop = pop_eq[OF wa]
  let ?h = "h2\<lparr>array := ?a2\<lparr>elements := m\<rparr>\<rparr>"
  have "find_record b record (home rb h ?B (records h) record) None = Some (Some (p, if as = [] then None else Some (last as)))"
    using fr by (simp add: x f m)
  from hash_delete_eq[OF _ _ this h1_def[symmetric] h2_def[symmetric] u(1), unfolded h2(1), OF _ _ d'(1) conjunct1[OF pop]]
  have "hash_delete rb h record = Some (?h, False, if free h then [record] else [])" using m b by (simp add: links_def h2(6))
  moreover have "hash_ok rb ?h \<and> hash_bag ?h = recs d' {..<m}"
  proof (rule hash_okI[where a = "?a\<lparr>elements := m\<rparr>"])
    show "arr_wf (?a\<lparr>elements := m\<rparr>)" using wf el by (auto simp: arr_wf_def split: option.splits)
    show "tbl d' {..<m} m (home rb ?h (blength h2) m)" using d'(3) h2(3) by simp
    show "sizes_ok (blength h2) m" unfolding h2(2) by (rule shrink_sizes[OF so])
  qed (use b u(2) d'(2) h2 sz in \<open>simp_all add: a2\<close>)
  moreover have "rec_hashnr rb ?h = rec_hashnr rb h" using h2(4) by simp
  ultimately show ?thesis using hb u(5) d'(4) by auto
qed

lemma hash_delete_ok:
  assumes ok: "hash_ok rb h"
  shows "if record \<in># hash_bag h
    then \<exists>h'. hash_delete rb h record = Some (h', False, if free h then [record] else []) \<and> hash_ok rb h' \<and>
      hash_bag h = add_mset record (hash_bag h') \<and> rec_hashnr rb h' = rec_hashnr rb h
    else hash_delete rb h record = Some (h, True, [])"
proof (cases "records h")
  case 0
  then have "hash_bag h = {#}" using ok length_arr_elems[of "array h"] by (simp add: hash_ok_def hash_bag_def)
  then show ?thesis using 0 by (simp add: hash_delete_def)
next
  case (Suc m)
  let ?a = "array h" and ?B = "blength h"
  have wf: "arr_wf ?a" and el: "elements ?a = Suc m" and so: "sizes_ok ?B (Suc m)"
    and t0: "tbl (arr_elems ?a) {..<Suc m} (Suc m) (home rb h ?B (Suc m))" using ok Suc by (simp_all add: hash_ok_def)
  obtain b where b: "buffer ?a = Some b" using wf el by (cases "buffer ?a") (auto simp: arr_wf_def)
  note hb = hash_bag_recs[OF wf b el[symmetric]]
  have t: "tbl b {..<Suc m} (Suc m) (home rb h ?B (Suc m))" by (rule tbl_prefix[OF t0]) (use hb in simp_all)
  define x where "x = home rb h ?B (Suc m) record"
  have x: "x < Suc m" using so unfolding x_def home_def sizes_ok_def by (auto intro!: hash_mask_less)
  from t x obtain xs where xs: "lpath b x xs NO_RECORD" "xs \<noteq> []" "set xs \<subseteq> {..<Suc m}"
      "\<And>i. i < Suc m \<Longrightarrow> home rb h ?B (Suc m) (dat b i) = x \<Longrightarrow> set xs = bucket b {..<Suc m} (home rb h ?B (Suc m)) x"
    by (rule search_chain) blast
  have bag: "record \<in># hash_bag h \<longleftrightarrow> (\<exists>i < Suc m. dat b i = record)" using hb by (auto simp: set_recs image_iff)
  note fr = find_record_ok[OF xs(1,2), of "record" None]
  show ?thesis
  proof (cases "record \<in># hash_bag h")
    case False
    then have "record \<notin> dat b ` set xs" using bag xs(3) by auto
    then have "find_record b record x None = Some None" using fr by simp
    then show ?thesis using False Suc b unfolding hash_delete_def by (simp add: links_def x_def home_def)
  next
    case True
    then obtain i where i: "i < Suc m" "dat b i = record" using bag by blast
    then have bk: "set xs = bucket b {..<Suc m} (home rb h ?B (Suc m)) x" using xs(4)[of i] by (simp add: x_def)
    then have "i \<in> set xs" using i by (simp add: bucket_def x_def)
    then have "record \<in> dat b ` set xs" using i(2) by blast
    then obtain as p bs where p: "xs = as @ p # bs" "dat b p = record" "find_record b record x None = Some (Some (p, if as = [] then None else Some (last as)))"
      using fr by auto
    show ?thesis unfolding if_P[OF True]
      by (rule delete_found[OF ok Suc b refl t x_def x xs(1)[unfolded p(1)] bk[unfolded p(1)] p(2,3)])
  qed
qed

end
