(* ===== verification/Hash_Update.thy ===== *)
theory Hash_Update
  imports Hash_Delete
begin

text \<open>
  The update of a record whose key has changed in place: it leaves the chain of its old key and joins the chain of the
  new one, at the position that becomes free.
\<close>

lemma movelink_later:
  assumes t: "tbl d S N f" and e: "e \<notin> S" and p: "p \<in> S" "f (dat d p) \<noteq> p"
  obtains D where "movelink (d[e := d ! p]) p (f (dat d p)) e = Some D" "movelink (d[e := d ! p, p := v]) p (f (dat d p)) e = Some (D[p := v])"
    "length D = length d"
proof -
  obtain as bs where ab: "lpath d (f (dat d p)) (as @ p # bs) NO_RECORD" "set (as @ p # bs) = bucket d S f (f (dat d p))"
    using tbl_suffix[OF t p(1)] by metis
  have "as \<noteq> []" using ab(1) p(2) by (cases as) auto
  then obtain cs a where as: "as = cs @ [a]" by (metis append_butlast_last_id)
  have dist: "distinct (as @ p # bs)" using lpath_distinct[OF ab(1)] .
  have "i \<in> S" if "i \<in> set (as @ p # bs)" for i using that unfolding ab(2) by (simp add: bucket_def)
  then have ea: "e \<notin> set (cs @ [a])" using e as by auto
  have path: "lpath d (f (dat d p)) (cs @ [a]) p" using ab(1) as by auto
  then have p1: "lpath (d[e := d ! p]) (f (dat d p)) (cs @ [a]) p" using ea by (subst lpath_update) auto
  then have p2: "lpath (d[e := d ! p, p := v]) (f (dat d p)) (cs @ [a]) p" by (subst lpath_update) (use dist as in auto)
  have pa: "p \<notin> set cs" "p \<noteq> a" using dist as by auto
  show thesis
    by (rule that[OF movelink_ok[OF p1 pa]]) (use movelink_ok[OF p2 pa] pa(2) in \<open>simp_all add: list_update_swap\<close>)
qed

lemma tbl_homes:
  assumes t: "tbl d S N f" and eq: "\<And>i. i \<in> S \<Longrightarrow> g (dat d i) = f (dat d i)"
  shows "tbl d S N g"
proof -
  have "bucket d S g b = bucket d S f b" for b using eq by (auto simp: bucket_def)
  then show ?thesis using t eq by (simp add: tbl_def)
qed

text \<open>The record is placed anew, with the free position \<open>e\<close>; \<open>l\<close> is its old link.\<close>

lemma update_place_ok:
  assumes t: "tbl d ({..<n} - {e}) n f" and e: "e < n" and f: "f = home rb h (blength h) n" and n: "n = records h"
    and r: "f (link_data l) < n" and idx: "e = idx \<Longrightarrow> d ! e = l"
  defines "new_index \<equiv> f (link_data l)"
  shows "\<exists>d'. (if new_index = e then do {
                 data \<leftarrow> (if e \<noteq> idx then aset d e l else Some d);
                 set_next data e NO_RECORD }
               else do {
                 pos \<leftarrow> aget d new_index;
                 let new_pos_index = hash_rec_mask rb h pos (blength h) (records h);
                 if new_index \<noteq> new_pos_index then do {
                   data \<leftarrow> aset d e pos;
                   data \<leftarrow> movelink data new_index new_pos_index e;
                   aset data new_index (l\<lparr>link_next := NO_RECORD\<rparr>) }
                 else do {
                   data \<leftarrow> aset d e (l\<lparr>link_next := link_next pos\<rparr>);
                   set_next data new_index e } }) = Some d' \<and> length d' = length d \<and> tbl d' {..<n} n f \<and>
    recs d' {..<n} = add_mset (link_data l) (recs d ({..<n} - {e}))"
proof -
  let ?S = "{..<n} - {e}" and ?p = new_index and ?r = "link_data l"
  have S: "insert e ?S = {..<n}" "e \<notin> ?S" "finite ?S" using e by auto
  have len: "e < length d" "?p < length d" and pn: "f ?r = ?p" "?p < n" using tblD(2)[OF t] e r by (auto simp: new_index_def)
  have gp: "hash_rec_mask rb h k (blength h) (records h) = f (link_data k)" for k by (simp add: f home_def n hash_rec_mask_def rec_hashnr_def)
  have l: "l\<lparr>link_next := z\<rparr> = \<lparr>link_next = z, link_data = ?r\<rparr>" for z by (cases l) simp
  consider "?p = e" | "?p \<noteq> e" "f (dat d ?p) = ?p" | "?p \<noteq> e" "f (dat d ?p) \<noteq> ?p" by blast
  then show ?thesis
  proof cases
    case 1
    let ?d = "d[e := \<lparr>link_next = NO_RECORD, link_data = ?r\<rparr>]"
    have "recs ?d ?S = recs d ?S" by (rule recs_cong) simp
    then have "recs ?d (insert e ?S) = add_mset ?r (recs d ?S)" using recs_insert[OF S(3,2), of ?d] len by simp
    moreover have "tbl ?d (insert e ?S) n f" using place_home[OF t S(2) e] 1 pn by simp
    moreover have "Option.bind (if e \<noteq> idx then aset d e l else Some d) (\<lambda>data. set_next data e NO_RECORD) = Some ?d"
      using len idx by (cases "e = idx") (simp_all add: set_next_def l)
    ultimately show ?thesis using 1 unfolding S(1) by simp
  next
    case 2
    let ?d = "d[e := \<lparr>link_next = nxt d ?p, link_data = ?r\<rparr>, ?p := (d ! ?p)\<lparr>link_next := e\<rparr>]"
    have p: "?p \<in> ?S" using 2 pn by simp
    have "tbl ?d (insert e ?S) n f \<and> recs ?d (insert e ?S) = add_mset ?r (recs d ?S)"
      by (rule place_second[OF t S(2) e p 2(2) pn(1)]) (use len 2(1) in \<open>auto simp: nth_list_update\<close>)
    then show ?thesis using len 2 unfolding S(1) by (simp add: gp set_next_def l)
  next
    case 3
    have p: "?p \<in> ?S" using 3 pn by simp
    obtain D where D: "movelink (d[e := d ! ?p]) ?p (f (dat d ?p)) e = Some D" "length D = length d"
        "movelink (d[e := d ! ?p, ?p := \<lparr>link_next = NO_RECORD, link_data = ?r\<rparr>]) ?p (f (dat d ?p)) e = Some (D[?p := \<lparr>link_next = NO_RECORD, link_data = ?r\<rparr>])"
      by (rule movelink_later[OF t S(2) p 3(2)])
    from place_evict[OF t S(2) e p 3(2) pn(1), unfolded D(3) S(1)] show ?thesis using len 3(1) 3(2)[symmetric] D(1,2) by (simp add: gp l)
  qed
qed

lemma update_found:
  assumes ok: "hash_ok rb0 h" and n: "records h = n" and b: "buffer (array h) = Some b" and f0: "f0 = home rb0 h (blength h) n" and f: "f = home rb h (blength h) n"
    and t: "tbl b {..<n} n f0" and x: "x < n" and k: "get_bytes old_key 0 (if len \<noteq> 0 then len else key_length h) = Some k" "hash_mask (calc_hash h k) (blength h) n = x"
    and path: "lpath b x (as @ p # bs) NO_RECORD" "set (as @ p # bs) = bucket b {..<n} f0 x" and p: "dat b p = record"
    and fr: "find_record b record x None = Some (Some (p, if as = [] then None else Some (last as)))"
    and new: "f record < n" "f record \<noteq> x" and others: "\<And>r. r \<in># hash_bag h - {#record#} \<Longrightarrow> f r = f0 r"
  shows "\<exists>h'. hash_update rb h record old_key len = Some (h', False) \<and> hash_ok rb h' \<and> hash_bag h' = hash_bag h"
proof -
  let ?a = "array h" and ?B = "blength h"
  have wf: "arr_wf ?a" and sz: "size_of_element ?a = sizeof_HASH_LINK" and el: "elements ?a = n" and so: "sizes_ok ?B n"
    using ok n by (simp_all add: hash_ok_def)
  note hb = hash_bag_recs[OF wf b el[symmetric]]
  have pl: "p < length b" using lpath_bound[OF path(1), of p] by simp
  from unlink_ok[OF t x path] obtain d e where u: "unlink b p (if as = [] then None else Some (last as)) = Some (d, e)" "length d = length b"
      "e \<in> bucket b {..<n} f0 x" "tbl d ({..<n} - {e}) n f0" "recs b {..<n} = add_mset record (recs d ({..<n} - {e}))" "e = p \<longrightarrow> d ! p = b ! p"
    using p by blast
  have e: "e < n" using u(3) by (simp add: bucket_def)
  have "f (dat d i) = f0 (dat d i)" if "i \<in> {..<n} - {e}" for i
  proof -
    have "dat d i \<in># recs d ({..<n} - {e})" using that by (subst set_recs) auto
    then show ?thesis using others hb u(5) by simp
  qed
  then have t': "tbl d ({..<n} - {e}) n f" by (rule tbl_homes[OF u(4)])
  have idx: "d ! e = b ! p" if "e = p" using u(6) that by simp
  note up = update_place_ok[OF t' e f n[symmetric], of "b ! p" p, unfolded p, OF new(1) idx]
  then obtain d' where d': "length d' = length d" "tbl d' {..<n} n f" "recs d' {..<n} = add_mset record (recs d ({..<n} - {e}))"
      "hash_update rb h record old_key len = Some (set_links h d', False)"
  proof -
    have nw: "hash_mask (rec_hashnr rb h record) ?B (records h) = f record" by (simp add: f home_def n)
    have hu: "hash_update rb h record old_key len = Some (set_links h d'', False)" if "(if f record = e then do {
                 data \<leftarrow> (if e \<noteq> p then aset d e (b ! p) else Some d);
                 set_next data e NO_RECORD }
               else do {
                 pos \<leftarrow> aget d (f record);
                 let new_pos_index = hash_rec_mask rb h pos ?B (records h);
                 if f record \<noteq> new_pos_index then do {
                   data \<leftarrow> aset d e pos;
                   data \<leftarrow> movelink data (f record) new_pos_index e;
                   aset data (f record) ((b ! p)\<lparr>link_next := NO_RECORD\<rparr>) }
                 else do {
                   data \<leftarrow> aset d e ((b ! p)\<lparr>link_next := link_next pos\<rparr>);
                   set_next data (f record) e } }) = Some d''" for d''
      unfolding hash_update_def nw using new(2)[symmetric] pl that
      by (simp only: links_def b k k(2)[folded n] fr u(1) Let_def bind.bind_lunit prod.case option.case aget_def if_True if_False simp_thms)
    show thesis using up that hu by blast
  qed
  have "hash_ok rb (set_links h d') \<and> hash_bag (set_links h d') = recs d' {..<n}"
    by (rule hash_okI[OF wf b el sz]) (use so n u(2) d'(1,2) in \<open>simp_all add: f set_links_def\<close>)
  then show ?thesis using d'(3,4) u(5) hb by auto
qed

lemma hash_update_ok:
  assumes ok: "hash_ok rb0 h" and mem: "record \<in># hash_bag h"
    and k: "get_bytes old_key 0 (if len \<noteq> 0 then len else key_length h) = Some k" "calc_hash h k = rec_hashnr rb0 h record"
    and others: "\<And>r. r \<in># hash_bag h - {#record#} \<Longrightarrow> rec_hashnr rb h r = rec_hashnr rb0 h r"
  shows "\<exists>h'. hash_update rb h record old_key len = Some (h', False) \<and> hash_ok rb h' \<and> hash_bag h' = hash_bag h"
proof -
  define n where "n = records h"
  let ?a = "array h" and ?B = "blength h"
  let ?g = "home rb0 h ?B n" and ?f = "home rb h ?B n"
  have wf: "arr_wf ?a" and el: "elements ?a = n" and so: "sizes_ok ?B n" and t0: "tbl (arr_elems ?a) {..<n} n ?g"
    using ok by (simp_all add: hash_ok_def n_def)
  have "arr_elems ?a \<noteq> []" using mem by (auto simp: hash_bag_def)
  then have n: "0 < n" using el length_arr_elems[OF wf] by (cases n) auto
  obtain b where b: "buffer ?a = Some b" using wf el n by (cases "buffer ?a") (auto simp: arr_wf_def)
  note hb = hash_bag_recs[OF wf b el[symmetric]]
  have t: "tbl b {..<n} n ?g" by (rule tbl_prefix[OF t0]) (use hb in simp_all)
  have less: "home rbx h ?B n r < n" for rbx r using so n unfolding home_def sizes_ok_def by (auto intro!: hash_mask_less)
  have ot: "?f r = ?g r" if "r \<in># hash_bag h - {#record#}" for r using others[OF that] by (simp add: home_def)
  have kx: "hash_mask (calc_hash h k) ?B n = ?g record" by (simp add: k(2) home_def)
  show ?thesis
  proof (cases "?f record = ?g record")
    case True
    have "?f r = ?g r" if "r \<in># hash_bag h" for r using True ot[of r] that by (cases "r = record") (auto simp: in_diff_count count_single)
    then have "?f (dat b i) = ?g (dat b i)" if "i < n" for i using that hb by (simp add: set_recs)
    then have "tbl b {..<n} n ?f" using tbl_homes[OF t, of ?f] by simp
    then have "hash_ok rb h" using ok hb tbl_prefix[of b n ?f "arr_elems ?a"] by (simp add: hash_ok_def n_def)
    moreover have nw: "hash_mask (rec_hashnr rb h record) ?B n = ?g record" using True by (simp add: home_def)
    have "hash_update rb h record old_key len = Some (h, False)"
      unfolding hash_update_def n_def[symmetric] by (simp only: links_def b k(1) kx nw Let_def bind.bind_lunit if_True simp_thms)
    ultimately show ?thesis by blast
  next
    case False
    let ?x = "?g record"
    from t less obtain xs where xs: "lpath b ?x xs NO_RECORD" "xs \<noteq> []" "\<And>i. i < n \<Longrightarrow> ?g (dat b i) = ?x \<Longrightarrow> set xs = bucket b {..<n} ?g ?x"
      by (rule search_chain) blast
    obtain i where i: "i < n" "dat b i = record" using mem hb by (auto simp: set_recs)
    then have bk: "set xs = bucket b {..<n} ?g ?x" using xs(3)[of i] by simp
    then have "i \<in> set xs" using i by (simp add: bucket_def)
    then have "record \<in> dat b ` set xs" using i(2) by blast
    then obtain as p bs where p: "xs = as @ p # bs" "dat b p = record" "find_record b record ?x None = Some (Some (p, if as = [] then None else Some (last as)))"
      using find_record_ok[OF xs(1,2), of "record" None] by auto
    show ?thesis
      by (rule update_found[OF ok n_def[symmetric] b refl refl t less k(1) kx xs(1)[unfolded p(1)] bk[unfolded p(1)] p(2,3) less False ot])
  qed
qed

end
