(* ===== verification/Hash_Search.thy ===== *)
theory Hash_Search
  imports Hash_Update
begin

text \<open>
  The search for a key: \<open>hash_first\<close> and \<open>hash_next\<close> follow the chain of the key's home and find every record with the
  key, under the law that relates the two functions of a collation. The binary collation obeys it.
\<close>

subsection \<open>Walking a chain\<close>

text \<open>The state of a search that stands at the first of the positions \<open>ps\<close>.\<close>

definition at_pos :: "'r HASH_LINK list \<Rightarrow> nat list \<Rightarrow> 'r option \<times> nat" where
  "at_pos d ps = (case ps of [] \<Rightarrow> (None, NO_RECORD) | p # _ \<Rightarrow> (Some (dat d p), p))"

definition skip :: "('r \<Rightarrow> bool) \<Rightarrow> 'r HASH_LINK list \<Rightarrow> nat list \<Rightarrow> nat list" where
  "skip P d = dropWhile (\<lambda>i. \<not> P (dat d i))"

lemma skip_set: "set (skip P d ps) \<subseteq> set ps"
  by (auto simp: skip_def dest: set_dropWhileD)

lemma next_loop_ok:
  assumes "lpath d x xs NO_RECORD" "\<And>i. i \<in> set xs \<Longrightarrow> hashcmp rb h (d ! i) key len = Some (\<not> P (dat d i))"
  shows "next_loop rb h d key len x = Some (case skip P d xs of [] \<Rightarrow> None | p # _ \<Rightarrow> Some p)"
  using assms
proof (induction xs arbitrary: x)
  case Nil
  then show ?case by (subst next_loop.simps) (simp add: skip_def)
next
  case (Cons a xs)
  then have "next_loop rb h d key len (nxt d a) = Some (case skip P d xs of [] \<Rightarrow> None | p # _ \<Rightarrow> Some p)" by simp
  then show ?case using Cons.prems by (subst next_loop.simps) (simp add: skip_def)
qed

lemma first_loop_ok:
  assumes "lpath d x xs NO_RECORD" "xs \<noteq> []" "\<And>i. i \<in> set xs \<Longrightarrow> hashcmp rb h (d ! i) key len = Some (\<not> P (dat d i))"
    and "fl \<Longrightarrow> hash_rec_mask rb h (d ! x) (blength h) (records h) = x"
  shows "first_loop rb h d key len fl x = Some (case skip P d xs of [] \<Rightarrow> None | p # _ \<Rightarrow> Some p)"
  using assms
proof (induction xs arbitrary: x fl)
  case (Cons a xs)
  show ?case
  proof (cases xs)
    case Nil
    then show ?thesis using Cons.prems by (subst first_loop.simps) (auto simp: skip_def)
  next
    case ys: (Cons b ys)
    have "first_loop rb h d key len False (nxt d a) = Some (case skip P d xs of [] \<Rightarrow> None | p # _ \<Rightarrow> Some p)"
      using Cons.prems ys by (intro Cons.IH) simp_all
    then show ?thesis using Cons.prems ys by (subst first_loop.simps) (auto simp: skip_def)
  qed
qed simp

text \<open>The loop of a caller that asks for the next record until there is none.\<close>

fun hash_all :: "('r \<Rightarrow> uchar list) \<Rightarrow> 'r HASH \<Rightarrow> uchar list \<Rightarrow> nat \<Rightarrow> nat \<Rightarrow> 'r option \<times> nat \<Rightarrow> 'r list option" where
  "hash_all rb h key len fuel (None, cur) = Some []"
| "hash_all rb h key len 0 (Some r, cur) = None"
| "hash_all rb h key len (Suc fuel) (Some r, cur) = do {
     nx \<leftarrow> hash_next rb h key len cur;
     rs \<leftarrow> hash_all rb h key len fuel nx;
     Some (r # rs) }"

lemma hash_all_ok:
  assumes "links h = Some d"
  shows "lpath d x xs NO_RECORD \<Longrightarrow> (\<And>i. i \<in> set xs \<Longrightarrow> hashcmp rb h (d ! i) key len = Some (\<not> P (dat d i))) \<Longrightarrow> length xs \<le> fuel \<Longrightarrow>
    hash_all rb h key len fuel (at_pos d (skip P d xs)) = Some (map (dat d) (filter (\<lambda>i. P (dat d i)) xs))"
proof (induction xs arbitrary: x fuel)
  case (Cons a xs)
  show ?case
  proof (cases "P (dat d a)")
    case True
    obtain n where n: "fuel = Suc n" "length xs \<le> n" using Cons.prems(3) by (cases fuel) auto
    have a: "lpath d (nxt d a) xs NO_RECORD" "a < length d" "a \<noteq> NO_RECORD" using Cons.prems(1) by auto
    have "hash_next rb h key len a = Some (at_pos d (skip P d xs))"
    proof (cases "skip P d xs")
      case Nil
      then show ?thesis using a next_loop_ok[OF a(1), of rb h key len P] Cons.prems(2) assms by (simp add: hash_next_def at_pos_def)
    next
      case ps: (Cons p ps)
      then have "p \<in> set xs" using skip_set[of P d xs] by auto
      then have "p < length d" using lpath_bound[OF a(1)] by blast
      then show ?thesis using a next_loop_ok[OF a(1), of rb h key len P] Cons.prems(2) ps assms by (simp add: hash_next_def at_pos_def)
    qed
    moreover have "hash_all rb h key len n (at_pos d (skip P d xs)) = Some (map (dat d) (filter (\<lambda>i. P (dat d i)) xs))"
      using a n Cons.prems(2) by (intro Cons.IH) simp_all
    ultimately show ?thesis using True n by (simp add: skip_def at_pos_def)
  next
    case False
    have "hash_all rb h key len fuel (at_pos d (skip P d xs)) = Some (map (dat d) (filter (\<lambda>i. P (dat d i)) xs))"
      using Cons.prems by (intro Cons.IH[of "nxt d a"]) simp_all
    then show ?thesis using False by (simp add: skip_def)
  qed
qed (simp add: skip_def at_pos_def)

lemma hash_all_head:
  "hash_all rb h key len fuel st = Some rs \<Longrightarrow> fst st = (case rs of [] \<Rightarrow> None | r # _ \<Rightarrow> Some r)"
  by (induction rb h key len fuel st rule: hash_all.induct) (auto simp: bind_eq_Some_conv)

lemma filter_recs: "finite S \<Longrightarrow> filter_mset P (recs d S) = recs d {i \<in> S. P (dat d i)}"
  by (simp add: recs_def filter_mset_image_mset filter_mset_mset_set)

text \<open>The walk along the chain at \<open>x\<close> finds the records of the whole table that satisfy \<open>P\<close>, when \<open>x\<close> is their home.\<close>

lemma walk_ok:
  assumes ok: "hash_ok rb h" and n: "0 < records h" and b: "links h = Some b" and x: "x < records h"
    and P: "\<And>r. r \<in># hash_bag h \<Longrightarrow> P r \<Longrightarrow> home rb h (blength h) (records h) r = x"
    and cmp: "\<And>l. link_data l \<in># hash_bag h \<Longrightarrow> hashcmp rb h l key len = Some (\<not> P (link_data l))"
  shows "\<exists>ps. first_loop rb h b key len True x = Some (case skip P b ps of [] \<Rightarrow> None | p # _ \<Rightarrow> Some p) \<and> set ps \<subseteq> {..<length b} \<and>
    (\<exists>rs. hash_all rb h key len (records h) (at_pos b (skip P b ps)) = Some rs \<and> mset rs = filter_mset P (hash_bag h))"
proof -
  let ?n = "records h" and ?f = "home rb h (blength h) (records h)"
  have wf: "arr_wf (array h)" and el: "elements (array h) = ?n" and t0: "tbl (arr_elems (array h)) {..<?n} ?n ?f"
    using ok by (simp_all add: hash_ok_def)
  note hb = hash_bag_recs[OF wf b[unfolded links_def] el[symmetric]]
  have t: "tbl b {..<?n} ?n ?f" by (rule tbl_prefix[OF t0]) (use hb in simp_all)
  have mem: "dat b i \<in># hash_bag h" if "i < ?n" for i using that hb by (simp add: set_recs)
  have bag: "filter_mset P (hash_bag h) = recs b {i \<in> {..<?n}. P (dat b i)}" using hb filter_recs[of "{..<?n}" P b] by simp
  have rm: "hash_rec_mask rb h (b ! i) (blength h) ?n = ?f (dat b i)" for i by (simp add: hash_rec_mask_def home_def rec_hashnr_def)
  from t x obtain xs where xs: "lpath b x xs NO_RECORD" "xs \<noteq> []" "set xs \<subseteq> {..<?n}"
      "\<And>i. i < ?n \<Longrightarrow> ?f (dat b i) = x \<Longrightarrow> set xs = bucket b {..<?n} ?f x"
    by (rule search_chain) blast
  have hd: "hd xs = x" "x \<in> set xs" using lpath_head[OF xs(1,2)] xs(2) by (cases xs; auto)+
  have cm: "hashcmp rb h (b ! i) key len = Some (\<not> P (dat b i))" if "i \<in> set xs" for i using cmp mem xs(3) that by blast
  show ?thesis
  proof (cases "?f (dat b x) = x")
    case True
    then have bk: "set xs = bucket b {..<?n} ?f x" using xs(4) x by blast
    have "{i \<in> {..<?n}. P (dat b i)} = set (filter (\<lambda>i. P (dat b i)) xs)" using P mem by (auto simp: bk bucket_def)
    then have "mset (map (dat b) (filter (\<lambda>i. P (dat b i)) xs)) = filter_mset P (hash_bag h)"
      unfolding bag using lpath_distinct[OF xs(1)] by (simp only: recs_list distinct_filter)
    moreover have "length xs \<le> ?n" using card_mono[OF _ xs(3)] distinct_card[OF lpath_distinct[OF xs(1)]] by simp
    then have "hash_all rb h key len ?n (at_pos b (skip P b xs)) = Some (map (dat b) (filter (\<lambda>i. P (dat b i)) xs))"
      by (intro hash_all_ok[OF b xs(1)]) (use cm in simp_all)
    moreover have "first_loop rb h b key len True x = Some (case skip P b xs of [] \<Rightarrow> None | p # _ \<Rightarrow> Some p)"
      by (rule first_loop_ok[OF xs(1,2)]) (use cm rm True in simp_all)
    ultimately show ?thesis using xs(3) hb by (intro exI[of _ xs]) auto
  next
    case False
    then have "bucket b {..<?n} ?f x = {}" using bucket_home[OF t, of x] by auto
    then have none: "\<not> P (dat b i)" if "i < ?n" for i using P mem that by (auto simp: bucket_def)
    then have e: "{i \<in> {..<?n}. P (dat b i)} = {}" by blast
    have "filter_mset P (hash_bag h) = {#}" unfolding bag e by (simp add: recs_def)
    moreover have "first_loop rb h b key len True x = Some None"
      using none[OF x] False cm[OF hd(2)] x hb by (subst first_loop.simps) (simp add: rm)
    ultimately show ?thesis by (intro exI[of _ "[]"]) (simp add: skip_def at_pos_def)
  qed
qed

subsection \<open>Collations\<close>

text \<open>What a table relies on: keys of one length that compare as equal have the same hash value.\<close>

locale collation =
  fixes cs :: CHARSET_INFO
  assumes same_hash: "length s = length t \<Longrightarrow> strnncoll cs s t = 0 \<Longrightarrow> hash_sort cs s nr = hash_sort cs t nr"
begin

lemma search_all:
  assumes ok: "hash_ok rb h" and cs: "charset h = cs"
    and first: "\<And>r. r \<in># hash_bag h \<Longrightarrow> hash_key rb h r True = hash_key rb h r False"
    and k: "get_bytes key 0 (if len \<noteq> 0 then len else key_length h) = Some k"
    and fixed: "\<And>r. len = 0 \<Longrightarrow> r \<in># hash_bag h \<Longrightarrow> length (hash_key rb h r True) = key_length h"
  shows "\<exists>st rs. hash_first rb h key len = Some st \<and> hash_search rb h key len = Some (case rs of [] \<Rightarrow> None | r # _ \<Rightarrow> Some r) \<and>
    hash_all rb h key len (records h) st = Some rs \<and>
    mset rs = {# r \<in># hash_bag h. length (hash_key rb h r True) = length k \<and> strnncoll cs (hash_key rb h r True) k = 0 #}"
proof (cases "records h = 0")
  case True
  then have "hash_bag h = {#}" using ok length_arr_elems[of "array h"] by (simp add: hash_ok_def hash_bag_def)
  then show ?thesis using True by (simp add: hash_first_def hash_search_def)
next
  case False
  let ?P = "\<lambda>r. length (hash_key rb h r True) = length k \<and> strnncoll cs (hash_key rb h r True) k = 0"
  define x where "x = hash_mask (calc_hash h k) (blength h) (records h)"
  have lk: "length k = (if len \<noteq> 0 then len else key_length h)" using k by (auto simp: get_bytes_def length_slice split: if_splits)
  have "arr_wf (array h)" "elements (array h) = records h" using ok by (simp_all add: hash_ok_def)
  then obtain b where b: "links h = Some b" using False by (cases "buffer (array h)") (auto simp: links_def arr_wf_def)
  have x: "x < records h" using ok False unfolding x_def hash_ok_def sizes_ok_def by (auto intro!: hash_mask_less)
  have P: "home rb h (blength h) (records h) r = x" if "r \<in># hash_bag h" "?P r" for r
    using same_hash[of "hash_key rb h r True" k "(1, 4)"] that first[OF that(1)] by (simp add: home_def x_def rec_hashnr_def calc_hash_def cs)
  have cmp: "hashcmp rb h l key len = Some (\<not> ?P (link_data l))" if "link_data l \<in># hash_bag h" for l
    using k fixed[OF _ that] lk by (auto simp: hashcmp_def Let_def cs)
  from walk_ok[of rb h b x ?P, OF ok _ b x P cmp] False obtain ps rs where
    ps: "first_loop rb h b key len True x = Some (case skip ?P b ps of [] \<Rightarrow> None | p # _ \<Rightarrow> Some p)" "set ps \<subseteq> {..<length b}"
      "hash_all rb h key len (records h) (at_pos b (skip ?P b ps)) = Some rs" "mset rs = filter_mset ?P (hash_bag h)" by blast
  have "set (skip ?P b ps) \<subseteq> {..<length b}" using skip_set[of ?P b ps] ps(2) by blast
  then have "hash_first rb h key len = Some (at_pos b (skip ?P b ps))"
    using False ps(1) k b unfolding hash_first_def by (cases "skip ?P b ps") (simp_all add: x_def[symmetric] at_pos_def)
  then show ?thesis using ps(3,4) hash_all_head[OF ps(3)] by (simp add: hash_search_def)
qed

end

lemma memcmp_lists: "length s = length t \<Longrightarrow> memcmp (length s) (mem_at s 0) (mem_at t 0) = 0 \<longleftrightarrow> s = t"
  by (auto simp: memcmp_zero_iff mem_at_def intro: nth_equalityI)

lemma strnncoll_bin: "length s = length t \<Longrightarrow> strnncoll my_charset_bin s t = 0 \<longleftrightarrow> s = t"
  using memcmp_lists[of s t] by (auto simp: my_charset_bin_def my_strnncoll_binary_def Let_def)

interpretation bin: collation my_charset_bin
  by unfold_locales (simp add: strnncoll_bin)

end
