(* ===== verification/Hash_Props.thy ===== *)
theory Hash_Props
  imports Hash_Search
begin

text \<open>
  The hash table as a bag of records: creation, insertion, deletion, update and removal of all records, and the search
  for a key.
\<close>

lemma tbl_empty: "tbl d {} 0 f"
  by (simp add: tbl_def)

lemma hash_init_ok:
  assumes "0 < sz" "sz * sizeof_HASH_LINK < 2 ^ 32" "mem (sizeof_HASH_LINK * sz)"
  shows "\<exists>h'. hash_init mem junk h cs sz koffset klength gkey free_element fl = Some (h', False) \<and> hash_ok rb h' \<and> hash_bag h' = {#} \<and>
    charset h' = cs \<and> key_length h' = klength \<and> get_key h' = gkey \<and> free h' = free_element"
proof -
  have sz: "sz < 2 ^ 28" using assms(2) by (simp add: sizeof_HASH_LINK_def)
  obtain a where a: "init_dynamic_array mem junk sizeof_HASH_LINK sz 0 = Some (a, False)" "arr_wf a" "elements a = 0" "size_of_element a = sizeof_HASH_LINK"
    using assms sz by (auto simp: init_dynamic_array_def sizeof_HASH_LINK_def my_realloc_elems_def arr_wf_def MALLOC_OVERHEAD_def u32_def Let_def mult.commute)
  have "arr_elems a = []" using length_arr_elems[OF a(2)] a(3) by simp
  moreover have "sizes_ok 1 0" by (auto simp: sizes_ok_def intro: exI[of _ 0])
  ultimately show ?thesis using a by (simp add: hash_init_def hash_ok_def hash_bag_def tbl_empty)
qed

lemma my_hash_reset_ok:
  assumes ok: "hash_ok rb h"
  shows "\<exists>h' freed. my_hash_reset h = Some (h', freed) \<and> hash_ok rb h' \<and> hash_bag h' = {#} \<and> mset freed = (if free h then hash_bag h else {#})"
proof -
  let ?a = "array h" and ?h = "h\<lparr>records := 0, array := reset_dynamic (array h), blength := 1\<rparr>"
  have wf: "arr_wf ?a" "elements ?a = records h" "size_of_element ?a = sizeof_HASH_LINK" using ok by (simp_all add: hash_ok_def)
  have "arr_wf (reset_dynamic ?a)" "arr_elems (reset_dynamic ?a) = []" using wf(1)
    by (auto simp: reset_dynamic_def arr_wf_def arr_elems_def split: option.splits)
  moreover have "sizes_ok 1 0" by (auto simp: sizes_ok_def intro: exI[of _ 0])
  ultimately have "hash_ok rb ?h" "hash_bag ?h = {#}" using wf(3) by (simp_all add: hash_ok_def hash_bag_def tbl_empty) (simp_all add: reset_dynamic_def)
  moreover have "\<exists>freed. my_hash_reset h = Some (?h, freed) \<and> mset freed = (if free h then hash_bag h else {#})"
  proof (cases "free h \<and> records h \<noteq> 0")
    case True
    obtain b where b: "buffer ?a = Some b" using wf True by (cases "buffer ?a") (auto simp: arr_wf_def)
    note hb = hash_bag_recs[OF wf(1) b wf(2)[symmetric]]
    then show ?thesis using True b recs_prefix[of "records h" b] by (simp add: my_hash_reset_def hash_free_elements_def links_def)
  next
    case False
    then have "free h \<Longrightarrow> hash_bag h = {#}" using wf length_arr_elems[OF wf(1)] by (simp add: hash_bag_def)
    then show ?thesis using False by (simp add: my_hash_reset_def hash_free_elements_def)
  qed
  ultimately show ?thesis by blast
qed

subsection \<open>The debug check\<close>

lemma check_chain_ok:
  "lpath d x xs NO_RECORD \<Longrightarrow> (\<And>j. j \<in> set xs \<Longrightarrow> j < records h \<and> home rb h (blength h) (records h) (dat d j) = i) \<Longrightarrow>
    found + length xs \<le> records h \<Longrightarrow> records h < NO_RECORD \<Longrightarrow> check_chain rb h d i x (found, e) = Some (found + length xs, e)"
proof (induction xs arbitrary: x found)
  case (Cons a xs)
  have a: "x = a" "a < length d" "a \<noteq> NO_RECORD" "a < records h" "u32 (records h + 1) = Suc (records h)" "u32 (found + 1) = Suc found"
    using Cons.prems by (auto simp: u32_def NO_RECORD_def)
  have "hash_rec_mask rb h (d ! a) (blength h) (records h) = i" using Cons.prems(2)[of a] by (simp add: hash_rec_mask_def home_def rec_hashnr_def)
  moreover have "check_chain rb h d i (nxt d a) (Suc found, e) = Some (Suc found + length xs, e)"
    by (rule Cons.IH) (use Cons.prems in simp_all)
  ultimately show ?case using a Cons.prems(3) by (subst check_chain.simps) (simp add: not_le)
qed (subst check_chain.simps, simp)

lemma check_loop_ok:
  assumes t: "tbl d {..<n} n (home rb h (blength h) n)" and n: "n = records h" "n < NO_RECORD"
  shows "k \<le> n \<Longrightarrow> check_loop rb h d [k..<n] (card {j. j < n \<and> home rb h (blength h) n (dat d j) < k}, False) = Some (n, False)"
proof (induction "n - k" arbitrary: k)
  case 0
  then have "k = n" "{j. j < n \<and> home rb h (blength h) n (dat d j) < k} = {..<n}" using tblD(5)[OF t] by auto
  then show ?case by simp
next
  case (Suc m)
  let ?f = "home rb h (blength h) n"
  let ?A = "{j. j < n \<and> ?f (dat d j) < k}" and ?B = "bucket d {..<n} ?f k"
  have k: "k < n" "k < length d" using Suc.hyps(2) tblD(2)[OF t] by auto
  have AB: "{j. j < n \<and> ?f (dat d j) < Suc k} = ?A \<union> ?B" "?A \<inter> ?B = {}" "finite ?A" "finite ?B" by (auto simp: bucket_def)
  have "card (?A \<union> ?B) \<le> card {..<n}" by (rule card_mono) (auto simp: bucket_def)
  then have cd: "card {j. j < n \<and> ?f (dat d j) < Suc k} = card ?A + card ?B" "card ?A + card ?B \<le> n" using AB by (simp_all add: card_Un_disjoint)
  have rm: "hash_rec_mask rb h (d ! k) (blength h) (records h) = ?f (dat d k)" by (simp add: hash_rec_mask_def home_def rec_hashnr_def n)
  have IH: "check_loop rb h d [Suc k..<n] (card ?A + card ?B, False) = Some (n, False)" using Suc.hyps(1)[of "Suc k"] Suc.hyps(2) k cd(1) by simp
  show ?case
  proof (cases "?f (dat d k) = k")
    case True
    obtain xs where xs: "lpath d k (k # xs) NO_RECORD" "set (k # xs) = ?B" "distinct (k # xs)" using tbl_chain[OF t, of k] k True by (metis lessThan_iff)
    have c: "card ?B = Suc (length xs)" using distinct_card[OF xs(3)] unfolding xs(2) by simp
    have "j < n \<and> ?f (dat d j) = k" if "j \<in> set (k # xs)" for j using that unfolding xs(2) by (simp add: bucket_def)
    then have "check_chain rb h d k (nxt d k) (Suc (card ?A), False) = Some (Suc (card ?A) + length xs, False)"
      by (intro check_chain_ok) (use xs(1) cd(2) c n in auto)
    moreover have "u32 (card ?A + 1) = Suc (card ?A)" using cd(2) c n(2) by (simp add: u32_def NO_RECORD_def)
    ultimately show ?thesis using k IH True c by (simp add: upt_rec[of k] rm)
  next
    case False
    then have "?B = {}" using bucket_home[OF t, of k] by auto
    then show ?thesis using k IH False by (simp add: upt_rec[of k] rm)
  qed
qed

lemma hash_check_ok:
  assumes ok: "hash_ok rb h"
  shows "hash_check rb h = Some False"
proof (cases "records h = 0")
  case True
  then show ?thesis by (simp add: hash_check_def)
next
  case False
  let ?a = "array h" and ?n = "records h"
  have wf: "arr_wf ?a" "elements ?a = ?n" "size_of_element ?a = 16" and t: "tbl (arr_elems ?a) {..<?n} ?n (home rb h (blength h) ?n)"
    using ok by (simp_all add: hash_ok_def sizeof_HASH_LINK_def)
  obtain b where b: "buffer ?a = Some b" using wf False by (cases "buffer ?a") (auto simp: arr_wf_def)
  note hb = hash_bag_recs[OF wf(1) b wf(2)[symmetric]]
  have n: "?n < NO_RECORD" using wf by (auto simp: arr_wf_def NO_RECORD_def)
  have "tbl b {..<?n} ?n (home rb h (blength h) ?n)" by (rule tbl_prefix[OF t]) (use hb in simp_all)
  from check_loop_ok[OF this refl n, of 0] show ?thesis by (simp add: hash_check_def links_def b)
qed

subsection \<open>The table as a bag\<close>

text \<open>C21. A hash table is a bag of records. In a table whose chains are in order, an insertion adds the record, unless the
  array has to grow and the allocation fails, which changes nothing and is reported. A deletion takes one occurrence of the
  record out, passes it to the free function when there is one, and reports a record that is not there. An update after
  the key of one record was changed in place, called with the old key, moves that record to the chain of its new key and
  keeps all records. A reset frees every record and leaves an empty table. The debug check \<open>hash_check\<close> finds no error. Every operation leaves the chains in order, for
  the new positions of all records after the table has grown or shrunk by one position.\<close>

theorem hash_table_bag:
  assumes ok: "hash_ok rb h" and room: "(max_element (array h) + alloc_increment (array h)) * sizeof_HASH_LINK < 2 ^ 32"
  shows "(if elements (array h) = max_element (array h) \<and> \<not> mem ((max_element (array h) + alloc_increment (array h)) * sizeof_HASH_LINK)
      then my_hash_insert mem junk rb h record = Some (h, True)
      else \<exists>h'. my_hash_insert mem junk rb h record = Some (h', False) \<and> hash_ok rb h' \<and> hash_bag h' = add_mset record (hash_bag h)) \<and>
    (if old \<in># hash_bag h
      then \<exists>h'. hash_delete rb h old = Some (h', False, if free h then [old] else []) \<and> hash_ok rb h' \<and> hash_bag h' = hash_bag h - {#old#}
      else hash_delete rb h old = Some (h, True, [])) \<and>
    (changed \<in># hash_bag h \<and> get_bytes old_key 0 (if len \<noteq> 0 then len else key_length h) = Some k \<and> calc_hash h k = rec_hashnr rb h changed \<and>
      (\<forall>r \<in># hash_bag h - {#changed#}. rec_hashnr rb' h r = rec_hashnr rb h r) \<longrightarrow>
      (\<exists>h'. hash_update rb' h changed old_key len = Some (h', False) \<and> hash_ok rb' h' \<and> hash_bag h' = hash_bag h)) \<and>
    (\<exists>h' freed. my_hash_reset h = Some (h', freed) \<and> hash_ok rb h' \<and> hash_bag h' = {#} \<and> mset freed = (if free h then hash_bag h else {#})) \<and>
    hash_check rb h = Some False"
proof (intro conjI)
  show "if old \<in># hash_bag h
      then \<exists>h'. hash_delete rb h old = Some (h', False, if free h then [old] else []) \<and> hash_ok rb h' \<and> hash_bag h' = hash_bag h - {#old#}
      else hash_delete rb h old = Some (h, True, [])"
    using hash_delete_ok[OF ok, of old] by (cases "old \<in># hash_bag h") auto
  show "if elements (array h) = max_element (array h) \<and> \<not> mem ((max_element (array h) + alloc_increment (array h)) * sizeof_HASH_LINK)
      then my_hash_insert mem junk rb h record = Some (h, True)
      else \<exists>h'. my_hash_insert mem junk rb h record = Some (h', False) \<and> hash_ok rb h' \<and> hash_bag h' = add_mset record (hash_bag h)"
    using my_hash_insert_ok[OF ok room, of mem junk "record"] by (simp split: if_splits) blast
  show "changed \<in># hash_bag h \<and> get_bytes old_key 0 (if len \<noteq> 0 then len else key_length h) = Some k \<and> calc_hash h k = rec_hashnr rb h changed \<and>
      (\<forall>r \<in># hash_bag h - {#changed#}. rec_hashnr rb' h r = rec_hashnr rb h r) \<longrightarrow>
      (\<exists>h'. hash_update rb' h changed old_key len = Some (h', False) \<and> hash_ok rb' h' \<and> hash_bag h' = hash_bag h)"
    using hash_update_ok[OF ok, of changed old_key len k rb'] by blast
  show "\<exists>h' freed. my_hash_reset h = Some (h', freed) \<and> hash_ok rb h' \<and> hash_bag h' = {#} \<and> mset freed = (if free h then hash_bag h else {#})"
    by (rule my_hash_reset_ok[OF ok])
  show "hash_check rb h = Some False" by (rule hash_check_ok[OF ok])
qed

text \<open>C22. Under the binary collation, \<open>hash_first\<close> followed by \<open>hash_next\<close> as long as there is a record visits exactly the
  records of the table whose key is the given one, each as often as the table holds it, in at most as many steps as there
  are records, and \<open>hash_search\<close> returns the first of them or nothing. The key function must not depend on the flag that says
  whether the key is compared or hashed; with the length zero the keys must have the fixed length.\<close>

theorem hash_search_complete:
  assumes "hash_ok rb h" "charset h = my_charset_bin"
    and "\<forall>r \<in># hash_bag h. hash_key rb h r True = hash_key rb h r False"
    and "get_bytes key 0 (if len \<noteq> 0 then len else key_length h) = Some k"
    and "len = 0 \<longrightarrow> (\<forall>r \<in># hash_bag h. length (hash_key rb h r True) = key_length h)"
  shows "\<exists>st rs. hash_first rb h key len = Some st \<and> hash_search rb h key len = Some (case rs of [] \<Rightarrow> None | r # _ \<Rightarrow> Some r) \<and>
    hash_all rb h key len (records h) st = Some rs \<and> mset rs = {# r \<in># hash_bag h. hash_key rb h r True = k #}"
proof -
  have "(length (hash_key rb h r True) = length k \<and> strnncoll my_charset_bin (hash_key rb h r True) k = 0) \<longleftrightarrow> hash_key rb h r True = k" for r
    using strnncoll_bin by blast
  then show ?thesis using bin.search_all[OF assms(1,2) _ assms(4)] assms(3,5) by simp
qed

subsection \<open>A table\<close>

text \<open>Two records with one home: the second one is at a position that is no home.\<close>

definition ex_bytes :: "nat \<Rightarrow> uchar list" where
  "ex_bytes r = [word_of_nat r]"

definition ex_table :: "nat HASH" where
  "ex_table = \<lparr>key_offset = 0, key_length = 1, records = 2, blength = 4, flags = 0,
     array = \<lparr>buffer = Some [\<lparr>link_next = 1, link_data = 5\<rparr>, \<lparr>link_next = NO_RECORD, link_data = 7\<rparr>],
              elements = 2, max_element = 2, alloc_increment = 4, size_of_element = 16\<rparr>,
     get_key = None, free = True, charset = my_charset_bin\<rparr>"

lemma ex_hash_of: "rec_hashnr rb ex_table r = ucast (fst (my_hash_sort_bin (take 1 (rb r)) (1, 4)))"
  by (simp add: rec_hashnr_def calc_hash_def hash_key_def ex_table_def my_charset_bin_def arr_slice_def)

lemma ex_hash: "rec_hashnr ex_bytes ex_table 5 = 280" "rec_hashnr ex_bytes ex_table 7 = 290"
  unfolding ex_hash_of by code_simp+

lemma ex_home: "home ex_bytes ex_table 4 2 5 = 0" "home ex_bytes ex_table 4 2 7 = 0"
  unfolding home_def ex_hash by code_simp+

lemma ex_ok: "hash_ok ex_bytes ex_table"
proof -
  let ?d = "[\<lparr>link_next = 1, link_data = 5\<rparr>, \<lparr>link_next = NO_RECORD, link_data = 7\<rparr>] :: nat HASH_LINK list"
  have i: "i < 2 \<longleftrightarrow> i = 0 \<or> i = 1" for i :: nat by auto
  have f: "home ex_bytes ex_table 4 2 (dat ?d i) = 0" if "i < 2" for i using that ex_home by (auto simp: i)
  have bk: "bucket ?d {..<2} (home ex_bytes ex_table 4 2) b = (if b = 0 then {0, 1} else {})" for b
  proof (intro set_eqI)
    fix j show "j \<in> bucket ?d {..<2} (home ex_bytes ex_table 4 2) b \<longleftrightarrow> j \<in> (if b = 0 then {0, 1} else {})"
      using f[of j] i[of j] by (cases "j < 2") (simp_all add: bucket_def)
  qed
  have "lpath ?d 0 [0, 1] NO_RECORD" by (simp add: NO_RECORD_def)
  then have "tbl ?d {..<2} 2 (home ex_bytes ex_table 4 2)"
    unfolding tbl_def bk using f by (auto simp: NO_RECORD_def intro!: exI[of _ "[0, 1]"])
  moreover have "sizes_ok 4 2" by (auto simp: sizes_ok_def intro: exI[of _ 2])
  ultimately show ?thesis unfolding hash_ok_def by (simp add: ex_table_def arr_wf_def arr_elems_def sizeof_HASH_LINK_def)
qed

lemma ex_bag: "hash_bag ex_table = {# 5, 7 #}"
  by (simp add: hash_bag_def ex_table_def arr_elems_def)

lemma ex_fields:
  "max_element (array ex_table) = 2" "alloc_increment (array ex_table) = 4" "elements (array ex_table) = 2" "free ex_table" "key_length ex_table = 1"
  "records ex_table = 2" "charset ex_table = my_charset_bin" "calc_hash ex_table [7] = 290" "hash_key ex_bytes ex_table r b = [word_of_nat r]"
proof -
  show "calc_hash ex_table [7] = 290"
    using ex_hash(2) by (simp add: rec_hashnr_def hash_key_def ex_table_def ex_bytes_def arr_slice_def)
qed (simp_all add: ex_table_def hash_key_def ex_bytes_def arr_slice_def)

theorem hash_table_bag_witness:
  "(\<exists>h'. my_hash_insert (\<lambda>_. True) \<lparr>link_next = 0, link_data = 0\<rparr> ex_bytes ex_table 3 = Some (h', False) \<and> hash_ok ex_bytes h' \<and>
      hash_bag h' = {# 3, 5, 7 #}) \<and>
   (\<exists>h'. hash_delete ex_bytes ex_table 5 = Some (h', False, [5]) \<and> hash_ok ex_bytes h' \<and> hash_bag h' = {# 7 #}) \<and>
   (\<exists>h'. hash_update (ex_bytes(7 := [9])) ex_table 7 [7] 1 = Some (h', False) \<and> hash_ok (ex_bytes(7 := [9])) h' \<and> hash_bag h' = {# 5, 7 #}) \<and>
   (\<exists>h' freed. my_hash_reset ex_table = Some (h', freed) \<and> hash_ok ex_bytes h' \<and> hash_bag h' = {#} \<and> mset freed = {# 5, 7 #}) \<and>
   hash_check ex_bytes ex_table = Some False"
proof -
  have room: "(max_element (array ex_table) + alloc_increment (array ex_table)) * sizeof_HASH_LINK < 2 ^ 32" by (simp add: ex_fields sizeof_HASH_LINK_def)
  have "rec_hashnr (ex_bytes(7 := [9])) ex_table 5 = rec_hashnr ex_bytes ex_table 5" by (simp add: ex_hash_of)
  moreover have "get_bytes [7] 0 1 = Some [7 :: uchar]" by (simp add: get_bytes_def arr_slice_def)
  ultimately show ?thesis
    using hash_table_bag[OF ex_ok room, of "\<lambda>_. True" "\<lparr>link_next = 0, link_data = 0\<rparr>" 3 5 7 "[7]" 1 "[7]" "ex_bytes(7 := [9])"]
    by (simp add: ex_fields ex_bag ex_hash)
qed

theorem hash_search_complete_witness:
  "\<exists>st rs. hash_first ex_bytes ex_table [7] 1 = Some st \<and> hash_search ex_bytes ex_table [7] 1 = Some (case rs of [] \<Rightarrow> None | r # _ \<Rightarrow> Some r) \<and>
    hash_all ex_bytes ex_table [7] 1 2 st = Some rs \<and> mset rs = {# 7 #}"
proof -
  have "get_bytes [7] 0 1 = Some [7 :: uchar]" by (simp add: get_bytes_def arr_slice_def)
  then show ?thesis using hash_search_complete[OF ex_ok, of "[7]" 1 "[7]"] by (simp add: ex_fields ex_bag)
qed

end
