(* ===== verification/Spec2Isabelle.thy ===== *)
theory Spec2Isabelle
  imports Prelude Queue Lock_Steps RB_Tree_Search Key_Compare Text_Protocol Bitmap_Props Base64_Props Dyn_Array Hash_Props
begin

text \<open>
  A verification development for the MySQL server.
\<close>

end
